(* ===== verification/Prelude.thy ===== *)
theory Prelude
  imports Main "HOL-Library.Word" "HOL-Library.Monad_Syntax"
begin

section \<open>Prelude: the machine model shared by the components\<close>

text \<open>
  What every component of ccnet relies on and what is not particular to one of them.

  \<^item> A call that does not return normally (a failed \<open>assert\<close>, which aborts the process because
    no makefile of the repository defines \<open>NDEBUG\<close>; an access outside an array; an exception that
    nothing catches) is \<open>None\<close>; a call that returns is \<open>Some\<close>. Code is written in the
    \<open>do\<close>-notation of the option monad, one line per statement of the source.
  \<^item> \<open>size_t\<close> is a 64-bit unsigned integer: a \<open>nat\<close> whose sums and differences wrap around
    modulo \<open>2 ^ 64\<close>, with the wrap-around written out in \<open>size_add\<close> and \<open>size_sub\<close>.
  \<^item> \<open>int\<close> is a 32-bit signed integer, \<open>int64_t\<close> and \<open>time_t\<close> 64-bit ones: an \<open>int\<close> whose
    overflow is undefined behaviour, hence \<open>None\<close> (\<open>ck32\<close>, \<open>ck64\<close>); narrowing casts wrap.
  \<^item> C division truncates towards zero (\<open>cdiv\<close>, \<open>cmod\<close>).
  \<^item> \<open>std::vector\<close> is a list; \<open>resize\<close> beyond \<open>max_size()\<close> throws. Exhaustion of memory is not
    modelled.
\<close>

named_theorems size_simps
  \<open>rewriting of wrap-around arithmetic to plain arithmetic under a bound\<close>

named_theorems ck_simps
  \<open>checked arithmetic that is in range\<close>

type_synonym byte = "8 word"

subsection \<open>Assertions and the option monad\<close>

definition assert_that :: "bool \<Rightarrow> unit option" where
  "assert_that b = (if b then Some () else None)"

lemma assert_that_bind [simp]:
  "assert_that b \<bind> f = (if b then f () else None)"
  by (simp add: assert_that_def)

lemma assert_that_eq_Some [simp]: "assert_that b = Some u \<longleftrightarrow> b"
  by (simp add: assert_that_def)

lemma bind_SomeE:
  assumes "m \<bind> f = Some y"
  obtains x where "m = Some x" and "f x = Some y"
  using assms by (auto simp: bind_eq_Some_conv)

text \<open>A list of operations one after the other; the first that does not return ends the run.\<close>

fun run_all :: "('i \<Rightarrow> 's \<Rightarrow> 's option) \<Rightarrow> 'i list \<Rightarrow> 's \<Rightarrow> 's option" where
  "run_all f [] s = Some s"
| "run_all f (x # xs) s = do { s1 \<leftarrow> f x s; run_all f xs s1 }"

lemma run_all_append: "run_all f (xs @ ys) s = do { s1 \<leftarrow> run_all f xs s; run_all f ys s1 }"
proof (induction xs arbitrary: s)
  case (Cons x xs)
  then show ?case by (cases "f x s") simp_all
qed simp

subsection \<open>Machines\<close>

text \<open>
  A component whose operations change its state and abort when they are misused. \<open>machine\<close> is the
  contract of the safety proofs: every operation that returns keeps the invariant. \<open>live_machine\<close>
  adds when an operation is sure to return.
\<close>

locale machine =
  fixes step :: "'o \<Rightarrow> 's \<Rightarrow> 's option"
    and inv :: "'s \<Rightarrow> bool"
  assumes step_inv: "inv s \<Longrightarrow> step e s = Some s' \<Longrightarrow> inv s'"
begin

lemma run_inv: "inv s \<Longrightarrow> run_all step es s = Some s' \<Longrightarrow> inv s'"
proof (induction es arbitrary: s)
  case (Cons e es)
  from Cons.prems(2) obtain s1 where "step e s = Some s1" "run_all step es s1 = Some s'"
    by (auto elim: bind_SomeE)
  with Cons show ?case
    using step_inv by blast
qed simp

end

locale live_machine = machine +
  fixes ready :: "'o \<Rightarrow> 's \<Rightarrow> bool"
  assumes ready_returns: "inv s \<Longrightarrow> ready e s \<Longrightarrow> \<exists>s'. step e s = Some s'"
begin

lemma ready_step: "inv s \<Longrightarrow> ready e s \<Longrightarrow> \<exists>s'. step e s = Some s' \<and> inv s'"
  using ready_returns step_inv by blast

end

text \<open>The same for a relation between states, where several threads take steps in any order.\<close>

locale transition_system =
  fixes init :: "'s \<Rightarrow> bool"
    and trans :: "'s \<Rightarrow> 's \<Rightarrow> bool"
    and inv :: "'s \<Rightarrow> bool"
  assumes init_inv: "init s \<Longrightarrow> inv s"
    and trans_inv: "inv s \<Longrightarrow> trans s t \<Longrightarrow> inv t"
begin

lemma reachable_inv:
  assumes "init s" and "trans\<^sup>*\<^sup>* s t"
  shows "inv t"
  using assms(2) by (induction rule: rtranclp_induct) (use assms(1) init_inv trans_inv in blast)+

end

subsection \<open>Unsigned sizes\<close>

definition SIZE_MOD :: nat where
  "SIZE_MOD = 2 ^ 64"

definition size_add :: "nat \<Rightarrow> nat \<Rightarrow> nat" where
  "size_add a b = (a + b) mod SIZE_MOD"

definition size_sub :: "nat \<Rightarrow> nat \<Rightarrow> nat" where
  "size_sub a b = nat ((int a - int b) mod int SIZE_MOD)"

definition size_of_int :: "int \<Rightarrow> nat" where
  "size_of_int z = nat (z mod int SIZE_MOD)"

lemma SIZE_MOD_pos [simp]: "0 < SIZE_MOD"
  by (simp add: SIZE_MOD_def)

lemma size_add_small [size_simps]: "a + b < SIZE_MOD \<Longrightarrow> size_add a b = a + b"
  by (simp add: size_add_def)

lemma size_sub_le [size_simps]:
  assumes "b \<le> a" and "a < SIZE_MOD"
  shows "size_sub a b = a - b"
proof -
  have "(int a - int b) mod int SIZE_MOD = int a - int b"
    using assms by (intro mod_pos_pos_trivial) auto
  then show ?thesis
    using assms by (simp add: size_sub_def nat_diff_distrib)
qed

lemma size_of_int_nonneg [size_simps]:
  "0 \<le> z \<Longrightarrow> z < int SIZE_MOD \<Longrightarrow> size_of_int z = nat z"
  by (simp add: size_of_int_def)

lemma size_of_int_neg:
  assumes "z < 0" and "- int SIZE_MOD \<le> z"
  shows "size_of_int z = nat (int SIZE_MOD + z)"
proof -
  have "z mod int SIZE_MOD = (z + int SIZE_MOD) mod int SIZE_MOD"
    by simp
  also have "\<dots> = z + int SIZE_MOD"
    using assms by (intro mod_pos_pos_trivial) auto
  finally show ?thesis
    by (simp add: size_of_int_def add.commute)
qed

subsection \<open>Signed integers\<close>

definition INT32_MAX :: int where "INT32_MAX = 2 ^ 31 - 1"
definition INT32_MIN :: int where "INT32_MIN = - (2 ^ 31)"
definition INT64_MAX :: int where "INT64_MAX = 2 ^ 63 - 1"
definition INT64_MIN :: int where "INT64_MIN = - (2 ^ 63)"

lemmas int_limits = INT32_MAX_def INT32_MIN_def INT64_MAX_def INT64_MIN_def

text \<open>The value of an arithmetic expression of type \<open>int\<close> or \<open>int64_t\<close>: overflow is undefined.\<close>

definition ck32 :: "int \<Rightarrow> int option" where
  "ck32 z = (if INT32_MIN \<le> z \<and> z \<le> INT32_MAX then Some z else None)"

definition ck64 :: "int \<Rightarrow> int option" where
  "ck64 z = (if INT64_MIN \<le> z \<and> z \<le> INT64_MAX then Some z else None)"

lemma ck32_in [ck_simps]: "INT32_MIN \<le> z \<Longrightarrow> z \<le> INT32_MAX \<Longrightarrow> ck32 z = Some z"
  by (simp add: ck32_def)

lemma ck64_in [ck_simps]: "INT64_MIN \<le> z \<Longrightarrow> z \<le> INT64_MAX \<Longrightarrow> ck64 z = Some z"
  by (simp add: ck64_def)

lemma ck32_eq_Some: "ck32 z = Some r \<longleftrightarrow> r = z \<and> INT32_MIN \<le> z \<and> z \<le> INT32_MAX"
  by (auto simp: ck32_def)

lemma ck64_eq_Some: "ck64 z = Some r \<longleftrightarrow> r = z \<and> INT64_MIN \<le> z \<and> z \<le> INT64_MAX"
  by (auto simp: ck64_def)

lemma ck32_I: "- 2147483648 \<le> z \<Longrightarrow> z \<le> 2147483647 \<Longrightarrow> ck32 z = Some z"
  by (simp add: ck32_def int_limits)

lemma ck64_I:
  "- 9223372036854775808 \<le> z \<Longrightarrow> z \<le> 9223372036854775807 \<Longrightarrow> ck64 z = Some z"
  by (simp add: ck64_def int_limits)

text \<open>Narrowing casts of gcc on two's complement: the value modulo the width.\<close>

definition cast_int32 :: "int \<Rightarrow> int" where
  "cast_int32 z = (z + 2 ^ 31) mod 2 ^ 32 - 2 ^ 31"

lemma cast_int32_id: "INT32_MIN \<le> z \<Longrightarrow> z \<le> INT32_MAX \<Longrightarrow> cast_int32 z = z"
  by (simp add: cast_int32_def int_limits)

lemma cast_int32_wrap:
  assumes "2 ^ 31 \<le> z" and "z < 2 ^ 32"
  shows "cast_int32 z = z - 2 ^ 32"
proof -
  have "(z + 2 ^ 31) mod 2 ^ 32 = (z - 2 ^ 31 + 1 * 2 ^ 32) mod 2 ^ 32"
    by (simp add: add.commute)
  also have "\<dots> = z - 2 ^ 31"
    unfolding mod_mult_self1 using assms by (intro mod_pos_pos_trivial) simp_all
  finally show ?thesis
    by (simp add: cast_int32_def)
qed

lemma cast_int32_range: "INT32_MIN \<le> cast_int32 z \<and> cast_int32 z \<le> INT32_MAX"
proof -
  have "0 \<le> (z + 2 ^ 31) mod 2 ^ 32" and "(z + 2 ^ 31) mod 2 ^ 32 < (2 ^ 32 :: int)"
    by simp_all
  then show ?thesis
    unfolding cast_int32_def int_limits by simp
qed

text \<open>Division and remainder of C: rounding towards zero, remainder with the dividend's sign.\<close>

definition cdiv :: "int \<Rightarrow> int \<Rightarrow> int" where
  "cdiv a b = sgn a * sgn b * (\<bar>a\<bar> div \<bar>b\<bar>)"

definition cmod :: "int \<Rightarrow> int \<Rightarrow> int" where
  "cmod a b = a - cdiv a b * b"

lemma cdiv_nonneg: "0 \<le> a \<Longrightarrow> 0 < b \<Longrightarrow> cdiv a b = a div b"
  by (cases "a = 0") (auto simp: cdiv_def)

lemma cmod_nonneg: "0 \<le> a \<Longrightarrow> 0 < b \<Longrightarrow> cmod a b = a mod b"
  by (simp add: cmod_def cdiv_nonneg minus_div_mult_eq_mod)

lemma cdiv_neg: "a < 0 \<Longrightarrow> 0 < b \<Longrightarrow> cdiv a b = - ((- a) div b)"
  by (simp add: cdiv_def)

lemma cmod_neg: "a < 0 \<Longrightarrow> 0 < b \<Longrightarrow> cmod a b = - ((- a) mod b)"
  using minus_div_mult_eq_mod [of "- a" b] by (simp add: cmod_def cdiv_neg)

lemma cdiv_cmod: "cdiv a b * b + cmod a b = a"
  by (simp add: cmod_def)

lemma cmod_floor:
  assumes "0 < b"
  shows "(if cmod a b < 0 then cmod a b + b else cmod a b) = a mod b" (is ?r)
    and "(if cmod a b < 0 then cdiv a b - 1 else cdiv a b) = a div b" (is ?q)
proof -
  let ?r = "if cmod a b < 0 then cmod a b + b else cmod a b"
  let ?q = "if cmod a b < 0 then cdiv a b - 1 else cdiv a b"
  have "- b < cmod a b \<and> cmod a b < b"
  proof (cases "0 \<le> a")
    case True
    then show ?thesis
      using assms by (simp add: cmod_nonneg) (meson dual_order.strict_trans1 neg_less_0_iff_less pos_mod_sign)
  next
    case False
    then show ?thesis
      using assms pos_mod_bound [OF assms, of "- a"] pos_mod_sign [OF assms, of "- a"]
      by (simp add: cmod_neg)
  qed
  then have r: "0 \<le> ?r" "?r < b"
    by auto
  have a: "a = b * ?q + ?r"
    using cdiv_cmod [of a b] by (simp add: algebra_simps)
  show "?q = a div b"
    using int_div_pos_eq [OF a r] by simp
  show "?r = a mod b"
    using int_mod_pos_eq [OF a r] by simp
qed

subsection \<open>Vectors and copies\<close>

definition VEC_MAX :: nat where
  "VEC_MAX = 2 ^ 63 - 1"

lemma VEC_MAX_less [simp]: "VEC_MAX < SIZE_MOD"
  by (simp add: VEC_MAX_def SIZE_MOD_def)

definition vec_resize :: "'a::zero list \<Rightarrow> nat \<Rightarrow> 'a list option" where
  "vec_resize xs n =
     (if n \<le> VEC_MAX then Some (take n xs @ replicate (n - length xs) 0) else None)"

lemma length_vec_resize: "vec_resize xs n = Some ys \<Longrightarrow> length ys = n"
  by (auto simp: vec_resize_def min_def split: if_splits)

text \<open>
  \<open>std::copy\<close> moves the elements one by one, from the first to the last. \<open>copy_within\<close> is the
  call in which source and target are the same array, so that an element may be read after it was
  overwritten; \<open>copy_into\<close> the one in which they are distinct.
\<close>

fun copy_loop :: "'a list \<Rightarrow> nat \<Rightarrow> nat \<Rightarrow> nat \<Rightarrow> 'a list" where
  "copy_loop xs i 0 k = xs"
| "copy_loop xs i (Suc n) k = copy_loop (xs[k := xs ! i]) (Suc i) n (Suc k)"

definition copy_within :: "'a list \<Rightarrow> nat \<Rightarrow> nat \<Rightarrow> nat \<Rightarrow> 'a list option" where
  "copy_within xs i j dest =
     (if i \<le> j \<and> j \<le> length xs \<and> dest + (j - i) \<le> length xs
      then Some (copy_loop xs i (j - i) dest) else None)"

fun write_loop :: "'a list \<Rightarrow> nat \<Rightarrow> 'a list \<Rightarrow> 'a list" where
  "write_loop xs k [] = xs"
| "write_loop xs k (d # ds) = write_loop (xs[k := d]) (Suc k) ds"

definition copy_into :: "'a list \<Rightarrow> nat \<Rightarrow> 'a list \<Rightarrow> nat \<Rightarrow> 'a list option" where
  "copy_into xs dest ds n =
     (if n \<le> length ds \<and> dest + n \<le> length xs
      then Some (write_loop xs dest (take n ds)) else None)"

lemma copy_loop_down:
  assumes "k \<le> i" and "i + n \<le> length xs"
  shows "copy_loop xs i n k = take k xs @ take n (drop i xs) @ drop (k + n) xs"
  using assms
proof (induction n arbitrary: xs i k)
  case 0
  then show ?case by simp
next
  case (Suc n)
  let ?ys = "xs[k := xs ! i]"
  have "copy_loop xs i (Suc n) k = take (Suc k) ?ys @ take n (drop (Suc i) ?ys) @ drop (Suc k + n) ?ys"
    using Suc.prems by (simp add: Suc.IH)
  also have "take (Suc k) ?ys = take k xs @ [xs ! i]"
    using Suc.prems by (simp add: take_Suc_conv_app_nth)
  also have "take n (drop (Suc i) ?ys) = take n (drop (Suc i) xs)"
    using Suc.prems by simp
  also have "drop (Suc k + n) ?ys = drop (k + Suc n) xs"
    by simp
  also have "(take k xs @ [xs ! i]) @ take n (drop (Suc i) xs) @ drop (k + Suc n) xs
      = take k xs @ take (Suc n) (drop i xs) @ drop (k + Suc n) xs"
    using Suc.prems by (simp add: Cons_nth_drop_Suc [symmetric])
  finally show ?case .
qed

lemma write_loop_eq:
  "k + length ds \<le> length xs \<Longrightarrow> write_loop xs k ds = take k xs @ ds @ drop (k + length ds) xs"
proof (induction ds arbitrary: xs k)
  case Nil
  then show ?case by simp
next
  case (Cons d ds)
  then have "write_loop xs k (d # ds)
      = take (Suc k) (xs[k := d]) @ ds @ drop (Suc k + length ds) (xs[k := d])"
    by simp
  with Cons.prems show ?case
    by (simp add: take_Suc_conv_app_nth)
qed

lemma copy_within_down:
  assumes "i \<le> j" and "j \<le> length xs" and "dest \<le> i"
  shows "copy_within xs i j dest =
    Some (take dest xs @ take (j - i) (drop i xs) @ drop (dest + (j - i)) xs)"
  using assms by (simp add: copy_within_def copy_loop_down)

lemma copy_into_eq:
  assumes "n \<le> length ds" and "dest + n \<le> length xs"
  shows "copy_into xs dest ds n = Some (take dest xs @ take n ds @ drop (dest + n) xs)"
  using assms by (simp add: copy_into_def write_loop_eq)

end
