(* ===== verification/Endian.thy ===== *)
theory Endian
  imports Prelude
begin

section \<open>Byte order: net/endian.h\<close>

text \<open>
  The host's byte order is a parameter of the model, since glibc's \<open>htobe64\<close> and its kin are the
  identity or a byte swap according to it, and since copying an integer to memory lays its bytes
  out in that order. \<open>mem_bytes\<close> and \<open>mem_word\<close> are the two directions of such a copy, the six
  functions of \<open>net/endian.h\<close> come after them. The lemmas show that an integer converted to network
  order and copied to memory is big endian on either kind of host, and that the way back is its
  inverse.
\<close>

unbundle bit_operations_syntax

datatype endianness = Little_Endian | Big_Endian

definition le_bytes :: "'a::len word \<Rightarrow> byte list" where
  "le_bytes x = map (\<lambda>k. ucast (drop_bit (8 * k) x)) [0..<LENGTH('a) div 8]"

definition be_bytes :: "'a::len word \<Rightarrow> byte list" where
  "be_bytes x = rev (le_bytes x)"

fun of_le_bytes :: "byte list \<Rightarrow> 'a::len word" where
  "of_le_bytes [] = 0"
| "of_le_bytes (b # bs) = ucast b OR push_bit 8 (of_le_bytes bs)"

definition of_be_bytes :: "byte list \<Rightarrow> 'a::len word" where
  "of_be_bytes bs = of_le_bytes (rev bs)"

definition mem_bytes :: "endianness \<Rightarrow> 'a::len word \<Rightarrow> byte list" where
  "mem_bytes host x = (case host of Little_Endian \<Rightarrow> le_bytes x | Big_Endian \<Rightarrow> be_bytes x)"

definition mem_word :: "endianness \<Rightarrow> byte list \<Rightarrow> 'a::len word" where
  "mem_word host bs = (case host of Little_Endian \<Rightarrow> of_le_bytes bs | Big_Endian \<Rightarrow> of_be_bytes bs)"

definition bswap :: "'a::len word \<Rightarrow> 'a word" where
  "bswap x = of_le_bytes (rev (le_bytes x))"

definition htobe :: "endianness \<Rightarrow> 'a::len word \<Rightarrow> 'a word" where
  "htobe host x = (case host of Little_Endian \<Rightarrow> bswap x | Big_Endian \<Rightarrow> x)"

definition betoh :: "endianness \<Rightarrow> 'a::len word \<Rightarrow> 'a word" where
  "betoh host x = (case host of Little_Endian \<Rightarrow> bswap x | Big_Endian \<Rightarrow> x)"

definition hostToNetwork64 :: "endianness \<Rightarrow> 64 word \<Rightarrow> 64 word" where
  "hostToNetwork64 host host64 = htobe host host64"

definition hostToNetwork32 :: "endianness \<Rightarrow> 32 word \<Rightarrow> 32 word" where
  "hostToNetwork32 host host32 = htobe host host32"

definition hostToNetwork16 :: "endianness \<Rightarrow> 16 word \<Rightarrow> 16 word" where
  "hostToNetwork16 host host16 = htobe host host16"

definition networkToHost64 :: "endianness \<Rightarrow> 64 word \<Rightarrow> 64 word" where
  "networkToHost64 host net64 = betoh host net64"

definition networkToHost32 :: "endianness \<Rightarrow> 32 word \<Rightarrow> 32 word" where
  "networkToHost32 host net32 = betoh host net32"

definition networkToHost16 :: "endianness \<Rightarrow> 16 word \<Rightarrow> 16 word" where
  "networkToHost16 host net16 = betoh host net16"

lemmas endian_defs =
  hostToNetwork64_def hostToNetwork32_def hostToNetwork16_def
  networkToHost64_def networkToHost32_def networkToHost16_def

subsection \<open>Bytes and words\<close>

lemma length_le_bytes [simp]: "length (le_bytes (x :: 'a::len word)) = LENGTH('a) div 8"
  by (simp add: le_bytes_def)

lemma length_be_bytes [simp]: "length (be_bytes (x :: 'a::len word)) = LENGTH('a) div 8"
  by (simp add: be_bytes_def)

lemma length_mem_bytes [simp]: "length (mem_bytes host (x :: 'a::len word)) = LENGTH('a) div 8"
  by (simp add: mem_bytes_def split: endianness.split)

lemma bit_of_le_bytes:
  "bit (of_le_bytes bs :: 'a::len word) i \<longleftrightarrow>
     i < LENGTH('a) \<and> i div 8 < length bs \<and> bit (bs ! (i div 8)) (i mod 8)"
proof (induction bs arbitrary: i)
  case Nil
  then show ?case by simp
next
  case (Cons b bs)
  show ?case
  proof (cases "i < 8")
    case True
    then show ?thesis
      by (auto simp: bit_or_iff bit_push_bit_iff bit_ucast_iff)
  next
    case False
    then obtain j where j: "i = j + 8"
      by (metis add.commute le_Suc_ex linorder_not_less)
    have "\<not> bit (ucast b :: 'a word) i"
      using False bit_imp_le_length [of b i] by (auto simp: bit_ucast_iff)
    moreover have "(j + 8) div 8 = Suc (j div 8)"
      by simp
    ultimately show ?thesis
      using Cons.IH [of j] by (auto simp: j bit_or_iff bit_push_bit_iff)
  qed
qed

lemma bit_le_bytes:
  assumes "k < LENGTH('a) div 8"
  shows "bit (le_bytes (x :: 'a::len word) ! k) j \<longleftrightarrow> j < 8 \<and> bit x (8 * k + j)"
  using assms by (auto simp: le_bytes_def bit_ucast_iff bit_drop_bit_eq)

lemma of_le_bytes_le_bytes [simp]:
  assumes "8 dvd LENGTH('a)"
  shows "of_le_bytes (le_bytes x) = (x :: 'a::len word)"
proof (rule bit_word_eqI)
  fix i assume "i < LENGTH('a)"
  moreover from this assms have "i div 8 < LENGTH('a) div 8"
    by (auto elim!: dvdE)
  ultimately show "bit (of_le_bytes (le_bytes x) :: 'a word) i \<longleftrightarrow> bit x i"
    by (simp add: bit_of_le_bytes bit_le_bytes)
qed

lemma le_bytes_of_le_bytes [simp]:
  assumes "length bs = LENGTH('a::len) div 8"
  shows "le_bytes (of_le_bytes bs :: 'a word) = bs"
proof (rule nth_equalityI)
  show "length (le_bytes (of_le_bytes bs :: 'a word)) = length bs"
    using assms by simp
next
  fix k assume "k < length (le_bytes (of_le_bytes bs :: 'a word))"
  then have k: "k < LENGTH('a) div 8"
    by simp
  then have "Suc k * 8 \<le> LENGTH('a) div 8 * 8"
    by (intro mult_right_mono) simp_all
  also have "\<dots> \<le> LENGTH('a)"
    by simp
  finally have "8 * k + 8 \<le> LENGTH('a)"
    by simp
  then show "le_bytes (of_le_bytes bs :: 'a word) ! k = bs ! k"
    using k assms by (intro bit_word_eqI) (simp add: bit_le_bytes bit_of_le_bytes)
qed

lemma mem_word_mem_bytes:
  "8 dvd LENGTH('a) \<Longrightarrow> mem_word host (mem_bytes host x) = (x :: 'a::len word)"
  by (simp add: mem_word_def mem_bytes_def of_be_bytes_def be_bytes_def split: endianness.split)

lemma mem_bytes_htobe:
  "mem_bytes host (htobe host (x :: 'a::len word)) = be_bytes x"
  by (simp add: mem_bytes_def htobe_def bswap_def be_bytes_def split: endianness.split)

lemma betoh_mem_word:
  assumes "length bs = LENGTH('a::len) div 8"
  shows "betoh host (mem_word host bs) = (of_be_bytes bs :: 'a word)"
  using assms
  by (simp add: betoh_def mem_word_def bswap_def of_be_bytes_def split: endianness.split)

lemma of_be_bytes_be_bytes:
  "8 dvd LENGTH('a) \<Longrightarrow> of_be_bytes (be_bytes x) = (x :: 'a::len word)"
  by (simp add: of_be_bytes_def be_bytes_def)

lemma betoh_htobe:
  "8 dvd LENGTH('a) \<Longrightarrow> betoh host (htobe host x) = (x :: 'a::len word)"
  by (simp add: betoh_def htobe_def bswap_def split: endianness.split)

end
