(* ===== verification/StringPiece.thy ===== *)
theory StringPiece
  imports Prelude
begin

section \<open>Views of character data: base/string_piece.h\<close>

text \<open>
  A \<open>StringPiece\<close> is a pointer and an \<open>int\<close> length; it owns nothing. The model keeps, instead of
  the pointer, the bytes that can be read from it on (\<open>sp_ptr\<close>), and the length as the \<open>int\<close> the
  code stores, which a cast from \<open>size_t\<close> may have truncated. Reading outside the bytes is \<open>None\<close>.
  The lemmas show that on well-formed views the comparison operators are the lexicographic order on
  the viewed strings.
\<close>

record string_piece =
  sp_ptr :: "byte list"
  sp_length :: int

definition sp_default :: string_piece where
  "sp_default = \<lparr>sp_ptr = [], sp_length = 0\<rparr>"

fun strlen :: "byte list \<Rightarrow> nat option" where
  "strlen [] = None"
| "strlen (b # bs) = (if b = 0 then Some 0 else map_option Suc (strlen bs))"

definition sp_of_cstr :: "byte list \<Rightarrow> string_piece option" where
  "sp_of_cstr str = do {
     n \<leftarrow> strlen str;
     Some \<lparr>sp_ptr = str, sp_length = cast_int32 (int n)\<rparr>
   }"

definition sp_of_string :: "byte list \<Rightarrow> string_piece" where
  "sp_of_string str = \<lparr>sp_ptr = str, sp_length = cast_int32 (int (length str))\<rparr>"

definition sp_make :: "byte list \<Rightarrow> int \<Rightarrow> string_piece" where
  "sp_make offset len = \<lparr>sp_ptr = offset, sp_length = len\<rparr>"

definition sp_size :: "string_piece \<Rightarrow> int" where
  "sp_size p = sp_length p"

definition sp_empty :: "string_piece \<Rightarrow> bool" where
  "sp_empty p \<longleftrightarrow> sp_length p = 0"

definition sp_clear :: "string_piece \<Rightarrow> string_piece" where
  "sp_clear p = p\<lparr>sp_ptr := [], sp_length := 0\<rparr>"

definition sp_set :: "string_piece \<Rightarrow> byte list \<Rightarrow> int \<Rightarrow> string_piece" where
  "sp_set p buffer len = p\<lparr>sp_ptr := buffer, sp_length := len\<rparr>"

definition sp_set_cstr :: "string_piece \<Rightarrow> byte list \<Rightarrow> string_piece option" where
  "sp_set_cstr p str = do {
     n \<leftarrow> strlen str;
     Some (p\<lparr>sp_ptr := str, sp_length := cast_int32 (int n)\<rparr>)
   }"

definition sp_index :: "string_piece \<Rightarrow> int \<Rightarrow> byte option" where
  "sp_index p i =
     (if 0 \<le> i \<and> nat i < length (sp_ptr p) then Some (sp_ptr p ! nat i) else None)"

definition remove_prefix :: "string_piece \<Rightarrow> int \<Rightarrow> string_piece option" where
  "remove_prefix p n = do {
     assert_that (0 \<le> n \<and> nat n \<le> length (sp_ptr p));
     len \<leftarrow> ck32 (sp_length p - n);
     Some (p\<lparr>sp_ptr := drop (nat n) (sp_ptr p), sp_length := len\<rparr>)
   }"

definition remove_suffix :: "string_piece \<Rightarrow> int \<Rightarrow> string_piece option" where
  "remove_suffix p n = do {
     len \<leftarrow> ck32 (sp_length p - n);
     Some (p\<lparr>sp_length := len\<rparr>)
   }"

text \<open>
  \<open>memcmp\<close> compares as unsigned bytes; only the sign of its result is specified, and the model
  returns \<open>- 1\<close>, \<open>0\<close> or \<open>1\<close>.
\<close>

fun memcmp :: "byte list \<Rightarrow> byte list \<Rightarrow> nat \<Rightarrow> int option" where
  "memcmp xs ys 0 = Some 0"
| "memcmp (x # xs) (y # ys) (Suc n) =
     (if x < y then Some (- 1) else if y < x then Some 1 else memcmp xs ys n)"
| "memcmp _ _ (Suc n) = None"

definition memcmp_min :: "string_piece \<Rightarrow> string_piece \<Rightarrow> int option" where
  "memcmp_min p x =
     memcmp (sp_ptr p) (sp_ptr x)
       (size_of_int (if sp_length p < sp_length x then sp_length p else sp_length x))"

definition sp_eq :: "string_piece \<Rightarrow> string_piece \<Rightarrow> bool option" where
  "sp_eq p x =
     (if sp_length p = sp_length x
      then map_option (\<lambda>r. r = 0) (memcmp (sp_ptr p) (sp_ptr x) (size_of_int (sp_length p)))
      else Some False)"

definition sp_neq :: "string_piece \<Rightarrow> string_piece \<Rightarrow> bool option" where
  "sp_neq p x = map_option Not (sp_eq p x)"

definition sp_less :: "string_piece \<Rightarrow> string_piece \<Rightarrow> bool option" where
  "sp_less p x = do {
     r \<leftarrow> memcmp_min p x;
     Some (r < 0 \<or> (r = 0 \<and> sp_length p < sp_length x))
   }"

definition sp_less_eq :: "string_piece \<Rightarrow> string_piece \<Rightarrow> bool option" where
  "sp_less_eq p x = do {
     r \<leftarrow> memcmp_min p x;
     Some (r < 0 \<or> (r = 0 \<and> sp_length p \<le> sp_length x))
   }"

definition sp_greater_eq :: "string_piece \<Rightarrow> string_piece \<Rightarrow> bool option" where
  "sp_greater_eq p x = do {
     r \<leftarrow> memcmp_min p x;
     Some (r > 0 \<or> (r = 0 \<and> sp_length p \<ge> sp_length x))
   }"

definition sp_greater :: "string_piece \<Rightarrow> string_piece \<Rightarrow> bool option" where
  "sp_greater p x = do {
     r \<leftarrow> memcmp_min p x;
     Some (r > 0 \<or> (r = 0 \<and> sp_length p > sp_length x))
   }"

definition sp_compare :: "string_piece \<Rightarrow> string_piece \<Rightarrow> int option" where
  "sp_compare p x = do {
     r \<leftarrow> memcmp_min p x;
     Some (if r = 0
           then (if sp_length p < sp_length x then - 1
                 else if sp_length p > sp_length x then 1 else r)
           else r)
   }"

text \<open>\<open>string(data(), size())\<close>: a negative size is a huge \<open>size_t\<close>, for which it throws.\<close>

definition as_string :: "string_piece \<Rightarrow> byte list option" where
  "as_string p =
     (let n = size_of_int (sp_length p)
      in if n \<le> VEC_MAX \<and> n \<le> length (sp_ptr p) then Some (take n (sp_ptr p)) else None)"

definition starts_with :: "string_piece \<Rightarrow> string_piece \<Rightarrow> bool option" where
  "starts_with p x =
     (if sp_length p \<ge> sp_length x
      then map_option (\<lambda>r. r = 0) (memcmp (sp_ptr p) (sp_ptr x) (size_of_int (sp_length x)))
      else Some False)"

subsection \<open>Well-formed views\<close>

definition sp_wf :: "string_piece \<Rightarrow> bool" where
  "sp_wf p \<longleftrightarrow> 0 \<le> sp_length p \<and> sp_length p \<le> INT32_MAX \<and> nat (sp_length p) \<le> length (sp_ptr p)"

definition sp_view :: "string_piece \<Rightarrow> byte list" where
  "sp_view p = take (nat (sp_length p)) (sp_ptr p)"

lemma size_of_int_wf [simp]: "sp_wf p \<Longrightarrow> size_of_int (sp_length p) = nat (sp_length p)"
  by (simp add: sp_wf_def size_of_int_nonneg int_limits SIZE_MOD_def)

lemma length_sp_view [simp]: "sp_wf p \<Longrightarrow> length (sp_view p) = nat (sp_length p)"
  by (simp add: sp_wf_def sp_view_def)

lemma as_string_wf [simp]:
  assumes "sp_wf p"
  shows "as_string p = Some (sp_view p)"
proof -
  have "nat (sp_length p) \<le> nat INT32_MAX" and "nat (sp_length p) \<le> length (sp_ptr p)"
    using assms by (auto simp: sp_wf_def)
  moreover have "nat INT32_MAX \<le> VEC_MAX"
    by (simp add: VEC_MAX_def int_limits)
  ultimately show ?thesis
    using assms by (simp add: as_string_def sp_view_def)
qed

lemma sp_of_string_wf:
  assumes "length str \<le> nat INT32_MAX"
  shows "sp_wf (sp_of_string str)" and "sp_view (sp_of_string str) = str"
proof -
  have "cast_int32 (int (length str)) = int (length str)"
    using assms by (intro cast_int32_id) (simp_all add: int_limits)
  with assms show "sp_wf (sp_of_string str)" and "sp_view (sp_of_string str) = str"
    by (simp_all add: sp_wf_def sp_view_def sp_of_string_def int_limits)
qed

lemma memcmp_take:
  "n \<le> length xs \<Longrightarrow> n \<le> length ys \<Longrightarrow> memcmp xs ys n = memcmp (take n xs) (take n ys) n"
  by (induction xs ys n rule: memcmp.induct) auto

lemma memcmp_sign:
  "\<exists>r. memcmp xs ys (min (length xs) (length ys)) = Some r \<and>
     (r < 0 \<or> r = 0 \<and> length xs < length ys \<longleftrightarrow> ord_class.lexordp xs ys) \<and>
     (r = 0 \<and> length xs = length ys \<longleftrightarrow> xs = ys) \<and>
     (r > 0 \<or> r = 0 \<and> length xs > length ys \<longleftrightarrow> ord_class.lexordp ys xs)"
proof (induction xs arbitrary: ys)
  case Nil
  then show ?case by (cases ys) auto
next
  case (Cons x xs)
  show ?case
  proof (cases ys)
    case Nil
    then show ?thesis by auto
  next
    case (Cons y ys')
    with Cons.IH [of ys'] show ?thesis
      by (auto simp: not_less_iff_gr_or_eq)
  qed
qed

lemma memcmp_min_view:
  assumes "sp_wf p" and "sp_wf x"
  shows "memcmp_min p x = memcmp (sp_view p) (sp_view x) (min (length (sp_view p)) (length (sp_view x)))"
proof -
  let ?m = "min (nat (sp_length p)) (nat (sp_length x))"
  have m: "size_of_int (if sp_length p < sp_length x then sp_length p else sp_length x) = ?m"
    using assms by (auto simp: sp_wf_def min_def)
  have "memcmp (sp_ptr p) (sp_ptr x) ?m = memcmp (take ?m (sp_ptr p)) (take ?m (sp_ptr x)) ?m"
    using assms by (intro memcmp_take) (auto simp: sp_wf_def)
  also have "\<dots> = memcmp (take ?m (sp_view p)) (take ?m (sp_view x)) ?m"
    by (simp add: sp_view_def take_take min.commute min.left_commute)
  also have "\<dots> = memcmp (sp_view p) (sp_view x) ?m"
    using assms by (intro memcmp_take [symmetric]) auto
  finally show ?thesis
    using assms by (simp add: memcmp_min_def m)
qed

text \<open>Every comparison of two well-formed views, in terms of one sign.\<close>

lemma memcmp_min_sign:
  assumes "sp_wf p" and "sp_wf x"
  obtains r where "memcmp_min p x = Some r"
    and "(r < 0 \<or> r = 0 \<and> sp_length p < sp_length x) \<longleftrightarrow> ord_class.lexordp (sp_view p) (sp_view x)"
    and "(r = 0 \<and> sp_length p = sp_length x) \<longleftrightarrow> sp_view p = sp_view x"
    and "(r > 0 \<or> r = 0 \<and> sp_length p > sp_length x) \<longleftrightarrow> ord_class.lexordp (sp_view x) (sp_view p)"
proof -
  have l: "length (sp_view p) < length (sp_view x) \<longleftrightarrow> sp_length p < sp_length x"
      "length (sp_view x) < length (sp_view p) \<longleftrightarrow> sp_length x < sp_length p"
      "length (sp_view p) = length (sp_view x) \<longleftrightarrow> sp_length p = sp_length x"
    using assms by (auto simp: sp_wf_def)
  from memcmp_sign [of "sp_view p" "sp_view x"] show thesis
    unfolding memcmp_min_view [OF assms, symmetric] l using that by blast
qed

lemma sp_eq_view:
  assumes "sp_wf p" and "sp_wf x"
  shows "sp_eq p x = Some (sp_view p = sp_view x)"
proof (cases "sp_length p = sp_length x")
  case True
  obtain r where r: "memcmp_min p x = Some r"
    and eq: "(r = 0 \<and> sp_length p = sp_length x) \<longleftrightarrow> sp_view p = sp_view x"
    using memcmp_min_sign [OF assms] by metis
  from True r have "memcmp (sp_ptr p) (sp_ptr x) (size_of_int (sp_length p)) = Some r"
    by (simp add: memcmp_min_def)
  with True eq show ?thesis
    by (simp add: sp_eq_def)
next
  case False
  with assms have "length (sp_view p) \<noteq> length (sp_view x)"
    by (auto simp: sp_wf_def)
  with False show ?thesis
    by (auto simp: sp_eq_def)
qed

end
