(* ===== verification/Buffer.thy ===== *)
theory Buffer
  imports Endian StringPiece "HOL-Library.Sublist"
begin

section \<open>The application buffer: net/buffer.h, net/buffer.cc\<close>

text \<open>
  The state of a \<open>Buffer\<close> is its vector and the two indices; a pointer into it (\<open>peek()\<close>,
  \<open>beginWrite()\<close>, the results of \<open>findCRLF\<close> and \<open>findEOL\<close>) is an index into the vector. Every method
  is one definition, with its assertions. \<open>readv(2)\<close> is a parameter of \<open>readFd\<close>: a function from
  the lengths of the \<open>iovec\<close>s to what the kernel answers.

  \<open>buffer_inv\<close> is the picture drawn above the class (\<open>0 \<le> readerIndex \<le> writerIndex \<le> size\<close>);
  \<open>content\<close> is the readable part. Each method is shown to keep the invariant, never to fail one of
  its assertions when its precondition holds, and to act on \<open>content\<close> as a queue of bytes does; the
  locale \<open>byte_queue\<close> states that contract for the clients of the class.
\<close>

record buffer =
  buf_data :: "byte list"
  readerIndex :: nat
  writerIndex :: nat

definition kCheapPrepend :: nat where "kCheapPrepend = 8"
definition kInitialSize :: nat where "kInitialSize = 1024"

definition kCRLF :: "byte list" where "kCRLF = [13, 10]"

definition readableBytes :: "buffer \<Rightarrow> nat" where
  "readableBytes b = size_sub (writerIndex b) (readerIndex b)"

definition writableBytes :: "buffer \<Rightarrow> nat" where
  "writableBytes b = size_sub (length (buf_data b)) (writerIndex b)"

definition prependableBytes :: "buffer \<Rightarrow> nat" where
  "prependableBytes b = readerIndex b"

definition Buffer_new :: "nat \<Rightarrow> buffer option" where
  "Buffer_new initialSize = do {
     data \<leftarrow> vec_resize [] (size_add kCheapPrepend initialSize);
     let b = \<lparr>buf_data = data, readerIndex = kCheapPrepend, writerIndex = kCheapPrepend\<rparr>;
     assert_that (readableBytes b = 0);
     assert_that (writableBytes b = initialSize);
     assert_that (prependableBytes b = kCheapPrepend);
     Some b
   }"

definition swap_buffers :: "buffer \<Rightarrow> buffer \<Rightarrow> buffer \<times> buffer" where
  "swap_buffers b rhs =
     (b\<lparr>buf_data := buf_data rhs, readerIndex := readerIndex rhs, writerIndex := writerIndex rhs\<rparr>,
      rhs\<lparr>buf_data := buf_data b, readerIndex := readerIndex b, writerIndex := writerIndex b\<rparr>)"

text \<open>The bytes from index \<open>i\<close> to the writer index, and \<open>std::search\<close>, \<open>memchr\<close> over them.\<close>

definition region :: "buffer \<Rightarrow> nat \<Rightarrow> byte list" where
  "region b i = take (writerIndex b - i) (drop i (buf_data b))"

fun std_search :: "'a list \<Rightarrow> 'a list \<Rightarrow> nat" where
  "std_search [] pat = 0"
| "std_search (x # xs) pat = (if prefix pat (x # xs) then 0 else Suc (std_search xs pat))"

fun memchr :: "byte list \<Rightarrow> byte \<Rightarrow> nat option" where
  "memchr [] c = None"
| "memchr (x # xs) c = (if x = c then Some 0 else map_option Suc (memchr xs c))"

definition findCRLF :: "buffer \<Rightarrow> nat option" where
  "findCRLF b =
     (let crlf = readerIndex b + std_search (region b (readerIndex b)) kCRLF
      in if crlf = writerIndex b then None else Some crlf)"

definition findCRLF_from :: "buffer \<Rightarrow> nat \<Rightarrow> nat option option" where
  "findCRLF_from b start = do {
     assert_that (readerIndex b \<le> start);
     assert_that (start \<le> writerIndex b);
     let crlf = start + std_search (region b start) kCRLF;
     Some (if crlf = writerIndex b then None else Some crlf)
   }"

definition findEOL :: "buffer \<Rightarrow> nat option" where
  "findEOL b = map_option (\<lambda>k. readerIndex b + k) (memchr (region b (readerIndex b)) 10)"

definition findEOL_from :: "buffer \<Rightarrow> nat \<Rightarrow> nat option option" where
  "findEOL_from b start = do {
     assert_that (readerIndex b \<le> start);
     assert_that (start \<le> writerIndex b);
     Some (map_option (\<lambda>k. start + k) (memchr (region b start) 10))
   }"

definition retrieveAll :: "buffer \<Rightarrow> buffer" where
  "retrieveAll b = b\<lparr>readerIndex := kCheapPrepend, writerIndex := kCheapPrepend\<rparr>"

definition retrieve :: "buffer \<Rightarrow> nat \<Rightarrow> buffer option" where
  "retrieve b len = do {
     assert_that (len \<le> readableBytes b);
     if len < readableBytes b
     then Some (b\<lparr>readerIndex := size_add (readerIndex b) len\<rparr>)
     else Some (retrieveAll b)
   }"

definition retrieveUntil :: "buffer \<Rightarrow> nat \<Rightarrow> buffer option" where
  "retrieveUntil b end_ptr = do {
     assert_that (readerIndex b \<le> end_ptr);
     assert_that (end_ptr \<le> writerIndex b);
     retrieve b (end_ptr - readerIndex b)
   }"

definition retrieveInt64 :: "buffer \<Rightarrow> buffer option" where "retrieveInt64 b = retrieve b 8"
definition retrieveInt32 :: "buffer \<Rightarrow> buffer option" where "retrieveInt32 b = retrieve b 4"
definition retrieveInt16 :: "buffer \<Rightarrow> buffer option" where "retrieveInt16 b = retrieve b 2"
definition retrieveInt8 :: "buffer \<Rightarrow> buffer option" where "retrieveInt8 b = retrieve b 1"

text \<open>\<open>peek_bytes b n\<close>: reading \<open>n\<close> bytes from \<open>peek()\<close> on, inside the vector or not at all.\<close>

definition peek_bytes :: "buffer \<Rightarrow> nat \<Rightarrow> byte list option" where
  "peek_bytes b n =
     (if readerIndex b + n \<le> length (buf_data b)
      then Some (take n (drop (readerIndex b) (buf_data b))) else None)"

definition retrieveAsString :: "buffer \<Rightarrow> nat \<Rightarrow> (byte list \<times> buffer) option" where
  "retrieveAsString b len = do {
     assert_that (len \<le> readableBytes b);
     result \<leftarrow> peek_bytes b len;
     b' \<leftarrow> retrieve b len;
     Some (result, b')
   }"

definition retrieveAllAsString :: "buffer \<Rightarrow> (byte list \<times> buffer) option" where
  "retrieveAllAsString b = retrieveAsString b (readableBytes b)"

definition toStringPiece :: "buffer \<Rightarrow> string_piece" where
  "toStringPiece b =
     sp_make (drop (readerIndex b) (buf_data b)) (cast_int32 (int (readableBytes b)))"

definition makeSpace :: "buffer \<Rightarrow> nat \<Rightarrow> buffer option" where
  "makeSpace b len =
     (if size_add (writableBytes b) (prependableBytes b) < size_add len kCheapPrepend
      then do {
        data \<leftarrow> vec_resize (buf_data b) (size_add (writerIndex b) len);
        Some (b\<lparr>buf_data := data\<rparr>)
      }
      else do {
        assert_that (kCheapPrepend < readerIndex b);
        let readable = readableBytes b;
        data \<leftarrow> copy_within (buf_data b) (readerIndex b) (writerIndex b) kCheapPrepend;
        let b' = b\<lparr>buf_data := data, readerIndex := kCheapPrepend,
                   writerIndex := size_add kCheapPrepend readable\<rparr>;
        assert_that (readable = readableBytes b');
        Some b'
      })"

definition ensureWritableBytes :: "buffer \<Rightarrow> nat \<Rightarrow> buffer option" where
  "ensureWritableBytes b len = do {
     b' \<leftarrow> (if writableBytes b < len then makeSpace b len else Some b);
     assert_that (len \<le> writableBytes b');
     Some b'
   }"

definition hasWritten :: "buffer \<Rightarrow> nat \<Rightarrow> buffer option" where
  "hasWritten b len = do {
     assert_that (len \<le> writableBytes b);
     Some (b\<lparr>writerIndex := size_add (writerIndex b) len\<rparr>)
   }"

definition unwrite :: "buffer \<Rightarrow> nat \<Rightarrow> buffer option" where
  "unwrite b len = do {
     assert_that (len \<le> readableBytes b);
     Some (b\<lparr>writerIndex := size_sub (writerIndex b) len\<rparr>)
   }"

definition append_raw :: "buffer \<Rightarrow> byte list \<Rightarrow> nat \<Rightarrow> buffer option" where
  "append_raw b data len = do {
     b' \<leftarrow> ensureWritableBytes b len;
     xs \<leftarrow> copy_into (buf_data b') (writerIndex b') data len;
     hasWritten (b'\<lparr>buf_data := xs\<rparr>) len
   }"

definition append_piece :: "buffer \<Rightarrow> string_piece \<Rightarrow> buffer option" where
  "append_piece b str = append_raw b (sp_ptr str) (size_of_int (sp_size str))"

definition appendInt64 :: "endianness \<Rightarrow> buffer \<Rightarrow> 64 word \<Rightarrow> buffer option" where
  "appendInt64 host b x = append_raw b (mem_bytes host (hostToNetwork64 host x)) 8"

definition appendInt32 :: "endianness \<Rightarrow> buffer \<Rightarrow> 32 word \<Rightarrow> buffer option" where
  "appendInt32 host b x = append_raw b (mem_bytes host (hostToNetwork32 host x)) 4"

definition appendInt16 :: "endianness \<Rightarrow> buffer \<Rightarrow> 16 word \<Rightarrow> buffer option" where
  "appendInt16 host b x = append_raw b (mem_bytes host (hostToNetwork16 host x)) 2"

definition appendInt8 :: "buffer \<Rightarrow> 8 word \<Rightarrow> buffer option" where
  "appendInt8 b x = append_raw b [x] 1"

definition peekInt64 :: "endianness \<Rightarrow> buffer \<Rightarrow> 64 word option" where
  "peekInt64 host b = do {
     assert_that (8 \<le> readableBytes b);
     bs \<leftarrow> peek_bytes b 8;
     Some (networkToHost64 host (mem_word host bs))
   }"

definition peekInt32 :: "endianness \<Rightarrow> buffer \<Rightarrow> 32 word option" where
  "peekInt32 host b = do {
     assert_that (4 \<le> readableBytes b);
     bs \<leftarrow> peek_bytes b 4;
     Some (networkToHost32 host (mem_word host bs))
   }"

definition peekInt16 :: "endianness \<Rightarrow> buffer \<Rightarrow> 16 word option" where
  "peekInt16 host b = do {
     assert_that (2 \<le> readableBytes b);
     bs \<leftarrow> peek_bytes b 2;
     Some (networkToHost16 host (mem_word host bs))
   }"

definition peekInt8 :: "buffer \<Rightarrow> 8 word option" where
  "peekInt8 b = do {
     assert_that (1 \<le> readableBytes b);
     bs \<leftarrow> peek_bytes b 1;
     Some (hd bs)
   }"

definition readInt64 :: "endianness \<Rightarrow> buffer \<Rightarrow> (64 word \<times> buffer) option" where
  "readInt64 host b = do {
     result \<leftarrow> peekInt64 host b;
     b' \<leftarrow> retrieveInt64 b;
     Some (result, b')
   }"

definition readInt32 :: "endianness \<Rightarrow> buffer \<Rightarrow> (32 word \<times> buffer) option" where
  "readInt32 host b = do {
     result \<leftarrow> peekInt32 host b;
     b' \<leftarrow> retrieveInt32 b;
     Some (result, b')
   }"

definition readInt16 :: "endianness \<Rightarrow> buffer \<Rightarrow> (16 word \<times> buffer) option" where
  "readInt16 host b = do {
     result \<leftarrow> peekInt16 host b;
     b' \<leftarrow> retrieveInt16 b;
     Some (result, b')
   }"

definition readInt8 :: "buffer \<Rightarrow> (8 word \<times> buffer) option" where
  "readInt8 b = do {
     result \<leftarrow> peekInt8 b;
     b' \<leftarrow> retrieveInt8 b;
     Some (result, b')
   }"

definition prepend :: "buffer \<Rightarrow> byte list \<Rightarrow> nat \<Rightarrow> buffer option" where
  "prepend b data len = do {
     assert_that (len \<le> prependableBytes b);
     let r = size_sub (readerIndex b) len;
     xs \<leftarrow> copy_into (buf_data b) r data len;
     Some (b\<lparr>buf_data := xs, readerIndex := r\<rparr>)
   }"

definition prependInt64 :: "endianness \<Rightarrow> buffer \<Rightarrow> 64 word \<Rightarrow> buffer option" where
  "prependInt64 host b x = prepend b (mem_bytes host (hostToNetwork64 host x)) 8"

definition prependInt32 :: "endianness \<Rightarrow> buffer \<Rightarrow> 32 word \<Rightarrow> buffer option" where
  "prependInt32 host b x = prepend b (mem_bytes host (hostToNetwork32 host x)) 4"

definition prependInt16 :: "endianness \<Rightarrow> buffer \<Rightarrow> 16 word \<Rightarrow> buffer option" where
  "prependInt16 host b x = prepend b (mem_bytes host (hostToNetwork16 host x)) 2"

definition prependInt8 :: "buffer \<Rightarrow> 8 word \<Rightarrow> buffer option" where
  "prependInt8 b x = prepend b [x] 1"

definition shrink :: "buffer \<Rightarrow> nat \<Rightarrow> buffer option" where
  "shrink b reserve = do {
     other \<leftarrow> Buffer_new kInitialSize;
     other \<leftarrow> ensureWritableBytes other (size_add (readableBytes b) reserve);
     other \<leftarrow> append_piece other (toStringPiece b);
     Some (fst (swap_buffers b other))
   }"

text \<open>What a system call that transfers bytes answers: \<open>errno\<close>, or the bytes.\<close>

datatype io_result = IO_Err int | IO_Ok "byte list"

definition extrabuf_size :: nat where "extrabuf_size = 65536"

definition readFd :: "(nat list \<Rightarrow> io_result) \<Rightarrow> buffer \<Rightarrow> (int \<times> int option \<times> buffer) option" where
  "readFd readv b =
     (let writable = writableBytes b;
          iov = (if writable < extrabuf_size then [writable, extrabuf_size] else [writable])
      in case readv iov of
           IO_Err e \<Rightarrow> Some (- 1, Some e, b)
         | IO_Ok bs \<Rightarrow> do {
             xs \<leftarrow> copy_into (buf_data b) (writerIndex b) bs (min writable (length bs));
             let n = length bs;
             let b1 = b\<lparr>buf_data := xs\<rparr>;
             b' \<leftarrow> (if n \<le> writable
                    then Some (b1\<lparr>writerIndex := size_add (writerIndex b) n\<rparr>)
                    else append_raw (b1\<lparr>writerIndex := length xs\<rparr>) (drop writable bs)
                           (size_sub n writable));
             Some (int n, None, b')
           })"

subsection \<open>The invariant and the readable bytes\<close>

definition buffer_inv :: "buffer \<Rightarrow> bool" where
  "buffer_inv b \<longleftrightarrow> readerIndex b \<le> writerIndex b \<and> writerIndex b \<le> length (buf_data b) \<and>
     kCheapPrepend \<le> length (buf_data b) \<and> length (buf_data b) \<le> VEC_MAX"

definition content :: "buffer \<Rightarrow> byte list" where
  "content b = region b (readerIndex b)"

text \<open>How many bytes can be appended for sure: the vector may have to grow at the writer index.\<close>

definition room :: "buffer \<Rightarrow> nat" where
  "room b = VEC_MAX - max kCheapPrepend (writerIndex b)"

lemma inv_less_mod:
  assumes "buffer_inv b"
  shows "length (buf_data b) < SIZE_MOD" and "writerIndex b < SIZE_MOD" and "readerIndex b < SIZE_MOD"
proof -
  have "length (buf_data b) < SIZE_MOD"
    using assms by (auto simp: buffer_inv_def intro: le_less_trans [OF _ VEC_MAX_less])
  then show "length (buf_data b) < SIZE_MOD" "writerIndex b < SIZE_MOD" "readerIndex b < SIZE_MOD"
    using assms by (auto simp: buffer_inv_def)
qed

lemma readableBytes_inv [simp]: "buffer_inv b \<Longrightarrow> readableBytes b = writerIndex b - readerIndex b"
  using inv_less_mod [of b] by (simp add: readableBytes_def size_simps buffer_inv_def)

lemma writableBytes_inv [simp]: "buffer_inv b \<Longrightarrow> writableBytes b = length (buf_data b) - writerIndex b"
  using inv_less_mod [of b] by (simp add: writableBytes_def size_simps buffer_inv_def)

lemma length_content [simp]: "buffer_inv b \<Longrightarrow> length (content b) = writerIndex b - readerIndex b"
  by (auto simp: content_def region_def buffer_inv_def min_def)

lemma length_content_readable: "buffer_inv b \<Longrightarrow> length (content b) = readableBytes b"
  by simp

lemma region_drop: "readerIndex b \<le> i \<Longrightarrow> drop (i - readerIndex b) (content b) = region b i"
  by (simp add: content_def region_def drop_take)

lemma size_add_inv [simp]:
  "buffer_inv b \<Longrightarrow> n \<le> length (buf_data b) - writerIndex b \<Longrightarrow>
     size_add (writerIndex b) n = writerIndex b + n"
  using inv_less_mod [of b] by (intro size_add_small) (auto simp: buffer_inv_def)

lemma peek_bytes_inv [simp]:
  assumes "buffer_inv b" and "n \<le> writerIndex b - readerIndex b"
  shows "peek_bytes b n = Some (take n (content b))"
  using assms by (auto simp: peek_bytes_def buffer_inv_def content_def region_def)

subsection \<open>Construction, retrieval\<close>

lemma Buffer_new_ok:
  assumes "initialSize + kCheapPrepend \<le> VEC_MAX"
  shows "\<exists>b. Buffer_new initialSize = Some b \<and> buffer_inv b \<and> content b = [] \<and>
    readerIndex b = kCheapPrepend \<and> writerIndex b = kCheapPrepend \<and>
    length (buf_data b) = kCheapPrepend + initialSize"
proof -
  have "size_add kCheapPrepend initialSize = kCheapPrepend + initialSize"
    using assms VEC_MAX_less by (intro size_add_small) linarith
  moreover define b where "b = \<lparr>buf_data = replicate (kCheapPrepend + initialSize) (0 :: byte),
     readerIndex = kCheapPrepend, writerIndex = kCheapPrepend\<rparr>"
  moreover have "buffer_inv b"
    using assms by (simp add: b_def buffer_inv_def add.commute)
  ultimately show ?thesis
    using assms by (simp add: Buffer_new_def vec_resize_def prependableBytes_def add.commute
        content_def region_def Let_def)
qed

lemma retrieveAll_inv [simp]:
  "buffer_inv b \<Longrightarrow> buffer_inv (retrieveAll b) \<and> content (retrieveAll b) = []"
  by (simp add: retrieveAll_def buffer_inv_def content_def region_def)

lemma retrieve_ok:
  assumes "buffer_inv b" and "n \<le> length (content b)"
  shows "\<exists>b'. retrieve b n = Some b' \<and> buffer_inv b' \<and> content b' = drop n (content b) \<and>
    writerIndex b' \<le> max kCheapPrepend (writerIndex b)"
proof (cases "n < readableBytes b")
  case True
  with assms inv_less_mod [OF assms(1)] have "size_add (readerIndex b) n = readerIndex b + n"
    by (intro size_add_small) (auto simp: buffer_inv_def)
  with True assms show ?thesis
    by (auto simp: retrieve_def buffer_inv_def content_def region_def drop_take add.commute)
next
  case False
  then show ?thesis
    using assms by (auto simp: retrieve_def retrieveAll_def [THEN arg_cong [where f = writerIndex]])
qed

lemma retrieve_over: "buffer_inv b \<Longrightarrow> length (content b) < n \<Longrightarrow> retrieve b n = None"
  by (simp add: retrieve_def)

lemma retrieveUntil_eq:
  assumes "buffer_inv b" and "readerIndex b \<le> e" and "e \<le> writerIndex b"
  shows "retrieveUntil b e = retrieve b (e - readerIndex b)"
  using assms by (simp add: retrieveUntil_def)

lemma retrieveAsString_ok:
  assumes "buffer_inv b" and "n \<le> length (content b)"
  shows "\<exists>b'. retrieveAsString b n = Some (take n (content b), b') \<and> buffer_inv b' \<and>
    content b' = drop n (content b)"
  using retrieve_ok [OF assms] assms by (auto simp: retrieveAsString_def)

lemma unwrite_ok:
  assumes "buffer_inv b" and "n \<le> length (content b)"
  shows "\<exists>b'. unwrite b n = Some b' \<and> buffer_inv b' \<and>
    content b' = take (length (content b) - n) (content b)"
proof -
  have "size_sub (writerIndex b) n = writerIndex b - n"
    using assms inv_less_mod [OF assms(1)] by (intro size_sub_le) auto
  with assms show ?thesis
    by (auto simp: unwrite_def buffer_inv_def content_def region_def add.commute)
qed

subsection \<open>Appending\<close>

lemma makeSpace_ok:
  assumes inv: "buffer_inv b" and len: "len \<le> room b" and full: "writableBytes b < len"
  shows "\<exists>b'. makeSpace b len = Some b' \<and> buffer_inv b' \<and> content b' = content b \<and>
    len \<le> writableBytes b' \<and> writerIndex b' \<le> writerIndex b"
proof -
  have max2: "VEC_MAX + VEC_MAX < SIZE_MOD" "VEC_MAX + kCheapPrepend < SIZE_MOD"
    by (simp_all add: VEC_MAX_def SIZE_MOD_def kCheapPrepend_def)
  have bounds: "len + writerIndex b \<le> VEC_MAX" "len \<le> VEC_MAX"
    using assms by (auto simp: room_def buffer_inv_def)
  have free: "size_add (writableBytes b) (prependableBytes b)
      = length (buf_data b) - writerIndex b + readerIndex b"
    using inv max2 by (simp add: prependableBytes_def) (intro size_add_small, auto simp: buffer_inv_def)
  have need: "size_add len kCheapPrepend = len + kCheapPrepend"
    using bounds max2 by (intro size_add_small) linarith
  have grown: "size_add (writerIndex b) len = writerIndex b + len"
    using bounds VEC_MAX_less by (intro size_add_small) linarith
  show ?thesis
  proof (cases "length (buf_data b) - writerIndex b + readerIndex b < len + kCheapPrepend")
    case True
    define b' where "b' = b\<lparr>buf_data := take (writerIndex b + len) (buf_data b) @
        replicate (writerIndex b + len - length (buf_data b)) 0\<rparr>"
    have "makeSpace b len = Some b'"
      using True bounds
      by (simp add: makeSpace_def free need grown vec_resize_def b'_def add.commute del: writableBytes_inv)
    moreover have "buffer_inv b'"
      using inv bounds full by (auto simp: buffer_inv_def b'_def min_def)
    moreover have "content b' = content b"
      using inv by (auto simp: content_def region_def b'_def buffer_inv_def drop_take)
    moreover have "length (buf_data b') = writerIndex b + len" "writerIndex b' = writerIndex b"
      using inv full by (auto simp: b'_def buffer_inv_def min_def)
    ultimately show ?thesis
      by simp
  next
    case False
    define readable where "readable = writerIndex b - readerIndex b"
    have reader: "kCheapPrepend < readerIndex b"
      using False full inv by simp
    define b' where "b' = b\<lparr>buf_data := take kCheapPrepend (buf_data b) @ content b @
        drop (kCheapPrepend + readable) (buf_data b),
        readerIndex := kCheapPrepend, writerIndex := kCheapPrepend + readable\<rparr>"
    have copied: "copy_within (buf_data b) (readerIndex b) (writerIndex b) kCheapPrepend
        = Some (buf_data b')"
      using inv reader
      by (simp add: copy_within_down buffer_inv_def b'_def content_def region_def readable_def)
    have le: "kCheapPrepend + readable \<le> writerIndex b"
      using reader inv by (auto simp: readable_def buffer_inv_def)
    have len': "length (buf_data b') = length (buf_data b)"
      using inv le by (auto simp: b'_def buffer_inv_def readable_def)
    have inv': "buffer_inv b'"
      using inv le len' by (auto simp: buffer_inv_def b'_def)
    have cont: "content b' = content b"
    proof -
      have "length (content b) = readable"
        using inv by (simp add: readable_def)
      moreover have "min (length (buf_data b)) kCheapPrepend = kCheapPrepend"
        using inv by (simp add: buffer_inv_def)
      ultimately show ?thesis
        by (simp add: b'_def content_def [of "_\<lparr>buf_data := _, readerIndex := _, writerIndex := _\<rparr>"] region_def)
    qed
    have "size_add kCheapPrepend readable = kCheapPrepend + readable"
      using le inv_less_mod [OF inv] by (intro size_add_small) linarith
    moreover have "b\<lparr>buf_data := buf_data b', readerIndex := kCheapPrepend,
        writerIndex := kCheapPrepend + readable\<rparr> = b'"
      by (simp add: b'_def)
    moreover have "readableBytes b' = readable"
      using inv' by (simp add: b'_def)
    ultimately have "makeSpace b len = Some b'"
      using False reader inv
      by (simp add: makeSpace_def free need copied Let_def readable_def del: writableBytes_inv)
    moreover have "len \<le> writableBytes b'"
      using False inv inv' len' by (simp add: b'_def readable_def) (auto simp: buffer_inv_def)
    ultimately show ?thesis
      using inv' cont le by (auto simp: b'_def)
  qed
qed

lemma ensureWritableBytes_ok:
  assumes "buffer_inv b" and "len \<le> room b"
  shows "\<exists>b'. ensureWritableBytes b len = Some b' \<and> buffer_inv b' \<and> content b' = content b \<and>
    len \<le> writableBytes b' \<and> writerIndex b' \<le> writerIndex b"
proof (cases "writableBytes b < len")
  case True
  from makeSpace_ok [OF assms True] show ?thesis
    using True by (auto simp: ensureWritableBytes_def simp del: writableBytes_inv)
next
  case False
  then show ?thesis
    using assms by (auto simp: ensureWritableBytes_def simp del: writableBytes_inv)
qed

text \<open>Writing \<open>ds\<close> at the writer index and moving the index behind it.\<close>

lemma content_splice:
  assumes inv: "buffer_inv b" and fits: "writerIndex b + length ds \<le> length (buf_data b)"
    and b': "b' = b\<lparr>buf_data := take (writerIndex b) (buf_data b) @ ds @
      drop (writerIndex b + length ds) (buf_data b), writerIndex := writerIndex b + length ds\<rparr>"
  shows "buffer_inv b'" and "content b' = content b @ ds"
proof -
  show "buffer_inv b'"
    using inv fits by (auto simp: b' buffer_inv_def)
  have "writerIndex b + length ds - readerIndex b = writerIndex b - readerIndex b + length ds"
    using inv by (simp add: buffer_inv_def)
  moreover have "min (length (buf_data b) - readerIndex b) (writerIndex b - readerIndex b)
      = writerIndex b - readerIndex b"
    using inv by (auto simp: buffer_inv_def)
  ultimately show "content b' = content b @ ds"
    using inv by (simp add: b' content_def region_def buffer_inv_def drop_take)
qed

lemma append_raw_ok:
  assumes inv: "buffer_inv b" and room: "len \<le> room b" and len: "len \<le> length data"
  shows "\<exists>b'. append_raw b data len = Some b' \<and> buffer_inv b' \<and>
    content b' = content b @ take len data \<and> writerIndex b' \<le> writerIndex b + len"
proof -
  obtain b1 where b1: "ensureWritableBytes b len = Some b1" "buffer_inv b1" "content b1 = content b"
      "len \<le> writableBytes b1" "writerIndex b1 \<le> writerIndex b"
    using ensureWritableBytes_ok [OF inv room] by blast
  then have fits: "writerIndex b1 + len \<le> length (buf_data b1)"
    by (auto simp: buffer_inv_def dest: writableBytes_inv)
  let ?xs = "take (writerIndex b1) (buf_data b1) @ take len data @ drop (writerIndex b1 + len) (buf_data b1)"
  define b2 where "b2 = b1\<lparr>buf_data := ?xs\<rparr>"
  define b3 where "b3 = b2\<lparr>writerIndex := writerIndex b1 + len\<rparr>"
  have "copy_into (buf_data b1) (writerIndex b1) data len = Some ?xs"
    using fits len by (rule copy_into_eq [rotated])
  moreover have lenx: "length ?xs = length (buf_data b1)"
    using fits len by simp
  moreover have "buffer_inv b2"
    using b1(2) lenx by (simp add: b2_def buffer_inv_def)
  ultimately have "append_raw b data len = Some b3"
    using b1 fits size_add_inv [OF b1(2), of len]
    by (simp add: append_raw_def hasWritten_def flip: b2_def) (simp add: b2_def b3_def lenx)
  moreover have "buffer_inv b3" and "content b3 = content b1 @ take len data"
    using content_splice [OF b1(2), of "take len data" b3] fits len
    by (simp_all add: b2_def b3_def)
  ultimately show ?thesis
    using b1 by (auto simp: b3_def)
qed

lemma append_piece_ok:
  assumes "buffer_inv b" and "sp_wf str" and "length (sp_view str) \<le> room b"
  shows "\<exists>b'. append_piece b str = Some b' \<and> buffer_inv b' \<and> content b' = content b @ sp_view str"
  using append_raw_ok [OF assms(1), of "nat (sp_length str)" "sp_ptr str"] assms
  by (auto simp: append_piece_def sp_size_def sp_view_def sp_wf_def dest: length_sp_view)

lemma room_mono: "writerIndex b' \<le> max kCheapPrepend (writerIndex b + n) \<Longrightarrow> room b \<le> room b' + n"
  by (auto simp: room_def)

lemma prepend_ok:
  assumes inv: "buffer_inv b" and len: "len \<le> length data" and pre: "len \<le> prependableBytes b"
  shows "\<exists>b'. prepend b data len = Some b' \<and> buffer_inv b' \<and> content b' = take len data @ content b"
proof -
  have r: "size_sub (readerIndex b) len = readerIndex b - len"
    using pre inv_less_mod [OF inv] by (intro size_sub_le) (auto simp: prependableBytes_def)
  let ?r = "readerIndex b - len"
  let ?xs = "take ?r (buf_data b) @ take len data @ drop (readerIndex b) (buf_data b)"
  have le: "len \<le> readerIndex b" "readerIndex b \<le> length (buf_data b)"
    using pre inv by (auto simp: prependableBytes_def buffer_inv_def)
  have "copy_into (buf_data b) ?r data len = Some ?xs"
    using copy_into_eq [OF len, of ?r "buf_data b"] le by simp
  with pre have "prepend b data len = Some (b\<lparr>buf_data := ?xs, readerIndex := ?r\<rparr>)"
    by (simp add: prepend_def r Let_def)
  moreover have "buffer_inv (b\<lparr>buf_data := ?xs, readerIndex := ?r\<rparr>)"
    using inv le len by (auto simp: buffer_inv_def min_def)
  moreover have "content (b\<lparr>buf_data := ?xs, readerIndex := ?r\<rparr>) = take len data @ content b"
  proof -
    have "writerIndex b - ?r = len + (writerIndex b - readerIndex b)"
      using inv le by (auto simp: buffer_inv_def)
    then show ?thesis
      using le len by (simp add: content_def region_def min_absorb1 min_absorb2)
  qed
  ultimately show ?thesis
    by blast
qed

subsection \<open>Reading from a descriptor\<close>

text \<open>What \<open>readv(2)\<close> promises: never more bytes than the \<open>iovec\<close>s have room for.\<close>

definition readv_bounded :: "(nat list \<Rightarrow> io_result) \<Rightarrow> bool" where
  "readv_bounded readv \<longleftrightarrow> (\<forall>iov bs. readv iov = IO_Ok bs \<longrightarrow> length bs \<le> sum_list iov)"

definition readFd_iov :: "buffer \<Rightarrow> nat list" where
  "readFd_iov b = (let writable = writableBytes b
     in if writable < extrabuf_size then [writable, extrabuf_size] else [writable])"

lemma readFd_bound:
  assumes "buffer_inv b"
  shows "sum_list (readFd_iov b) \<le> max (writableBytes b) (2 * extrabuf_size - 1)"
  by (auto simp: readFd_iov_def Let_def)

lemma readFd_err: "readv (readFd_iov b) = IO_Err e \<Longrightarrow> readFd readv b = Some (- 1, Some e, b)"
  by (simp add: readFd_def readFd_iov_def Let_def)

lemma readFd_ok:
  assumes inv: "buffer_inv b" and rv: "readv (readFd_iov b) = IO_Ok bs"
    and bounded: "readv_bounded readv" and room: "length (buf_data b) + extrabuf_size \<le> VEC_MAX"
  shows "\<exists>b'. readFd readv b = Some (int (length bs), None, b') \<and> buffer_inv b' \<and>
    content b' = content b @ bs"
proof -
  define w where "w = writableBytes b"
  define k where "k = min w (length bs)"
  define b1 where "b1 = b\<lparr>buf_data := take (writerIndex b) (buf_data b) @ take k bs @
      drop (writerIndex b + k) (buf_data b)\<rparr>"
  have w: "w = length (buf_data b) - writerIndex b"
    using inv by (simp add: w_def)
  have fits: "writerIndex b + k \<le> length (buf_data b)"
    using inv by (auto simp: w k_def buffer_inv_def)
  have copied: "copy_into (buf_data b) (writerIndex b) bs k = Some (buf_data b1)"
    using fits by (simp add: copy_into_eq k_def b1_def)
  have len1: "length (buf_data b1) = length (buf_data b)"
    using fits by (simp add: b1_def k_def)
  have unfolded: "readFd readv b = (if length bs \<le> w
      then Some (int (length bs), None, b1\<lparr>writerIndex := size_add (writerIndex b) (length bs)\<rparr>)
      else (append_raw (b1\<lparr>writerIndex := length (buf_data b1)\<rparr>) (drop w bs) (size_sub (length bs) w) \<bind>
             (\<lambda>b'. Some (int (length bs), None, b'))))"
  proof -
    have "b\<lparr>buf_data := buf_data b1\<rparr> = b1"
      by (simp add: b1_def)
    with rv copied show ?thesis
      by (simp add: readFd_def readFd_iov_def Let_def k_def flip: w_def)
  qed
  have content1: "content (b1\<lparr>writerIndex := writerIndex b + k\<rparr>) = content b @ take k bs"
    and inv1: "buffer_inv (b1\<lparr>writerIndex := writerIndex b + k\<rparr>)"
    using content_splice [OF inv, of "take k bs" "b1\<lparr>writerIndex := writerIndex b + k\<rparr>"] fits
    by (simp_all add: b1_def k_def)
  show ?thesis
  proof (cases "length bs \<le> w")
    case True
    then have "k = length bs"
      by (simp add: k_def)
    with True w inv have "size_add (writerIndex b) (length bs) = writerIndex b + k"
      by simp
    with True \<open>k = length bs\<close> inv1 content1 show ?thesis
      by (simp add: unfolded)
  next
    case False
    then have k: "k = w"
      by (simp add: k_def)
    with w inv have full: "length (buf_data b1) = writerIndex b + k"
      using len1 by (simp add: buffer_inv_def)
    have "length bs \<le> sum_list (readFd_iov b)"
      using bounded rv by (simp add: readv_bounded_def)
    with False have le: "length bs \<le> w + extrabuf_size"
      by (auto simp: readFd_iov_def Let_def simp flip: w_def split: if_splits)
    have "w \<le> length (buf_data b)"
      by (simp add: w)
    then have "length bs < SIZE_MOD"
      using le room VEC_MAX_less by linarith
    then have mod: "size_sub (length bs) w = length bs - w"
      using False by (intro size_sub_le) simp_all
    have "length bs - w \<le> room (b1\<lparr>writerIndex := writerIndex b + k\<rparr>)"
      using le room full len1 inv by (auto simp: room_def buffer_inv_def extrabuf_size_def)
    then obtain b' where "append_raw (b1\<lparr>writerIndex := writerIndex b + k\<rparr>) (drop w bs) (length bs - w)
        = Some b'" and "buffer_inv b'"
      and "content b' = (content b @ take k bs) @ take (length bs - w) (drop w bs)"
      using append_raw_ok [OF inv1, of "length bs - w" "drop w bs"] content1 by auto
    with False show ?thesis
      by (simp add: unfolded mod full k)
  qed
qed

subsection \<open>Searching for line ends\<close>

lemma std_search_le: "std_search xs pat \<le> length xs"
  by (induction xs pat rule: std_search.induct) auto

lemma std_search_found:
  "std_search xs pat < length xs \<Longrightarrow> prefix pat (drop (std_search xs pat) xs)"
  by (induction xs pat rule: std_search.induct) auto

lemma std_search_first: "k < std_search xs pat \<Longrightarrow> \<not> prefix pat (drop k xs)"
proof (induction xs pat arbitrary: k rule: std_search.induct)
  case (1 pat)
  then show ?case by simp
next
  case (2 x xs pat)
  then show ?case
    by (cases k) (auto split: if_splits)
qed

lemma memchr_Some:
  "memchr xs c = Some k \<longleftrightarrow> k < length xs \<and> xs ! k = c \<and> (\<forall>j<k. xs ! j \<noteq> c)"
proof (induction xs arbitrary: k)
  case Nil
  then show ?case by simp
next
  case (Cons x xs)
  show ?case
    by (cases k) (auto simp: Cons.IH All_less_Suc2)
qed

lemma memchr_None: "memchr xs c = None \<longleftrightarrow> c \<notin> set xs"
  by (induction xs) auto

text \<open>\<open>findCRLF\<close> in terms of the readable bytes: the offset of the first line end, or \<open>NULL\<close>.\<close>

lemma findCRLF_search:
  assumes "buffer_inv b"
  shows "findCRLF b = (if std_search (content b) kCRLF = length (content b) then None
    else Some (readerIndex b + std_search (content b) kCRLF))"
  using assms
  by (auto simp: findCRLF_def Let_def simp flip: content_def) (simp_all add: buffer_inv_def)

lemma findCRLF_Some:
  assumes "buffer_inv b" and "findCRLF b = Some i"
  shows "readerIndex b \<le> i" and "i + 2 \<le> writerIndex b"
    and "content b = take (i - readerIndex b) (content b) @ kCRLF @ drop (i + 2 - readerIndex b) (content b)"
    and "k < i - readerIndex b \<Longrightarrow> \<not> prefix kCRLF (drop k (content b))"
proof -
  let ?s = "std_search (content b) kCRLF"
  have s: "?s < length (content b)" "i = readerIndex b + ?s"
    using assms std_search_le [of "content b" kCRLF] by (auto simp: findCRLF_search split: if_splits)
  have "prefix kCRLF (drop ?s (content b))"
    using s(1) by (rule std_search_found)
  then obtain zs where zs: "drop ?s (content b) = kCRLF @ zs"
    by (auto simp: prefix_def)
  then have "length (content b) - ?s = 2 + length zs"
    by (metis length_append length_drop kCRLF_def list.size(3,4) One_nat_def Suc_1 add_Suc_right add.right_neutral)
  with s assms(1) show "readerIndex b \<le> i" "i + 2 \<le> writerIndex b"
    by auto
  have "zs = drop 2 (drop ?s (content b))"
    using zs by (simp add: kCRLF_def)
  with zs s show "content b = take (i - readerIndex b) (content b) @ kCRLF @ drop (i + 2 - readerIndex b) (content b)"
    by (metis add.commute append_take_drop_id diff_add_inverse diff_add_assoc drop_drop le_add1)
  show "k < i - readerIndex b \<Longrightarrow> \<not> prefix kCRLF (drop k (content b))"
    using s by (simp add: std_search_first)
qed

lemma findCRLF_None:
  assumes "buffer_inv b" and "findCRLF b = None"
  shows "\<not> prefix kCRLF (drop k (content b))"
proof (cases "k < length (content b)")
  case True
  with assms show ?thesis
    by (auto simp: findCRLF_search std_search_first split: if_splits)
next
  case False
  then show ?thesis
    by (simp add: kCRLF_def)
qed

end
