(* ===== verification/BufferWire.thy ===== *)
theory BufferWire
  imports Buffer
begin

section \<open>Integers on the wire, shrinking, and the contract of a buffer\<close>

text \<open>
  The integer methods of \<open>net/buffer.h\<close> write and read network order on any host, so that a
  message of integers of mixed widths survives the trip between hosts of different byte order. Then
  \<open>shrink\<close>, and the locale \<open>byte_queue\<close>: what the clients of the class (\<open>TcpConnection\<close>, the
  sudoku server) rely on, interpreted for \<open>append\<close> and \<open>retrieveAsString\<close>.
\<close>

subsection \<open>Integers in network order\<close>

lemma append_be_ok:
  assumes "buffer_inv b" and "LENGTH('a) div 8 \<le> room b" and "n = LENGTH('a::len) div 8"
  shows "\<exists>b'. append_raw b (mem_bytes host (htobe host (x :: 'a word))) n = Some b' \<and> buffer_inv b' \<and>
    content b' = content b @ be_bytes x \<and> writerIndex b' \<le> writerIndex b + n"
  using append_raw_ok [OF assms(1), of n "be_bytes x"] assms(2,3) by (simp add: mem_bytes_htobe)

lemma prepend_be_ok:
  assumes "buffer_inv b" and "n \<le> prependableBytes b" and "n = LENGTH('a::len) div 8"
  shows "\<exists>b'. prepend b (mem_bytes host (htobe host (x :: 'a word))) n = Some b' \<and> buffer_inv b' \<and>
    content b' = be_bytes x @ content b"
  using prepend_ok [OF assms(1), of n "be_bytes x"] assms(2,3) by (simp add: mem_bytes_htobe)

lemma be_prefix:
  assumes "buffer_inv b" and "content b = be_bytes (x :: 'a::len word) @ rest" and "n = LENGTH('a) div 8"
  shows "n \<le> readableBytes b" and "peek_bytes b n = Some (be_bytes x)"
    and "\<exists>b'. retrieve b n = Some b' \<and> buffer_inv b' \<and> content b' = rest"
proof -
  have len: "n \<le> length (content b)"
    using assms(2,3) by simp
  then show "n \<le> readableBytes b"
    using assms(1) by simp
  from len assms show "peek_bytes b n = Some (be_bytes x)"
    using peek_bytes_inv [of b n] length_content [of b] by simp
  from retrieve_ok [OF assms(1) len] assms(2,3)
  show "\<exists>b'. retrieve b n = Some b' \<and> buffer_inv b' \<and> content b' = rest"
    by auto
qed

lemma betoh_be_bytes:
  assumes "8 dvd LENGTH('a)"
  shows "betoh host (mem_word host (be_bytes x)) = (x :: 'a::len word)"
  using assms by (simp add: betoh_mem_word of_be_bytes_be_bytes)

lemma readInt64_ok:
  assumes "buffer_inv b" and "content b = be_bytes x @ rest"
  shows "\<exists>b'. readInt64 host b = Some (x, b') \<and> buffer_inv b' \<and> content b' = rest"
proof -
  note p = be_prefix [OF assms, of 8, simplified]
  from p(3) obtain b' where "retrieve b 8 = Some b'" "buffer_inv b'" "content b' = rest"
    by blast
  with p(1,2) show ?thesis
    by (simp add: readInt64_def peekInt64_def retrieveInt64_def endian_defs betoh_be_bytes
        del: readableBytes_inv)
qed

lemma readInt32_ok:
  assumes "buffer_inv b" and "content b = be_bytes x @ rest"
  shows "\<exists>b'. readInt32 host b = Some (x, b') \<and> buffer_inv b' \<and> content b' = rest"
proof -
  note p = be_prefix [OF assms, of 4, simplified]
  from p(3) obtain b' where "retrieve b 4 = Some b'" "buffer_inv b'" "content b' = rest"
    by blast
  with p(1,2) show ?thesis
    by (simp add: readInt32_def peekInt32_def retrieveInt32_def endian_defs betoh_be_bytes
        del: readableBytes_inv)
qed

lemma readInt16_ok:
  assumes "buffer_inv b" and "content b = be_bytes x @ rest"
  shows "\<exists>b'. readInt16 host b = Some (x, b') \<and> buffer_inv b' \<and> content b' = rest"
proof -
  note p = be_prefix [OF assms, of 2, simplified]
  from p(3) obtain b' where "retrieve b 2 = Some b'" "buffer_inv b'" "content b' = rest"
    by blast
  with p(1,2) show ?thesis
    by (simp add: readInt16_def peekInt16_def retrieveInt16_def endian_defs betoh_be_bytes
        del: readableBytes_inv)
qed

lemma be_bytes_8: "be_bytes (x :: 8 word) = [x]"
  by (simp add: be_bytes_def le_bytes_def)

lemma readInt8_ok:
  assumes "buffer_inv b" and "content b = be_bytes x @ rest"
  shows "\<exists>b'. readInt8 b = Some (x, b') \<and> buffer_inv b' \<and> content b' = rest"
proof -
  note p = be_prefix [OF assms, of 1, simplified]
  from p(3) obtain b' where "retrieve b 1 = Some b'" "buffer_inv b'" "content b' = rest"
    by auto
  with p(1,2) show ?thesis
    by (simp add: readInt8_def peekInt8_def retrieveInt8_def be_bytes_8 del: readableBytes_inv)
qed

text \<open>A message is a sequence of such integers, each of its own width.\<close>

datatype wire_int = W64 "64 word" | W32 "32 word" | W16 "16 word" | W8 "8 word"

fun wire_bytes :: "wire_int \<Rightarrow> byte list" where
  "wire_bytes (W64 x) = be_bytes x"
| "wire_bytes (W32 x) = be_bytes x"
| "wire_bytes (W16 x) = be_bytes x"
| "wire_bytes (W8 x) = be_bytes x"

fun append_wire :: "endianness \<Rightarrow> buffer \<Rightarrow> wire_int \<Rightarrow> buffer option" where
  "append_wire host b (W64 x) = appendInt64 host b x"
| "append_wire host b (W32 x) = appendInt32 host b x"
| "append_wire host b (W16 x) = appendInt16 host b x"
| "append_wire host b (W8 x) = appendInt8 b x"

text \<open>Reading takes the width, not the value, from its last argument.\<close>

fun read_wire :: "endianness \<Rightarrow> buffer \<Rightarrow> wire_int \<Rightarrow> (wire_int \<times> buffer) option" where
  "read_wire host b (W64 _) = map_option (map_prod W64 id) (readInt64 host b)"
| "read_wire host b (W32 _) = map_option (map_prod W32 id) (readInt32 host b)"
| "read_wire host b (W16 _) = map_option (map_prod W16 id) (readInt16 host b)"
| "read_wire host b (W8 _) = map_option (map_prod W8 id) (readInt8 b)"

fun append_wires :: "endianness \<Rightarrow> buffer \<Rightarrow> wire_int list \<Rightarrow> buffer option" where
  "append_wires host b [] = Some b"
| "append_wires host b (x # xs) = do { b' \<leftarrow> append_wire host b x; append_wires host b' xs }"

fun read_wires :: "endianness \<Rightarrow> buffer \<Rightarrow> wire_int list \<Rightarrow> (wire_int list \<times> buffer) option" where
  "read_wires host b [] = Some ([], b)"
| "read_wires host b (x # xs) = do {
     (y, b1) \<leftarrow> read_wire host b x;
     (ys, b2) \<leftarrow> read_wires host b1 xs;
     Some (y # ys, b2)
   }"

lemma append_wire_ok:
  assumes "buffer_inv b" and "length (wire_bytes x) \<le> room b"
  shows "\<exists>b'. append_wire host b x = Some b' \<and> buffer_inv b' \<and> content b' = content b @ wire_bytes x \<and>
    room b \<le> room b' + length (wire_bytes x)"
proof -
  have "\<exists>b'. append_wire host b x = Some b' \<and> buffer_inv b' \<and> content b' = content b @ wire_bytes x \<and>
      writerIndex b' \<le> writerIndex b + length (wire_bytes x)"
  proof (cases x)
    case (W64 v)
    have "8 \<le> room b"
      using assms(2) by (simp add: W64)
    then have "\<exists>b'. append_raw b (mem_bytes host (htobe host v)) 8 = Some b' \<and> buffer_inv b' \<and>
        content b' = content b @ be_bytes v \<and> writerIndex b' \<le> writerIndex b + 8"
      by (intro append_be_ok assms(1)) simp_all
    then show ?thesis
      by (simp add: W64 appendInt64_def endian_defs)
  next
    case (W32 v)
    have "4 \<le> room b"
      using assms(2) by (simp add: W32)
    then have "\<exists>b'. append_raw b (mem_bytes host (htobe host v)) 4 = Some b' \<and> buffer_inv b' \<and>
        content b' = content b @ be_bytes v \<and> writerIndex b' \<le> writerIndex b + 4"
      by (intro append_be_ok assms(1)) simp_all
    then show ?thesis
      by (simp add: W32 appendInt32_def endian_defs)
  next
    case (W16 v)
    have "2 \<le> room b"
      using assms(2) by (simp add: W16)
    then have "\<exists>b'. append_raw b (mem_bytes host (htobe host v)) 2 = Some b' \<and> buffer_inv b' \<and>
        content b' = content b @ be_bytes v \<and> writerIndex b' \<le> writerIndex b + 2"
      by (intro append_be_ok assms(1)) simp_all
    then show ?thesis
      by (simp add: W16 appendInt16_def endian_defs)
  next
    case (W8 v)
    with assms show ?thesis
      using append_raw_ok [of b 1 "[v]"] by (simp add: appendInt8_def be_bytes_8)
  qed
  then obtain b' where b': "append_wire host b x = Some b'" "buffer_inv b'"
      "content b' = content b @ wire_bytes x" "writerIndex b' \<le> writerIndex b + length (wire_bytes x)"
    by blast
  from b'(4) have "room b \<le> room b' + length (wire_bytes x)"
    by (intro room_mono) simp
  with b' show ?thesis
    by blast
qed

lemma read_wire_ok:
  assumes "buffer_inv b" and "content b = wire_bytes x @ rest"
  shows "\<exists>b'. read_wire host b x = Some (x, b') \<and> buffer_inv b' \<and> content b' = rest"
proof (cases x)
  case (W64 v)
  with assms readInt64_ok [of b v rest host] show ?thesis by auto
next
  case (W32 v)
  with assms readInt32_ok [of b v rest host] show ?thesis by auto
next
  case (W16 v)
  with assms readInt16_ok [of b v rest host] show ?thesis by auto
next
  case (W8 v)
  with assms readInt8_ok [of b v rest] show ?thesis by auto
qed

lemma append_wires_ok:
  assumes "buffer_inv b" and "length (concat (map wire_bytes xs)) \<le> room b"
  shows "\<exists>b'. append_wires host b xs = Some b' \<and> buffer_inv b' \<and>
    content b' = content b @ concat (map wire_bytes xs)"
  using assms
proof (induction xs arbitrary: b)
  case Nil
  then show ?case by simp
next
  case (Cons x xs)
  then obtain b1 where b1: "append_wire host b x = Some b1" "buffer_inv b1"
      "content b1 = content b @ wire_bytes x" "room b \<le> room b1 + length (wire_bytes x)"
    using append_wire_ok [of b x host] by auto
  with Cons.prems Cons.IH [of b1] show ?case
    by auto
qed

lemma read_wires_ok:
  assumes "buffer_inv b" and "content b = concat (map wire_bytes xs) @ rest"
  shows "\<exists>b'. read_wires host b xs = Some (xs, b') \<and> buffer_inv b' \<and> content b' = rest"
  using assms
proof (induction xs arbitrary: b)
  case Nil
  then show ?case by simp
next
  case (Cons x xs)
  then obtain b1 where "read_wire host b x = Some (x, b1)" "buffer_inv b1"
      "content b1 = concat (map wire_bytes xs) @ rest"
    using read_wire_ok [of b x "concat (map wire_bytes xs) @ rest" host] by auto
  with Cons.IH [of b1] show ?case
    by auto
qed

subsection \<open>Shrinking\<close>

lemma append_raw_fits:
  assumes "buffer_inv b" and "len \<le> writableBytes b" and "append_raw b data len = Some b'"
  shows "length (buf_data b') = length (buf_data b)" and "writerIndex b' = writerIndex b + len"
proof -
  have "ensureWritableBytes b len = Some b"
    using assms(2) by (simp add: ensureWritableBytes_def del: writableBytes_inv)
  with assms show "length (buf_data b') = length (buf_data b)" and "writerIndex b' = writerIndex b + len"
    by (auto simp: append_raw_def hasWritten_def copy_into_def write_loop_eq bind_eq_Some_conv
        split: if_splits)
qed

lemma shrink_ok:
  assumes inv: "buffer_inv b" and small: "readableBytes b \<le> nat INT32_MAX"
    and res: "readableBytes b + reserve + kCheapPrepend \<le> VEC_MAX"
  shows "\<exists>b'. shrink b reserve = Some b' \<and> buffer_inv b' \<and> content b' = content b \<and>
    reserve \<le> writableBytes b'"
proof -
  let ?n = "size_add (readableBytes b) reserve"
  have n: "?n = readableBytes b + reserve"
    using res VEC_MAX_less by (intro size_add_small) linarith
  obtain o1 where o1: "Buffer_new kInitialSize = Some o1" "buffer_inv o1" "content o1 = []"
      "writerIndex o1 = kCheapPrepend"
    using Buffer_new_ok [of kInitialSize] by (auto simp: kInitialSize_def kCheapPrepend_def VEC_MAX_def)
  have "?n \<le> room o1"
    using res by (simp add: n room_def o1(4))
  then obtain o2 where o2: "ensureWritableBytes o1 ?n = Some o2" "buffer_inv o2" "content o2 = []"
      "?n \<le> writableBytes o2"
    using ensureWritableBytes_ok [OF o1(2), of ?n] o1(3) by metis
  define p where "p = toStringPiece b"
  have cast: "cast_int32 (int (readableBytes b)) = int (readableBytes b)"
    using small by (intro cast_int32_id) (simp_all add: int_limits del: readableBytes_inv)
  have p: "sp_ptr p = drop (readerIndex b) (buf_data b)" "sp_length p = int (readableBytes b)"
    by (simp_all add: p_def toStringPiece_def sp_make_def cast)
  have le: "readableBytes b \<le> length (sp_ptr p)"
    using inv by (auto simp: p buffer_inv_def)
  have wf: "sp_wf p"
    using small le by (simp add: sp_wf_def p(2) int_limits del: readableBytes_inv)
  have view: "sp_view p = content b"
    unfolding sp_view_def p nat_int using inv by (simp add: content_def region_def)
  have len: "size_of_int (sp_size p) = readableBytes b"
    using size_of_int_wf [OF wf] by (simp add: sp_size_def p(2) del: readableBytes_inv)
  have fits: "readableBytes b \<le> writableBytes o2"
    using o2(4) n by linarith
  have "readableBytes b + kCheapPrepend \<le> VEC_MAX" and "readableBytes b + writerIndex o2 \<le> VEC_MAX"
    using res fits o2(2) by (simp, auto simp: buffer_inv_def dest: writableBytes_inv)
  then have "length (sp_view p) \<le> room o2"
    using length_content_readable [OF inv] view by (auto simp: room_def max_def)
  then obtain o3 where o3: "append_piece o2 p = Some o3" "buffer_inv o3" "content o3 = content b"
    using append_piece_ok [OF o2(2) wf] o2(3) view by auto
  have "length (buf_data o3) = length (buf_data o2)" "writerIndex o3 = writerIndex o2 + readableBytes b"
    using append_raw_fits [OF o2(2) fits] o3(1) by (auto simp: append_piece_def len)
  then have "reserve \<le> writableBytes o3"
    using o2 o3(2) n by simp
  moreover have "shrink b reserve = Some o3"
    using o1(1) o2(1) o3(1) by (simp add: shrink_def swap_buffers_def p_def)
  ultimately show ?thesis
    using o3 by blast
qed

text \<open>
  \<open>toStringPiece\<close> casts the number of readable bytes to \<open>int\<close>; from \<open>2 ^ 31\<close> on it is negative, and
  the length that \<open>append\<close> gets is close to \<open>2 ^ 64\<close>.
\<close>

definition untouched :: "buffer \<Rightarrow> bool" where
  "untouched b \<longleftrightarrow> buffer_inv b \<and> readerIndex b = kCheapPrepend \<and> writerIndex b = kCheapPrepend"

lemma untouched_free:
  assumes "untouched b"
  shows "size_add (writableBytes b) (prependableBytes b) = length (buf_data b)"
  using assms inv_less_mod(1) [of b]
  by (simp add: prependableBytes_def untouched_def size_simps buffer_inv_def)

lemma ensureWritableBytes_untouched:
  assumes "untouched b" and "ensureWritableBytes b len = Some b'"
  shows "untouched b'"
proof (cases "b' = b")
  case False
  with assms obtain data where b': "b' = b\<lparr>buf_data := data\<rparr>"
    and data: "vec_resize (buf_data b) (size_add (writerIndex b) len) = Some data"
    and grows: "length (buf_data b) < size_add len kCheapPrepend"
    by (auto simp: ensureWritableBytes_def makeSpace_def untouched_free bind_eq_Some_conv Let_def
        split: if_splits simp del: writableBytes_inv) (auto simp: untouched_def)
  have "length data = size_add len kCheapPrepend"
    using length_vec_resize [OF data] assms(1) by (simp add: untouched_def size_add_def add.commute)
  moreover have "length data \<le> VEC_MAX"
    using data length_vec_resize [OF data] by (auto simp: vec_resize_def split: if_splits)
  ultimately show ?thesis
    using assms(1) grows by (simp add: b' untouched_def buffer_inv_def)
qed (use assms in simp)

lemma append_raw_huge:
  assumes fresh: "untouched b" and m: "0 < m" "m \<le> 2 ^ 31"
  shows "append_raw b data (SIZE_MOD - m) = None"
proof -
  let ?len = "SIZE_MOD - m"
  have inv: "buffer_inv b"
    using fresh by (simp add: untouched_def)
  have "length (buf_data b) \<le> 2 ^ 63"
    using inv by (simp add: buffer_inv_def VEC_MAX_def)
  moreover have "2 ^ 63 < ?len"
    using m by (simp add: SIZE_MOD_def)
  ultimately have small: "writableBytes b < ?len"
    using inv by simp
  note free = untouched_free [OF fresh]
  have "makeSpace b ?len = None"
  proof (cases "m \<le> kCheapPrepend")
    case True
    have "?len + kCheapPrepend = SIZE_MOD + (kCheapPrepend - m)"
      using True by (simp add: SIZE_MOD_def kCheapPrepend_def)
    then have "size_add ?len kCheapPrepend = kCheapPrepend - m"
      by (simp add: size_add_def) (simp add: SIZE_MOD_def kCheapPrepend_def)
    with fresh inv show ?thesis
      by (auto simp: makeSpace_def free untouched_def buffer_inv_def simp del: writableBytes_inv)
  next
    case False
    have "size_add kCheapPrepend ?len = ?len + kCheapPrepend" "size_add ?len kCheapPrepend = ?len + kCheapPrepend"
      using False m by (subst size_add_small; simp add: SIZE_MOD_def)+
    moreover have "VEC_MAX < ?len + kCheapPrepend"
      using m by (simp add: VEC_MAX_def SIZE_MOD_def)
    ultimately show ?thesis
      using fresh inv by (simp add: makeSpace_def free vec_resize_def untouched_def buffer_inv_def del: writableBytes_inv)
  qed
  then show ?thesis
    using small by (simp add: append_raw_def ensureWritableBytes_def del: writableBytes_inv)
qed

lemma shrink_large:
  assumes inv: "buffer_inv b" and large: "2 ^ 31 \<le> readableBytes b" "readableBytes b < 2 ^ 32"
  shows "shrink b reserve = None"
proof -
  obtain o1 where o1: "Buffer_new kInitialSize = Some o1" "untouched o1"
    using Buffer_new_ok [of kInitialSize]
    by (auto simp: kInitialSize_def kCheapPrepend_def VEC_MAX_def untouched_def)
  define m where "m = 2 ^ 32 - readableBytes b"
  have "cast_int32 (int (readableBytes b)) = - int m"
    using large by (subst cast_int32_wrap) (simp_all add: m_def del: readableBytes_inv)
  then have len: "size_of_int (sp_size (toStringPiece b)) = SIZE_MOD - m"
    using large by (simp add: toStringPiece_def sp_make_def sp_size_def size_of_int_neg m_def SIZE_MOD_def
        nat_diff_distrib del: readableBytes_inv)
  have "append_piece o2 (toStringPiece b) = None" if "untouched o2" for o2
    unfolding append_piece_def len using large that
    by (intro append_raw_huge) (simp_all add: m_def del: readableBytes_inv)
  then show ?thesis
    using o1 ensureWritableBytes_untouched [OF o1(2)]
    by (cases "ensureWritableBytes o1 (size_add (readableBytes b) reserve)")
      (auto simp: shrink_def simp del: readableBytes_inv)
qed

subsection \<open>The contract of a byte queue\<close>

text \<open>
  A client puts bytes in and gets bytes out. \<open>room\<close> is the number of bytes that can be put for
  sure. The laws are stated on the sequence of bytes held; from them the client learns that
  whatever the interleaving of its calls, the bytes come out in the order in which they went in.
\<close>

datatype queue_call = Put "byte list" | Get nat

fun run_calls :: "('b \<Rightarrow> byte list \<Rightarrow> 'b option) \<Rightarrow> ('b \<Rightarrow> nat \<Rightarrow> (byte list \<times> 'b) option) \<Rightarrow>
    'b \<Rightarrow> queue_call list \<Rightarrow> (byte list \<times> 'b) option" where
  "run_calls put get b [] = Some ([], b)"
| "run_calls put get b (Put ds # cs) = do { b' \<leftarrow> put b ds; run_calls put get b' cs }"
| "run_calls put get b (Get n # cs) = do {
     (xs, b') \<leftarrow> get b n;
     (ys, b'') \<leftarrow> run_calls put get b' cs;
     Some (xs @ ys, b'')
   }"

fun all_puts :: "queue_call list \<Rightarrow> byte list" where
  "all_puts [] = []"
| "all_puts (Put ds # cs) = ds @ all_puts cs"
| "all_puts (Get n # cs) = all_puts cs"

text \<open>No call gets more bytes than there are, starting with \<open>k\<close> of them.\<close>

fun feasible :: "nat \<Rightarrow> queue_call list \<Rightarrow> bool" where
  "feasible k [] = True"
| "feasible k (Put ds # cs) = feasible (k + length ds) cs"
| "feasible k (Get n # cs) = (n \<le> k \<and> feasible (k - n) cs)"

locale byte_queue =
  fixes invar :: "'b \<Rightarrow> bool"
    and held :: "'b \<Rightarrow> byte list"
    and space :: "'b \<Rightarrow> nat"
    and put :: "'b \<Rightarrow> byte list \<Rightarrow> 'b option"
    and get :: "'b \<Rightarrow> nat \<Rightarrow> (byte list \<times> 'b) option"
  assumes put_law: "invar b \<Longrightarrow> length ds \<le> space b \<Longrightarrow>
      \<exists>b'. put b ds = Some b' \<and> invar b' \<and> held b' = held b @ ds \<and> space b \<le> space b' + length ds"
    and get_law: "invar b \<Longrightarrow> n \<le> length (held b) \<Longrightarrow>
      \<exists>b'. get b n = Some (take n (held b), b') \<and> invar b' \<and> held b' = drop n (held b) \<and> space b \<le> space b'"
    and get_too_much: "invar b \<Longrightarrow> length (held b) < n \<Longrightarrow> get b n = None"
begin

lemma run_calls_fifo:
  assumes "invar b" and "length (all_puts cs) \<le> space b" and "feasible (length (held b)) cs"
  shows "\<exists>out b'. run_calls put get b cs = Some (out, b') \<and> invar b' \<and>
    held b @ all_puts cs = out @ held b'"
  using assms
proof (induction cs arbitrary: b rule: all_puts.induct)
  case 1
  then show ?case by simp
next
  case (2 ds cs)
  then obtain b1 where b1: "put b ds = Some b1" "invar b1" "held b1 = held b @ ds"
      "space b \<le> space b1 + length ds"
    using put_law [of b ds] by auto
  with 2 have "length (all_puts cs) \<le> space b1" "feasible (length (held b1)) cs"
    by auto
  with b1 "2.IH" [of b1] show ?case
    by auto
next
  case (3 n cs)
  then obtain b1 where b1: "get b n = Some (take n (held b), b1)" "invar b1" "held b1 = drop n (held b)"
      "space b \<le> space b1"
    using get_law [of b n] by auto
  with 3 have "length (all_puts cs) \<le> space b1" "feasible (length (held b1)) cs"
    by auto
  with b1 "3.IH" [of b1] obtain out b' where
    "run_calls put get b1 cs = Some (out, b')" "invar b'" "held b1 @ all_puts cs = out @ held b'"
    by auto
  with b1 show ?case
    by auto (metis append.assoc append_take_drop_id)
qed

lemma run_calls_infeasible:
  assumes "invar b" and "length (all_puts cs) \<le> space b" and "\<not> feasible (length (held b)) cs"
  shows "run_calls put get b cs = None"
  using assms
proof (induction cs arbitrary: b rule: all_puts.induct)
  case 1
  then show ?case by simp
next
  case (2 ds cs)
  then obtain b1 where "put b ds = Some b1" "invar b1" "held b1 = held b @ ds"
      "space b \<le> space b1 + length ds"
    using put_law [of b ds] by auto
  with 2 show ?case
    by auto
next
  case (3 n cs)
  show ?case
  proof (cases "n \<le> length (held b)")
    case True
    with 3 obtain b1 where "get b n = Some (take n (held b), b1)" "invar b1"
        "held b1 = drop n (held b)" "space b \<le> space b1"
      using get_law [of b n] by auto
    with 3 True show ?thesis
      by auto
  next
    case False
    with 3 show ?thesis
      by (simp add: get_too_much)
  qed
qed

end

definition append_bytes :: "buffer \<Rightarrow> byte list \<Rightarrow> buffer option" where
  "append_bytes b ds = append_raw b ds (length ds)"

lemma append_bytes_ok:
  assumes "buffer_inv b" and "length ds \<le> room b"
  shows "\<exists>b'. append_bytes b ds = Some b' \<and> buffer_inv b' \<and> content b' = content b @ ds \<and>
    room b \<le> room b' + length ds"
proof -
  obtain b' where b': "append_raw b ds (length ds) = Some b'" "buffer_inv b'" "content b' = content b @ ds"
      "writerIndex b' \<le> writerIndex b + length ds"
    using append_raw_ok [OF assms, of ds] by auto
  from b'(4) have "room b \<le> room b' + length ds"
    by (intro room_mono) simp
  with b' show ?thesis
    by (simp add: append_bytes_def)
qed

lemma retrieveAsString_room:
  assumes "buffer_inv b" and "n \<le> length (content b)"
  shows "\<exists>b'. retrieveAsString b n = Some (take n (content b), b') \<and> buffer_inv b' \<and>
    content b' = drop n (content b) \<and> room b \<le> room b'"
proof -
  obtain b' where b': "retrieve b n = Some b'" "buffer_inv b'" "content b' = drop n (content b)"
      "writerIndex b' \<le> max kCheapPrepend (writerIndex b)"
    using retrieve_ok [OF assms] by blast
  from b'(4) have "room b \<le> room b'"
    using room_mono [of b' b 0] by simp
  with b' assms show ?thesis
    by (auto simp: retrieveAsString_def)
qed

lemma retrieveAsString_over:
  "buffer_inv b \<Longrightarrow> length (content b) < n \<Longrightarrow> retrieveAsString b n = None"
  by (simp add: retrieveAsString_def)

interpretation buf: byte_queue buffer_inv content room append_bytes retrieveAsString
  by unfold_locales (auto intro: append_bytes_ok retrieveAsString_room retrieveAsString_over)

subsection \<open>Properties\<close>

definition sample_buffer :: buffer where
  "sample_buffer = \<lparr>buf_data = replicate 16 0, readerIndex = 8, writerIndex = 8\<rparr>"

lemma sample_buffer_facts:
  "buffer_inv sample_buffer" "content sample_buffer = []" "1000 \<le> room sample_buffer"
  "writableBytes sample_buffer = 8" "readableBytes sample_buffer = 0" "length (buf_data sample_buffer) = 16"
proof -
  show inv: "buffer_inv sample_buffer"
    by (simp add: sample_buffer_def buffer_inv_def kCheapPrepend_def VEC_MAX_def)
  show "content sample_buffer = []" "1000 \<le> room sample_buffer" "length (buf_data sample_buffer) = 16"
    by (simp_all add: sample_buffer_def content_def region_def room_def kCheapPrepend_def VEC_MAX_def)
  show "writableBytes sample_buffer = 8" "readableBytes sample_buffer = 0"
    using inv by (simp_all add: sample_buffer_def)
qed

text \<open>
  C1: A buffer is a FIFO queue of bytes. For every sequence of calls of \<open>append\<close> and
  \<open>retrieveAsString\<close>, whatever resizing and moving of data it causes: if no call asks for more bytes
  than are readable, every call returns and the bytes retrieved, followed by those left, are the
  bytes readable before followed by those appended, in that order; if some call asks for too many,
  the run aborts.
\<close>

theorem buffer_fifo:
  assumes "buffer_inv b" and "length (all_puts cs) \<le> room b"
  shows "if feasible (length (content b)) cs
    then \<exists>out b'. run_calls append_bytes retrieveAsString b cs = Some (out, b') \<and> buffer_inv b' \<and>
      content b @ all_puts cs = out @ content b'
    else run_calls append_bytes retrieveAsString b cs = None"
  using buf.run_calls_fifo [OF assms] buf.run_calls_infeasible [OF assms] by simp

theorem buffer_fifo_witness:
  "buffer_inv sample_buffer \<and> 4 \<le> room sample_buffer \<and>
   (\<exists>out b'. run_calls append_bytes retrieveAsString sample_buffer [Put [1, 2, 3], Get 2, Put [4]]
      = Some (out, b') \<and> buffer_inv b' \<and> [1, 2, 3, 4] = out @ content b')"
proof -
  have h: "length (all_puts [Put [1, 2, 3], Get 2, Put [4]]) \<le> room sample_buffer"
    using sample_buffer_facts(3) by simp
  show ?thesis
    using buffer_fifo [OF sample_buffer_facts(1) h] sample_buffer_facts by simp
qed

text \<open>
  C2: Integers survive the trip between hosts. Any sequence of integers of 8, 16, 32 and 64 bits,
  written by the \<open>appendInt\<close> methods on one host, is laid out big endian and read back unchanged by
  the \<open>readInt\<close> methods on another, whatever the byte orders of the two hosts are, and nothing is
  left over.
\<close>

theorem wire_roundtrip:
  assumes "buffer_inv b" and "content b = []" and "length (concat (map wire_bytes xs)) \<le> room b"
  shows "\<exists>b1 b2. append_wires sender b xs = Some b1 \<and> content b1 = concat (map wire_bytes xs) \<and>
    read_wires receiver b1 xs = Some (xs, b2) \<and> buffer_inv b2 \<and> content b2 = []"
proof -
  obtain b1 where b1: "append_wires sender b xs = Some b1" "buffer_inv b1"
      "content b1 = concat (map wire_bytes xs)"
    using append_wires_ok [OF assms(1,3), of sender] assms(2) by auto
  then show ?thesis
    using read_wires_ok [OF b1(2), of xs "[]" receiver] by auto
qed

theorem wire_roundtrip_witness:
  "\<exists>b1 b2. append_wires Little_Endian sample_buffer [W32 258, W8 7] = Some b1 \<and>
     read_wires Big_Endian b1 [W32 258, W8 7] = Some ([W32 258, W8 7], b2) \<and> content b2 = []"
proof -
  have h: "length (concat (map wire_bytes [W32 258, W8 7])) \<le> room sample_buffer"
    using sample_buffer_facts(3) by simp
  show ?thesis
    using wire_roundtrip [OF sample_buffer_facts(1,2) h, of Little_Endian Big_Endian] by blast
qed

text \<open>
  C3: \<open>readFd\<close> loses and reorders nothing. Given that \<open>readv\<close> delivers at most as many bytes as the
  \<open>iovec\<close>s hold, what it delivers is appended to the readable bytes in order, whether it fits the
  buffer or spills into the stack buffer, and its length is returned; on an error the buffer is
  unchanged, \<open>- 1\<close> is returned and \<open>errno\<close> is saved. One call asks for at most 128k-1 bytes unless
  the buffer alone has more room.
\<close>

theorem readFd_spec:
  assumes "buffer_inv b" and "readv_bounded readv" and "length (buf_data b) + extrabuf_size \<le> VEC_MAX"
  shows "(case readv (readFd_iov b) of
      IO_Err e \<Rightarrow> readFd readv b = Some (- 1, Some e, b)
    | IO_Ok bs \<Rightarrow> \<exists>b'. readFd readv b = Some (int (length bs), None, b') \<and> buffer_inv b' \<and>
        content b' = content b @ bs) \<and>
    sum_list (readFd_iov b) \<le> max (writableBytes b) (128 * 1024 - 1)"
  using readFd_err [of readv b] readFd_ok [OF assms(1) _ assms(2,3)] readFd_bound [OF assms(1)]
  by (auto simp: extrabuf_size_def split: io_result.split)

theorem readFd_spec_witness:
  "\<exists>b'. readFd (\<lambda>iov. IO_Ok (replicate (min 100 (sum_list iov)) 7)) sample_buffer = Some (100, None, b') \<and>
     content b' = replicate 100 7"
proof -
  let ?rv = "\<lambda>iov. IO_Ok (replicate (min 100 (sum_list iov)) 7)"
  have 1: "readv_bounded ?rv"
    by (simp add: readv_bounded_def)
  have 2: "length (buf_data sample_buffer) + extrabuf_size \<le> VEC_MAX"
    by (simp add: sample_buffer_facts extrabuf_size_def VEC_MAX_def)
  have 3: "min 100 (sum_list (readFd_iov sample_buffer)) = 100"
    by (simp add: readFd_iov_def sample_buffer_facts extrabuf_size_def)
  show ?thesis
    using readFd_spec [OF sample_buffer_facts(1) 1 2] unfolding 3 by (auto simp: sample_buffer_facts)
qed

text \<open>
  C4: \<open>findCRLF\<close> finds the first line end. When it returns a pointer, the two bytes there are CR LF,
  they lie inside the readable bytes, and no line end starts before it; when it returns \<open>NULL\<close>, the
  readable bytes contain no line end.
\<close>

theorem findCRLF_spec:
  assumes "buffer_inv b"
  shows "case findCRLF b of
      None \<Rightarrow> \<forall>k. \<not> prefix kCRLF (drop k (content b))
    | Some i \<Rightarrow> readerIndex b \<le> i \<and> i + 2 \<le> writerIndex b \<and>
        (\<exists>line rest. content b = line @ kCRLF @ rest \<and> length line = i - readerIndex b \<and>
          (\<forall>k < length line. \<not> prefix kCRLF (drop k (content b))))"
proof (cases "findCRLF b")
  case None
  then show ?thesis
    using findCRLF_None [OF assms None] by simp
next
  case (Some i)
  note f = findCRLF_Some [OF assms Some]
  let ?line = "take (i - readerIndex b) (content b)"
  have len: "length ?line = i - readerIndex b"
    using f(2) length_content [OF assms] by simp
  have "\<forall>k < length ?line. \<not> prefix kCRLF (drop k (content b))"
    unfolding len using f(4) by blast
  with f(3) len have "\<exists>line rest. content b = line @ kCRLF @ rest \<and> length line = i - readerIndex b \<and>
      (\<forall>k < length line. \<not> prefix kCRLF (drop k (content b)))"
    by blast
  with f(1,2) show ?thesis
    by (simp add: Some)
qed

theorem findCRLF_spec_witness:
  "let b = \<lparr>buf_data = replicate 8 0 @ [65, 13, 13, 10, 66], readerIndex = 8, writerIndex = 13\<rparr>
   in buffer_inv b \<and> findCRLF b = Some 10 \<and>
     (\<exists>line rest. content b = line @ kCRLF @ rest \<and> length line = 2)"
proof -
  define b where "b = \<lparr>buf_data = replicate 8 0 @ [65, 13, 13, 10, 66 :: byte],
    readerIndex = 8, writerIndex = 13\<rparr>"
  have inv: "buffer_inv b"
    by (simp add: b_def buffer_inv_def kCheapPrepend_def VEC_MAX_def)
  have found: "findCRLF b = Some 10"
    by (simp add: b_def findCRLF_def region_def kCRLF_def)
  have "readerIndex b = 8"
    by (simp add: b_def)
  with findCRLF_spec [OF inv] found inv show ?thesis
    unfolding Let_def b_def [symmetric] by auto
qed

text \<open>
  C5: \<open>shrink\<close> keeps the readable bytes and reserves what it is asked to, as long as there are at most
  \<open>INT_MAX\<close> of them.
\<close>

theorem shrink_spec:
  assumes "buffer_inv b" and "readableBytes b \<le> nat INT32_MAX"
    and "readableBytes b + reserve + kCheapPrepend \<le> VEC_MAX"
  shows "\<exists>b'. shrink b reserve = Some b' \<and> buffer_inv b' \<and> content b' = content b \<and>
    reserve \<le> writableBytes b'"
  using assms by (rule shrink_ok)

theorem shrink_spec_witness:
  "\<exists>b'. shrink sample_buffer 2000 = Some b' \<and> content b' = [] \<and> 2000 \<le> writableBytes b'"
proof -
  have 1: "readableBytes sample_buffer \<le> nat INT32_MAX"
    by (simp add: sample_buffer_facts)
  have 2: "readableBytes sample_buffer + 2000 + kCheapPrepend \<le> VEC_MAX"
    by (simp add: sample_buffer_facts kCheapPrepend_def VEC_MAX_def)
  show ?thesis
    using shrink_spec [OF sample_buffer_facts(1) 1 2] sample_buffer_facts(2) by auto
qed

text \<open>
  A flaw: \<open>shrink\<close> of a buffer with \<open>2 ^ 31\<close> to \<open>2 ^ 32 - 1\<close> readable bytes never returns normally:
  \<open>toStringPiece\<close> truncates the length to a negative \<open>int\<close>, and \<open>append\<close> takes it for a size close to
  \<open>2 ^ 64\<close>.
\<close>

theorem shrink_aborts_when_large:
  assumes "buffer_inv b" and "2 ^ 31 \<le> readableBytes b" and "readableBytes b < 2 ^ 32"
  shows "shrink b reserve = None"
  using assms by (rule shrink_large)

theorem shrink_aborts_when_large_witness:
  "shrink \<lparr>buf_data = replicate (2 ^ 31 + 8) 0, readerIndex = 8, writerIndex = 2 ^ 31 + 8\<rparr> 0 = None"
proof -
  let ?b = "\<lparr>buf_data = replicate (2 ^ 31 + 8) 0, readerIndex = 8, writerIndex = 2 ^ 31 + 8\<rparr>"
  have inv: "buffer_inv ?b"
    by (simp add: buffer_inv_def kCheapPrepend_def VEC_MAX_def)
  have 1: "2 ^ 31 \<le> readableBytes ?b" and 2: "readableBytes ?b < 2 ^ 32"
    using readableBytes_inv [OF inv] by simp_all
  show ?thesis
    by (rule shrink_aborts_when_large [OF inv 1 2])
qed

end
