(* ===== verification/Dates.thy ===== *)
theory Dates
  imports Prelude
begin

section \<open>Calendar dates: \<open>base/date.h\<close>, \<open>base/date.cc\<close>\<close>

text \<open>
  A \<open>Date\<close> is one \<open>int\<close>, the Julian day number. \<open>getJulianDayNumber\<close> and \<open>getYearMonthDay\<close> are
  the two conversions of \<open>date.cc\<close>, with every intermediate \<open>int\<close> checked for overflow.

  The specification is the Gregorian calendar itself, independent of the conversion formulas:
  \<open>leap\<close>, \<open>days_in_month\<close>, \<open>valid_date\<close> and the successor \<open>next_day\<close>. The lemmas show that the
  day number of the next day is the next number, and that the two conversions are inverse to each
  other on every valid date of the years \<open>-4799 .. 1400000\<close>; beyond, \<open>4 * a + 3\<close> in
  \<open>getYearMonthDay\<close> leaves the range of an \<open>int\<close>.
\<close>

subsection \<open>The code\<close>

record YearMonthDay =
  year :: int
  month :: int
  day :: int

definition kDaysPerWeek :: int where "kDaysPerWeek = 7"

text \<open>A sum of \<open>int\<close>s, evaluated from the left as C does, each partial sum in range.\<close>

fun sum32_from :: "int \<Rightarrow> int list \<Rightarrow> int option" where
  "sum32_from acc [] = Some acc"
| "sum32_from acc (t # ts) = do { s \<leftarrow> ck32 (acc + t); sum32_from s ts }"

definition getJulianDayNumber :: "int \<Rightarrow> int \<Rightarrow> int \<Rightarrow> int option" where
  "getJulianDayNumber yr mon dy = do {
     n \<leftarrow> ck32 (14 - mon);
     let a = cdiv n 12;
     y \<leftarrow> sum32_from yr [4800, - a];
     m \<leftarrow> sum32_from mon [12 * a, - 3];
     p \<leftarrow> ck32 (153 * m);
     q \<leftarrow> ck32 (p + 2);
     r \<leftarrow> ck32 (y * 365);
     sum32_from dy [cdiv q 5, r, cdiv y 4, - cdiv y 100, cdiv y 400, - 32045]
   }"

definition getYearMonthDay :: "int \<Rightarrow> YearMonthDay option" where
  "getYearMonthDay julianDayNumber = do {
     a \<leftarrow> ck32 (julianDayNumber + 32044);
     a4 \<leftarrow> ck32 (4 * a);
     a43 \<leftarrow> ck32 (a4 + 3);
     let b = cdiv a43 146097;
     bp \<leftarrow> ck32 (b * 146097);
     c \<leftarrow> ck32 (a - cdiv bp 4);
     c4 \<leftarrow> ck32 (4 * c);
     c43 \<leftarrow> ck32 (c4 + 3);
     let d = cdiv c43 1461;
     dp \<leftarrow> ck32 (1461 * d);
     e \<leftarrow> ck32 (c - cdiv dp 4);
     e5 \<leftarrow> ck32 (5 * e);
     e52 \<leftarrow> ck32 (e5 + 2);
     let m = cdiv e52 153;
     mp \<leftarrow> ck32 (153 * m);
     mp2 \<leftarrow> ck32 (mp + 2);
     dy \<leftarrow> sum32_from e [- cdiv mp2 5, 1];
     mon \<leftarrow> sum32_from m [3, - (12 * cdiv m 10)];
     bh \<leftarrow> ck32 (b * 100);
     yr \<leftarrow> sum32_from bh [d, - 4800, cdiv m 10];
     Some \<lparr>year = yr, month = mon, day = dy\<rparr>
   }"

definition kJulianDayOf1970_01_01 :: "int option" where
  "kJulianDayOf1970_01_01 = getJulianDayNumber 1970 1 1"

text \<open>The class: its only member is \<open>julianDayNumber_\<close>.\<close>

record Date =
  julianDayNumber :: int

definition Date_invalid :: Date where
  "Date_invalid = \<lparr>julianDayNumber = 0\<rparr>"

definition Date_of_ymd :: "int \<Rightarrow> int \<Rightarrow> int \<Rightarrow> Date option" where
  "Date_of_ymd y m d = do { n \<leftarrow> getJulianDayNumber y m d; Some \<lparr>julianDayNumber = n\<rparr> }"

definition Date_of_jdn :: "int \<Rightarrow> Date" where
  "Date_of_jdn n = \<lparr>julianDayNumber = n\<rparr>"

definition Date_swap :: "Date \<Rightarrow> Date \<Rightarrow> Date \<times> Date" where
  "Date_swap this that = (that, this)"

definition Date_valid :: "Date \<Rightarrow> bool" where
  "Date_valid d \<longleftrightarrow> julianDayNumber d > 0"

definition yearMonthDay :: "Date \<Rightarrow> YearMonthDay option" where
  "yearMonthDay d = getYearMonthDay (julianDayNumber d)"

definition Date_year :: "Date \<Rightarrow> int option" where
  "Date_year d = do { ymd \<leftarrow> yearMonthDay d; Some (year ymd) }"

definition Date_month :: "Date \<Rightarrow> int option" where
  "Date_month d = do { ymd \<leftarrow> yearMonthDay d; Some (month ymd) }"

definition Date_day :: "Date \<Rightarrow> int option" where
  "Date_day d = do { ymd \<leftarrow> yearMonthDay d; Some (day ymd) }"

definition weekDay :: "Date \<Rightarrow> int option" where
  "weekDay d = do { n \<leftarrow> ck32 (julianDayNumber d + 1); Some (cmod n kDaysPerWeek) }"

definition Date_less :: "Date \<Rightarrow> Date \<Rightarrow> bool" where
  "Date_less x y \<longleftrightarrow> julianDayNumber x < julianDayNumber y"

definition Date_eq :: "Date \<Rightarrow> Date \<Rightarrow> bool" where
  "Date_eq x y \<longleftrightarrow> julianDayNumber x = julianDayNumber y"

subsection \<open>The Gregorian calendar\<close>

definition leap :: "int \<Rightarrow> bool" where
  "leap y \<longleftrightarrow> (if y mod 100 = 0 then y mod 400 = 0 else y mod 4 = 0)"

definition days_in_month :: "int \<Rightarrow> int \<Rightarrow> int" where
  "days_in_month y m =
     (if m = 2 then (if leap y then 29 else 28)
      else if m = 4 \<or> m = 6 \<or> m = 9 \<or> m = 11 then 30 else 31)"

definition valid_date :: "YearMonthDay \<Rightarrow> bool" where
  "valid_date t \<longleftrightarrow> 1 \<le> month t \<and> month t \<le> 12 \<and> 1 \<le> day t
     \<and> day t \<le> days_in_month (year t) (month t)"

definition next_day :: "YearMonthDay \<Rightarrow> YearMonthDay" where
  "next_day t =
     (if day t < days_in_month (year t) (month t) then t\<lparr>day := day t + 1\<rparr>
      else if month t < 12 then t\<lparr>month := month t + 1, day := 1\<rparr>
      else \<lparr>year = year t + 1, month = 1, day = 1\<rparr>)"

definition kMinYear :: int where "kMinYear = - 4799"
definition kMaxYear :: int where "kMaxYear = 1400000"

definition in_years :: "YearMonthDay \<Rightarrow> bool" where
  "in_years t \<longleftrightarrow> kMinYear \<le> year t \<and> year t \<le> kMaxYear"

definition epoch_day :: YearMonthDay where
  "epoch_day = \<lparr>year = 1970, month = 1, day = 1\<rparr>"

definition first_day :: YearMonthDay where
  "first_day = \<lparr>year = - 4799, month = 1, day = 1\<rparr>"

text \<open>The March-based day number the formulas of \<open>date.cc\<close> compute, over unbounded integers.\<close>

definition march_year :: "YearMonthDay \<Rightarrow> int" where
  "march_year t = year t + 4800 - (if month t \<le> 2 then 1 else 0)"

definition march_month :: "YearMonthDay \<Rightarrow> int" where
  "march_month t = (if month t \<le> 2 then month t + 9 else month t - 3)"

definition day_of_year :: "YearMonthDay \<Rightarrow> int" where
  "day_of_year t = (153 * march_month t + 2) div 5 + day t - 1"

definition year_start :: "int \<Rightarrow> int" where
  "year_start y = y * 365 + y div 4 - y div 100 + y div 400"

definition day_number :: "YearMonthDay \<Rightarrow> int" where
  "day_number t = year_start (march_year t) + day_of_year t - 32044"

subsection \<open>The formulas without overflow\<close>

lemma month_cases:
  assumes "1 \<le> (m::int)" and "m \<le> 12"
  obtains "m = 1" | "m = 2" | "m = 3" | "m = 4" | "m = 5" | "m = 6"
    | "m = 7" | "m = 8" | "m = 9" | "m = 10" | "m = 11" | "m = 12"
proof -
  have "m = 1 \<or> m = 2 \<or> m = 3 \<or> m = 4 \<or> m = 5 \<or> m = 6 \<or> m = 7 \<or> m = 8 \<or> m = 9
      \<or> m = 10 \<or> m = 11 \<or> m = 12"
    using assms by arith
  then show thesis
    using that by blast
qed

lemma days_in_month_bounds: "28 \<le> days_in_month y m \<and> days_in_month y m \<le> 31"
  by (simp add: days_in_month_def)

lemma leap_shift: "leap (4800 + y) = leap y"
proof -
  have "(4800 + y) mod 100 = y mod 100" "(4800 + y) mod 400 = y mod 400" "(4800 + y) mod 4 = y mod 4"
    using mod_mult_self1 [of y 48 100] mod_mult_self1 [of y 12 400] mod_mult_self1 [of y 1200 4]
    by (simp_all add: add.commute)
  then show ?thesis
    by (simp add: leap_def)
qed

lemma day_of_year_bounds:
  assumes "valid_date t"
  shows "0 \<le> day_of_year t \<and> day_of_year t \<le> 365
    \<and> (day_of_year t = 365 \<longrightarrow> leap (march_year t + 1))"
proof -
  have "1 \<le> month t" "month t \<le> 12"
    using assms by (simp_all add: valid_date_def)
  then show ?thesis
    using assms
    by (cases rule: month_cases)
      (auto simp: valid_date_def days_in_month_def day_of_year_def march_month_def march_year_def
         leap_shift split: if_splits)
qed

lemma march_year_bounds:
  assumes "in_years t"
  shows "0 \<le> march_year t \<and> march_year t \<le> 1404800"
  using assms by (auto simp: in_years_def march_year_def kMinYear_def kMaxYear_def)

lemma getJulianDayNumber_eq:
  assumes "valid_date t" and "in_years t"
  shows "getJulianDayNumber (year t) (month t) (day t) = Some (day_number t)"
proof -
  have m: "1 \<le> month t" "month t \<le> 12" and d: "1 \<le> day t" "day t \<le> 31"
    using assms days_in_month_bounds [of "year t" "month t"] by (auto simp: valid_date_def)
  have y: "-4799 \<le> year t" "year t \<le> 1400000"
    using assms by (simp_all add: in_years_def kMinYear_def kMaxYear_def)
  let ?a = "if month t \<le> 2 then 1 else (0::int)"
  have a: "cdiv (14 - month t) 12 = ?a"
    using m by (cases rule: month_cases) (simp_all add: cdiv_def)
  have mm: "march_month t = month t + 12 * ?a - 3" "0 \<le> march_month t" "march_month t \<le> 11"
    using m by (auto simp: march_month_def)
  have yy: "march_year t = year t + 4800 - ?a" "0 \<le> march_year t" "march_year t \<le> 1404800"
    using march_year_bounds [OF assms(2)] by (auto simp: march_year_def)
  have q: "0 \<le> (153 * march_month t + 2) div 5" "(153 * march_month t + 2) div 5 \<le> 337"
    using mm by linarith+
  have "0 \<le> march_year t div 4" "march_year t div 4 \<le> 351200"
    "0 \<le> march_year t div 100" "march_year t div 100 \<le> 14048"
    "0 \<le> march_year t div 400" "march_year t div 400 \<le> 3512"
    using yy(2,3) by linarith+
  note b = this
  show ?thesis
    unfolding getJulianDayNumber_def
    using m d y mm(2,3) yy(2,3) q b
    by (simp add: a ck32_in int_limits Let_def mm(1) [symmetric] yy(1) [symmetric] cdiv_nonneg
        day_number_def year_start_def day_of_year_def)
qed

text \<open>
  A March-based year \<open>y\<close> with century \<open>y div 100\<close>: the start of the year in the two steps in which
  \<open>getYearMonthDay\<close> takes it apart.
\<close>

lemma centuries_div: "(B * 146097) div 4 = 36524 * B + B div (4::int)"
proof -
  have "(B * 146097) div 4 = (B + (36524 * B) * 4) div 4"
    by simp
  then show ?thesis
    unfolding div_mult_self1 by simp
qed

lemma years_div: "(1461 * D) div 4 = 365 * D + D div (4::int)"
proof -
  have "(1461 * D) div 4 = (D + (365 * D) * 4) div 4"
    by simp
  then show ?thesis
    unfolding div_mult_self1 by simp
qed

lemma year_start_century:
  "year_start y = (y div 100 * 146097) div 4 + (1461 * (y mod 100)) div 4"
proof -
  define B D where "B = y div 100" and "D = y mod 100"
  have y: "y = D + B * 100"
    by (simp add: B_def D_def)
  have "y div 4 = (D + (25 * B) * 4) div 4"
    using y by (simp add: mult.commute)
  then have q: "y div 4 = 25 * B + D div 4"
    unfolding div_mult_self1 by simp
  have r: "y div 400 = B div 4"
    using zdiv_zmult2_eq [of 4 y 100] by (simp add: B_def)
  show ?thesis
    unfolding year_start_def q r centuries_div years_div B_def [symmetric] D_def [symmetric]
    using y by simp
qed

lemma quarter: "4 * (x div 4) = x - x mod (4::int)"
  by (simp add: minus_mod_eq_mult_div)

lemma leap_mod_4: "leap y \<Longrightarrow> y mod 4 = 0"
  using mod_mod_cancel [of 4 400 y] by (auto simp: leap_def split: if_splits)

lemma leap_mod_400: "leap y \<Longrightarrow> y mod 100 = 0 \<Longrightarrow> y mod 400 = 0"
  by (simp add: leap_def)

lemma century_of_day:
  assumes "0 \<le> n" and "n \<le> 365" and "n = 365 \<longrightarrow> leap (y + 1)"
  shows "(4 * (year_start y + n) + 3) div 146097 = y div 100"
proof -
  define B D where "B = y div 100" and "D = y mod 100"
  have y: "y = D + B * 100" and D: "0 \<le> D" "D < 100"
    by (simp_all add: B_def D_def)
  have e: "4 * (year_start y + n) + 3 = 146097 * B - B mod 4 + 1461 * D - D mod 4 + 4 * n + 3"
    unfolding year_start_century [of y, folded B_def D_def] centuries_div years_div
    using quarter [of B] quarter [of D] by simp
  have r: "0 \<le> B mod 4" "B mod 4 < 4" "0 \<le> D mod 4"
    by simp_all
  have "1461 * D - D mod 4 + 4 * n + 3 - B mod 4 < 146097"
  proof (cases "n = 365 \<and> D = 99")
    case True
    then have "(100 * (B + 1)) mod 400 = 0"
      using assms(3) leap_mod_400 [of "y + 1"] y by (simp add: algebra_simps)
    then have "(B + 1) mod 4 = 0"
      using mult_mod_right [of 100 "B + 1" 4] by simp
    then have "B mod 4 = 3"
      by presburger
    with True show ?thesis by simp
  next
    case False
    then have "D \<le> 98 \<or> n \<le> 364"
      using assms D by auto
    moreover have "D = 99 \<Longrightarrow> D mod 4 = 3"
      by simp
    ultimately show ?thesis
      using assms(1,2) D r by (cases "D = 99") linarith+
  qed
  moreover have "D mod 4 \<le> D"
    using D by (intro zmod_le_nonneg_dividend)
  ultimately show ?thesis
    unfolding e B_def [symmetric] using assms(1) D r
    by (intro int_div_pos_eq [where r = "1461 * D - D mod 4 + 4 * n + 3 - B mod 4"]) linarith+
qed

lemma year_of_day:
  assumes "0 \<le> n" and "n \<le> 365" and "n = 365 \<longrightarrow> leap (y + 1)"
  shows "(4 * ((1461 * (y mod 100)) div 4 + n) + 3) div 1461 = y mod 100"
proof -
  define D where "D = y mod 100"
  have e: "4 * ((1461 * D) div 4 + n) + 3 = 1461 * D - D mod 4 + 4 * n + 3"
    unfolding years_div using quarter [of D] by simp
  have r: "0 \<le> D mod 4" "D mod 4 < 4"
    by simp_all
  have "4 * n + 3 - D mod 4 < 1461"
  proof (cases "n = 365")
    case True
    then have "(y + 1) mod 4 = 0"
      using assms(3) leap_mod_4 by simp
    moreover have "D mod 4 = y mod 4"
      unfolding D_def by (intro mod_mod_cancel) simp
    ultimately have "D mod 4 = 3"
      by presburger
    with True show ?thesis by simp
  next
    case False
    with assms(1,2) r show ?thesis by linarith
  qed
  then show ?thesis
    unfolding e D_def [symmetric] using assms(1) r
    by (intro int_div_pos_eq [where r = "4 * n + 3 - D mod 4"]) linarith+
qed

lemma month_of_day:
  assumes "valid_date t"
  shows "(5 * day_of_year t + 2) div 153 = march_month t"
proof -
  have "1 \<le> month t" "month t \<le> 12"
    using assms by (simp_all add: valid_date_def)
  then show ?thesis
    using assms
    by (cases rule: month_cases)
      (auto simp: valid_date_def days_in_month_def day_of_year_def march_month_def split: if_splits)
qed


lemma getYearMonthDay_eval:
  assumes a: "n + 32044 = a" "0 \<le> a" "a \<le> 530000000"
    and b: "(4 * a + 3) div 146097 = b" "0 \<le> b" "b \<le> 14500"
    and c: "a - (b * 146097) div 4 = c" "0 \<le> c" "c \<le> 40000"
    and d: "(4 * c + 3) div 1461 = d" "0 \<le> d" "d \<le> 100"
    and e: "c - (1461 * d) div 4 = e" "0 \<le> e" "e \<le> 366"
    and m: "(5 * e + 2) div 153 = m" "0 \<le> m" "m \<le> 12"
    and r: "(153 * m + 2) div 5 = r" "0 \<le> r" "r \<le> 400"
    and k: "m div 10 = k" "0 \<le> k" "k \<le> 1"
  shows "getYearMonthDay n =
    Some \<lparr>year = b * 100 + d - 4800 + k, month = m + 3 - 12 * k, day = e - r + 1\<rparr>"
proof -
  have p: "0 \<le> (b * 146097) div 4" "0 \<le> (1461 * d) div 4"
    using b(2) d(2) by simp_all
  have cd: "cdiv (4 * a + 3) 146097 = b" "cdiv (b * 146097) 4 = (b * 146097) div 4"
      "cdiv (4 * c + 3) 1461 = d" "cdiv (1461 * d) 4 = (1461 * d) div 4"
      "cdiv (5 * e + 2) 153 = m" "cdiv (153 * m + 2) 5 = r" "cdiv m 10 = k"
    using a(2) b c(2) d e(2) m r(1) k(1) by (simp_all add: cdiv_nonneg)
  have k1: "ck32 (n + 32044) = Some a" "ck32 (4 * a) = Some (4 * a)" "ck32 (4 * a + 3) = Some (4 * a + 3)"
    "ck32 (b * 146097) = Some (b * 146097)" "ck32 (a - (b * 146097) div 4) = Some c"
    "ck32 (b * 100) = Some (b * 100)" "ck32 (b * 100 + d) = Some (b * 100 + d)"
    unfolding a(1) c(1) using a(2,3) b(2,3) c(2,3) d(2,3) by (intro ck32_I; linarith)+
  have k2: "ck32 (4 * c) = Some (4 * c)" "ck32 (4 * c + 3) = Some (4 * c + 3)"
    "ck32 (1461 * d) = Some (1461 * d)" "ck32 (c - (1461 * d) div 4) = Some e"
    "ck32 (5 * e) = Some (5 * e)" "ck32 (5 * e + 2) = Some (5 * e + 2)"
    unfolding e(1) using c(2,3) d(2,3) e(2,3) by (intro ck32_I; linarith)+
  have k3: "ck32 (153 * m) = Some (153 * m)" "ck32 (153 * m + 2) = Some (153 * m + 2)"
    "ck32 (e + - r) = Some (e - r)" "ck32 (e - r + 1) = Some (e - r + 1)"
    "ck32 (m + 3) = Some (m + 3)" "ck32 (m + 3 + - (12 * k)) = Some (m + 3 - 12 * k)"
    "ck32 (b * 100 + d + - 4800) = Some (b * 100 + d - 4800)"
    "ck32 (b * 100 + d - 4800 + k) = Some (b * 100 + d - 4800 + k)"
    unfolding diff_conv_add_uminus
    using b(2,3) d(2,3) e(2,3) m(2,3) r(2,3) k(2,3) by (intro ck32_I; linarith)+
  show ?thesis
    unfolding getYearMonthDay_def
    by (simp only: k1 k2 k3 cd Let_def bind.bind_lunit sum32_from.simps)
qed

lemma getYearMonthDay_day_number:
  assumes "valid_date t" and "in_years t"
  shows "getYearMonthDay (day_number t) = Some t"
proof -
  let ?y = "march_year t" and ?n = "day_of_year t" and ?m = "march_month t"
  have n: "0 \<le> ?n" "?n \<le> 365" "?n = 365 \<longrightarrow> leap (?y + 1)"
    using day_of_year_bounds [OF assms(1)] by auto
  have y: "0 \<le> ?y" "?y \<le> 1404800"
    using march_year_bounds [OF assms(2)] by auto
  have B: "0 \<le> ?y div 100" "?y div 100 \<le> 14048" and D: "0 \<le> ?y mod 100" "?y mod 100 \<le> 99"
    using y by (simp, linarith, simp, simp)
  have s: "year_start ?y = (?y div 100 * 146097) div 4 + (1461 * (?y mod 100)) div 4"
    by (rule year_start_century)
  have cb: "0 \<le> (?y div 100 * 146097) div 4" "(?y div 100 * 146097) div 4 \<le> 513100000"
    and db: "0 \<le> (1461 * (?y mod 100)) div 4" "(1461 * (?y mod 100)) div 4 \<le> 36160"
    using B D by linarith+
  have m: "0 \<le> ?m" "?m \<le> 11" "cdiv ?m 10 = (if month t \<le> 2 then 1 else 0)"
      "?m + 3 - 12 * (if month t \<le> 2 then 1 else 0) = month t"
    and q: "0 \<le> (153 * ?m + 2) div 5" "(153 * ?m + 2) div 5 \<le> 337"
  proof -
    have "1 \<le> month t" "month t \<le> 12"
      using assms by (simp_all add: valid_date_def)
    then show "0 \<le> ?m" "?m \<le> 11" "cdiv ?m 10 = (if month t \<le> 2 then 1 else 0)"
      "?m + 3 - 12 * (if month t \<le> 2 then 1 else 0) = month t"
      "0 \<le> (153 * ?m + 2) div 5" "(153 * ?m + 2) div 5 \<le> 337"
      by (cases rule: month_cases; simp add: march_month_def cdiv_def)+
  qed
  have d: "?n - (153 * ?m + 2) div 5 + 1 = day t" and dd: "1 \<le> day t" "day t \<le> 31"
    using assms(1) days_in_month_bounds [of "year t" "month t"]
    by (auto simp: day_of_year_def valid_date_def)
  have yr: "(?y div 100) * 100 + ?y mod 100 - 4800 + (if month t \<le> 2 then 1 else 0) = year t"
    by (simp add: march_year_def)
  have c1: "(4 * (year_start ?y + ?n) + 3) div 146097 = ?y div 100"
    and c2: "(4 * ((1461 * (?y mod 100)) div 4 + ?n) + 3) div 1461 = ?y mod 100"
    using century_of_day [OF n] year_of_day [OF n] .
  define a where "a = year_start ?y + ?n"
  define B where "B = ?y div 100"
  define D where "D = ?y mod 100"
  have a: "day_number t + 32044 = a" "0 \<le> a" "a \<le> 513136525"
    unfolding a_def day_number_def using s cb db n(1,2) by linarith+
  have ac: "a - (B * 146097) div 4 = (1461 * D) div 4 + ?n"
    unfolding a_def B_def D_def using s by linarith
  note c1 = c1 [folded a_def B_def] and c2 = c2 [folded D_def]
  note bnd = B [folded B_def] D [folded D_def] cb [folded B_def] db [folded D_def]
  have "getYearMonthDay (day_number t) = Some \<lparr>year = B * 100 + D - 4800 + ?m div 10,
      month = ?m + 3 - 12 * (?m div 10), day = ?n - (153 * ?m + 2) div 5 + 1\<rparr>"
  proof (rule getYearMonthDay_eval)
    show "day_number t + 32044 = a" "0 \<le> a" "a \<le> 530000000"
      using a by simp_all
    show "(4 * a + 3) div 146097 = B" "0 \<le> B" "B \<le> 14500"
      using c1 bnd(1,2) by simp_all
    show "a - (B * 146097) div 4 = (1461 * D) div 4 + ?n" "0 \<le> (1461 * D) div 4 + ?n"
      "(1461 * D) div 4 + ?n \<le> 40000"
      using ac n(1,2) bnd(7,8) by simp_all
    show "(4 * ((1461 * D) div 4 + ?n) + 3) div 1461 = D" "0 \<le> D" "D \<le> 100"
      using c2 bnd(3,4) by simp_all
    show "(1461 * D) div 4 + ?n - (1461 * D) div 4 = ?n" "0 \<le> ?n" "?n \<le> 366"
      using n(1,2) by simp_all
    show "(5 * ?n + 2) div 153 = ?m"
      by (rule month_of_day [OF assms(1)])
    show "0 \<le> ?m" "?m \<le> 12" "0 \<le> (153 * ?m + 2) div 5" "(153 * ?m + 2) div 5 \<le> 400"
      "0 \<le> ?m div 10" "?m div 10 \<le> 1"
      using m(1,2) q by simp_all
  qed simp_all
  also have "?m div 10 = (if month t \<le> 2 then 1 else 0)"
    using m(1,3) by (simp add: cdiv_nonneg)
  finally show ?thesis
    unfolding m(4) d yr [folded B_def D_def] by simp
qed

subsection \<open>Consecutive days\<close>

lemma succ_div:
  assumes "0 < (k::int)"
  shows "(y + 1) div k = y div k + (if (y + 1) mod k = 0 then 1 else 0)"
proof (cases "(y + 1) mod k = 0")
  case True
  then have "(y + 1) div k * k = y + 1"
    using div_mult_mod_eq [of "y + 1" k] by simp
  then have "y = ((y + 1) div k - 1) * k + (k - 1)"
    by (simp add: algebra_simps)
  then have "y div k = (y + 1) div k - 1"
    using assms by (intro int_div_pos_eq [where r = "k - 1"]) (simp_all add: mult.commute)
  with True show ?thesis by simp
next
  case False
  then have "0 < (y + 1) mod k"
    using pos_mod_sign [OF assms, of "y + 1"] by linarith
  moreover have "y = k * ((y + 1) div k) + ((y + 1) mod k - 1)"
    using mult_div_mod_eq [of k "y + 1"] by linarith
  ultimately have "y div k = (y + 1) div k"
    using pos_mod_bound [OF assms, of "y + 1"]
    by (intro int_div_pos_eq [of y k "(y + 1) div k" "(y + 1) mod k - 1"]) linarith+
  with False show ?thesis by simp
qed

lemma year_start_succ: "year_start (y + 1) = year_start y + (if leap (y + 1) then 366 else 365)"
proof -
  define p q r where "p \<longleftrightarrow> (y + 1) mod 4 = 0" and "q \<longleftrightarrow> (y + 1) mod 100 = 0"
    and "r \<longleftrightarrow> (y + 1) mod 400 = 0"
  have s: "(y + 1) div 4 = y div 4 + (if p then 1 else 0)"
    "(y + 1) div 100 = y div 100 + (if q then 1 else 0)"
    "(y + 1) div 400 = y div 400 + (if r then 1 else 0)"
    unfolding p_def q_def r_def by (intro succ_div; simp)+
  have "r \<Longrightarrow> q" "q \<Longrightarrow> p"
    using mod_mod_cancel [of 100 400 "y + 1"] mod_mod_cancel [of 4 100 "y + 1"]
    unfolding p_def q_def r_def by (simp_all only:) simp_all
  then show ?thesis
    unfolding year_start_def leap_def s p_def [symmetric] q_def [symmetric] r_def [symmetric]
    by (cases p; cases q; cases r; simp)
qed

lemma valid_next_day: "valid_date t \<Longrightarrow> valid_date (next_day t)"
  using days_in_month_bounds [of "year t" "month t + 1"] days_in_month_bounds [of "year t + 1" 1]
  by (auto simp: valid_date_def next_day_def)

lemma next_day_cases:
  assumes "valid_date t"
  obtains (day) "day t < days_in_month (year t) (month t)" "next_day t = t\<lparr>day := day t + 1\<rparr>"
    | (month) "month t < 12" "day t = days_in_month (year t) (month t)"
        "next_day t = t\<lparr>month := month t + 1, day := 1\<rparr>"
    | (year) "month t = 12" "day t = 31" "next_day t = \<lparr>year = year t + 1, month = 1, day = 1\<rparr>"
proof -
  have v: "month t \<le> 12" "day t \<le> days_in_month (year t) (month t)"
    using assms by (simp_all add: valid_date_def)
  show thesis
  proof (cases "day t < days_in_month (year t) (month t)")
    case True
    then show thesis
      by (intro day) (simp_all add: next_day_def)
  next
    case False
    then have "day t = days_in_month (year t) (month t)"
      using v by simp
    then show thesis
      using month year v by (cases "month t < 12") (simp_all add: next_day_def days_in_month_def)
  qed
qed

lemma day_number_next_day:
  assumes "valid_date t"
  shows "day_number (next_day t) = day_number t + 1"
  using assms
proof (cases rule: next_day_cases)
  case day
  then show ?thesis
    by (simp add: day_number_def day_of_year_def march_year_def march_month_def)
next
  case month
  have "1 \<le> month t" "month t \<le> 12"
    using assms by (simp_all add: valid_date_def)
  moreover have "year_start (year t + 4800)
      = year_start (4799 + year t) + (if leap (year t) then 366 else 365)"
    using year_start_succ [of "year t + 4799"] leap_shift [of "year t"] by (simp add: add.commute)
  ultimately show ?thesis
    using month
    by (cases rule: month_cases)
      (simp_all add: day_number_def day_of_year_def march_year_def march_month_def
        days_in_month_def)
next
  case year
  then show ?thesis
    by (simp add: day_number_def day_of_year_def march_year_def march_month_def
        add.commute [of 4800])
qed

lemma days_later:
  assumes "valid_date t"
  shows "valid_date ((next_day ^^ k) t) \<and> day_number ((next_day ^^ k) t) = day_number t + int k"
proof (induction k)
  case 0
  then show ?case using assms by simp
next
  case (Suc k)
  then show ?case
    by (simp add: valid_next_day day_number_next_day)
qed

lemma valid_epoch_day: "valid_date epoch_day" "in_years epoch_day" "day_number epoch_day = 2440588"
  by (simp_all add: epoch_day_def valid_date_def days_in_month_def in_years_def kMinYear_def
      kMaxYear_def day_number_def year_start_def march_year_def day_of_year_def march_month_def)

lemma kJulianDayOf1970_01_01_eq: "kJulianDayOf1970_01_01 = Some 2440588"
  using getJulianDayNumber_eq [OF valid_epoch_day(1,2)] valid_epoch_day(3)
  by (simp add: kJulianDayOf1970_01_01_def epoch_day_def)

lemma day_number_bounds:
  assumes "valid_date t" and "in_years t"
  shows "- 32044 \<le> day_number t \<and> day_number t \<le> 513104481"
proof -
  have n: "0 \<le> day_of_year t" "day_of_year t \<le> 365"
    using day_of_year_bounds [OF assms(1)] by auto
  have y: "0 \<le> march_year t" "march_year t \<le> 1404800"
    using march_year_bounds [OF assms(2)] by auto
  then have "0 \<le> march_year t div 4" "march_year t div 4 \<le> 351200"
    "0 \<le> march_year t div 100" "march_year t div 100 \<le> march_year t"
    "0 \<le> march_year t div 400" "march_year t div 400 \<le> 3512"
    by linarith+
  with y have "0 \<le> year_start (march_year t)" "year_start (march_year t) \<le> 513095000"
    by (simp_all only: year_start_def)
  with n show ?thesis
    by (simp add: day_number_def)
qed

lemma year_next_day: "year t \<le> year (next_day t)"
  by (simp add: next_day_def)

lemma year_days_later: "year t \<le> year ((next_day ^^ k) t)"
  by (induction k) (auto intro: order_trans year_next_day)

lemma year_le_day_number:
  assumes "valid_date t" and "- 4799 \<le> year t"
  shows "365 * (year t + 4799) - 32044 \<le> day_number t"
proof -
  have "0 \<le> march_year t" "year t + 4799 \<le> march_year t"
    using assms by (simp_all add: march_year_def)
  moreover from this have "march_year t div 100 \<le> march_year t div 4" "0 \<le> march_year t div 400"
    by (simp_all add: zdiv_mono2)
  moreover have "0 \<le> day_of_year t"
    using day_of_year_bounds [OF assms(1)] by simp
  ultimately show ?thesis
    by (simp add: day_number_def year_start_def)
qed

lemma first_day: "valid_date first_day" "day_number first_day = - 31738"
  by (simp_all add: first_day_def valid_date_def days_in_month_def
      day_number_def year_start_def march_year_def day_of_year_def march_month_def)

text \<open>Every day number between -31738 and 500000000 is that of a date in the range of years.\<close>

lemma date_of_day_number:
  assumes "- 31738 \<le> n" and "n \<le> 500000000"
  obtains t where "valid_date t" and "in_years t" and "day_number t = n"
proof -
  let ?t = "(next_day ^^ nat (n + 31738)) first_day"
  have v: "valid_date ?t" "day_number ?t = n"
    using days_later [OF first_day(1), of "nat (n + 31738)"] assms first_day(2) by simp_all
  have l: "- 4799 \<le> year ?t"
    using year_days_later [of first_day "nat (n + 31738)"] by (simp add: first_day_def)
  then have "365 * (year ?t + 4799) - 32044 \<le> 500000000"
    using year_le_day_number [OF v(1) l] v(2) assms(2) by simp
  with l have "in_years ?t"
    by (simp add: in_years_def kMinYear_def kMaxYear_def)
  with v show thesis
    using that by blast
qed

subsection \<open>Properties\<close>

text \<open>
  C6: The two conversions of \<open>date.cc\<close> follow the Gregorian calendar and are inverse to each
  other. Starting from any valid date, the date \<open>k\<close> days later (by the leap year and month length
  rules) has a Julian day number that is larger by \<open>k\<close>, and \<open>getYearMonthDay\<close> of that number is that
  date; no intermediate value overflows for the years -4799 to 1400000.
\<close>

theorem calendar_days:
  assumes "valid_date t" and "in_years t" and "in_years ((next_day ^^ k) t)"
  shows "\<exists>j. getJulianDayNumber (year t) (month t) (day t) = Some j
    \<and> getYearMonthDay (j + int k) = Some ((next_day ^^ k) t)
    \<and> getJulianDayNumber (year ((next_day ^^ k) t)) (month ((next_day ^^ k) t))
         (day ((next_day ^^ k) t)) = Some (j + int k)"
  using assms days_later [OF assms(1), of k]
    getJulianDayNumber_eq [of t] getJulianDayNumber_eq [of "(next_day ^^ k) t"]
    getYearMonthDay_day_number [of "(next_day ^^ k) t"]
  by simp

lemma calendar_days_witness:
  "valid_date \<lparr>year = 2000, month = 2, day = 28\<rparr>
   \<and> (next_day ^^ 2) \<lparr>year = 2000, month = 2, day = 28\<rparr> = \<lparr>year = 2000, month = 3, day = 1\<rparr>
   \<and> (\<exists>j. getJulianDayNumber 2000 2 28 = Some j
        \<and> getYearMonthDay (j + 2) = Some \<lparr>year = 2000, month = 3, day = 1\<rparr>)"
proof -
  let ?t = "\<lparr>year = 2000, month = 2, day = 28\<rparr>"
  have v: "valid_date ?t" "in_years ?t"
    by (simp_all add: valid_date_def days_in_month_def leap_def in_years_def kMinYear_def kMaxYear_def)
  have n: "(next_day ^^ 2) ?t = \<lparr>year = 2000, month = 3, day = 1\<rparr>"
    by (simp add: numeral_2_eq_2 next_day_def days_in_month_def leap_def)
  have "in_years ((next_day ^^ 2) ?t)"
    unfolding n by (simp add: in_years_def kMinYear_def kMaxYear_def)
  from calendar_days [OF v this] n v show ?thesis
    by auto
qed

text \<open>
  Days of the week: the date \<open>k\<close> days after 1970-01-01, a Thursday, has the week day
  \<open>(4 + k) mod 7\<close>, counted from Sunday, and its \<open>Date\<close> is valid.
\<close>

theorem week_days:
  assumes "in_years ((next_day ^^ k) \<lparr>year = 1970, month = 1, day = 1\<rparr>)"
    (is "in_years ?t")
  shows "\<exists>d. Date_of_ymd (year ?t) (month ?t) (day ?t) = Some d \<and> Date_valid d
    \<and> yearMonthDay d = Some ?t \<and> weekDay d = Some ((4 + int k) mod 7)"
proof -
  have t: "valid_date ?t" "day_number ?t = 2440588 + int k"
    using days_later [OF valid_epoch_day(1), of k] valid_epoch_day(3) by (simp_all add: epoch_day_def)
  have "Date_of_ymd (year ?t) (month ?t) (day ?t) = Some \<lparr>julianDayNumber = 2440588 + int k\<rparr>"
    using getJulianDayNumber_eq [OF t(1) assms] t(2) by (simp add: Date_of_ymd_def)
  moreover have "(2440588 + int k + 1) mod 7 = (4 + int k) mod 7"
    using mod_mult_self1 [of "4 + int k" 348655 7] by (simp add: add.commute add.left_commute)
  moreover have "int k \<le> 510663893"
    using day_number_bounds [OF t(1) assms] t(2) by simp
  ultimately show ?thesis
    using getYearMonthDay_day_number [OF t(1) assms] t(2)
    by (simp add: Date_valid_def yearMonthDay_def weekDay_def kDaysPerWeek_def ck32_I cmod_nonneg)
qed

lemma week_days_witness:
  "in_years ((next_day ^^ 1) \<lparr>year = 1970, month = 1, day = 1\<rparr>)
   \<and> (\<exists>d. Date_of_ymd 1970 1 2 = Some d \<and> Date_valid d \<and> weekDay d = Some 5)"
proof -
  have n: "(next_day ^^ 1) \<lparr>year = 1970, month = 1, day = 1\<rparr> = \<lparr>year = 1970, month = 1, day = 2\<rparr>"
    by (simp add: next_day_def days_in_month_def)
  have "in_years ((next_day ^^ 1) \<lparr>year = 1970, month = 1, day = 1\<rparr>)"
    unfolding n by (simp add: in_years_def kMinYear_def kMaxYear_def)
  from week_days [OF this] this n show ?thesis
    by auto
qed

end
