(* ===== verification/TimeZone.thy ===== *)
theory TimeZone
  imports Dates Endian
begin

section \<open>Time zones: \<open>base/time_zone.h\<close>, \<open>base/time_zone.cc\<close>\<close>

text \<open>
  \<open>struct tm\<close> and the zone data as records, the conversions between seconds and broken-down time,
  the search of the transition table, and the reader of a zone file. A file is its bytes, \<open>None\<close>
  when \<open>fopen\<close> fails. \<open>gmtime_r\<close> and \<open>timegm\<close> of the C library are arguments of the two conversions
  that call them.

  The properties, in \<open>TimeZoneProps\<close>, are that \<open>toUtcTime\<close> and \<open>fromUtcTime\<close> are inverse to each other and follow the
  calendar of \<open>Dates\<close>, that \<open>findLocaltime\<close> selects the rule in force, that local time converts
  back to the same instant also in the repeated hour at the end of daylight saving time, and that
  the reader recovers the data of every well-formed zone file.
\<close>

subsection \<open>Data\<close>

record tm =
  tm_sec :: int
  tm_min :: int
  tm_hour :: int
  tm_mday :: int
  tm_mon :: int
  tm_year :: int
  tm_wday :: int
  tm_yday :: int
  tm_isdst :: int
  tm_gmtoff :: int
  tm_zone :: "byte list"

record Transition =
  gmttime :: int
  localtime :: int
  localtimeIdx :: nat

record Localtime =
  gmtOffset :: int
  isDst :: bool
  arrbIdx :: nat

record tz_data =
  transitions :: "Transition list"
  localtimes :: "Localtime list"
  names :: "byte list list"
  tz_abbreviation :: "byte list"

text \<open>\<open>Comp(gmt)\<close>: the order of transitions by universal or by local time.\<close>

definition Comp_less :: "bool \<Rightarrow> Transition \<Rightarrow> Transition \<Rightarrow> bool" where
  "Comp_less compareGmt lhs rhs \<longleftrightarrow>
     (if compareGmt then gmttime lhs < gmttime rhs else localtime lhs < localtime rhs)"

definition Comp_equal :: "bool \<Rightarrow> Transition \<Rightarrow> Transition \<Rightarrow> bool" where
  "Comp_equal compareGmt lhs rhs \<longleftrightarrow>
     (if compareGmt then gmttime lhs = gmttime rhs else localtime lhs = localtime rhs)"

definition tm_zero :: tm where
  "tm_zero = \<lparr>tm_sec = 0, tm_min = 0, tm_hour = 0, tm_mday = 0, tm_mon = 0, tm_year = 0, tm_wday = 0,
     tm_yday = 0, tm_isdst = 0, tm_gmtoff = 0, tm_zone = []\<rparr>"

definition fillHMS :: "nat \<Rightarrow> tm \<Rightarrow> tm" where
  "fillHMS seconds utc =
     (let minutes = seconds div 60
      in utc\<lparr>tm_sec := int (seconds mod 60), tm_min := int (minutes mod 60),
             tm_hour := int (minutes div 60)\<rparr>)"

definition kSecondsPerDay :: int where "kSecondsPerDay = 24 * 60 * 60"

definition GMT_name :: "byte list" where "GMT_name = [0x47, 0x4D, 0x54]"

subsection \<open>The reader of a zone file\<close>

text \<open>
  A read from the file returns (\<open>Fine\<close>), throws a \<open>logic_error\<close>, or is undefined (a variable
  length array of negative length).
\<close>

datatype 'a outcome = Undefined | Thrown string | Fine 'a

fun and_then :: "'a outcome \<Rightarrow> ('a \<Rightarrow> 'b outcome) \<Rightarrow> 'b outcome" where
  "and_then Undefined f = Undefined"
| "and_then (Thrown e) f = Thrown e"
| "and_then (Fine x) f = f x"

type_synonym 'a file_read = "byte list \<Rightarrow> ('a \<times> byte list) outcome"

definition readBytes :: "int \<Rightarrow> byte list file_read" where
  "readBytes n bs =
     (if n < 0 then Undefined
      else if length bs < nat n then Thrown ''no enough data''
      else Fine (take (nat n) bs, drop (nat n) bs))"

definition File_readInt32 :: "endianness \<Rightarrow> int file_read" where
  "File_readInt32 host bs =
     (if length bs < 4 then Thrown ''bad int32_t data''
      else Fine (sint (betoh host (mem_word host (take 4 bs) :: 32 word)), drop 4 bs))"

definition readUInt8 :: "nat file_read" where
  "readUInt8 bs =
     (case bs of [] \<Rightarrow> Thrown ''bad uint8_t data'' | b # bs' \<Rightarrow> Fine (unat b, bs'))"

text \<open>The loops \<open>for (i = 0; i < timecnt; ++i) v.push_back(read())\<close>.\<close>

fun read_times :: "'a file_read \<Rightarrow> nat \<Rightarrow> 'a list file_read" where
  "read_times rd 0 bs = Fine ([], bs)"
| "read_times rd (Suc n) bs =
     and_then (rd bs) (\<lambda>(x, bs1). and_then (read_times rd n bs1) (\<lambda>(xs, bs2). Fine (x # xs, bs2)))"

definition kTZif :: "byte list" where "kTZif = [0x54, 0x5A, 0x69, 0x66]"

text \<open>
  The part of the \<open>try\<close> block that does not touch the data: the header, the transition times and
  their indices. \<open>reserve\<close> of a negative count asks for more than \<open>max_size()\<close> and throws
  \<open>length_error\<close>, which is a \<open>logic_error\<close>.
\<close>

record tz_head =
  h_leapcnt :: int
  h_timecnt :: int
  h_typecnt :: int
  h_charcnt :: int
  h_trans :: "int list"
  h_localIdx :: "nat list"

definition read_head :: "endianness \<Rightarrow> tz_head file_read" where
  "read_head host bs0 =
     and_then (readBytes 4 bs0) (\<lambda>(head, bs1).
     if head \<noteq> kTZif then Thrown ''bad head'' else
     and_then (readBytes 1 bs1) (\<lambda>(version, bs2).
     and_then (readBytes 15 bs2) (\<lambda>(_, bs3).
     and_then (File_readInt32 host bs3) (\<lambda>(isgmtcnt, bs4).
     and_then (File_readInt32 host bs4) (\<lambda>(isstdcnt, bs5).
     and_then (File_readInt32 host bs5) (\<lambda>(leapcnt, bs6).
     and_then (File_readInt32 host bs6) (\<lambda>(timecnt, bs7).
     and_then (File_readInt32 host bs7) (\<lambda>(typecnt, bs8).
     and_then (File_readInt32 host bs8) (\<lambda>(charcnt, bs9).
     if timecnt < 0 then Thrown ''vector::reserve'' else
     and_then (read_times (File_readInt32 host) (nat timecnt) bs9) (\<lambda>(trans, bs10).
     and_then (read_times readUInt8 (nat timecnt) bs10) (\<lambda>(idx, bs11).
     Fine (\<lparr>h_leapcnt = leapcnt, h_timecnt = timecnt, h_typecnt = typecnt, h_charcnt = charcnt,
            h_trans = trans, h_localIdx = idx\<rparr>, bs11))))))))))))"

definition read_localtime :: "endianness \<Rightarrow> Localtime file_read" where
  "read_localtime host bs0 =
     and_then (File_readInt32 host bs0) (\<lambda>(gmtoff, bs1).
     and_then (readUInt8 bs1) (\<lambda>(isdst, bs2).
     and_then (readUInt8 bs2) (\<lambda>(abbrind, bs3).
     Fine (\<lparr>gmtOffset = gmtoff, isDst = (isdst \<noteq> 0), arrbIdx = abbrind\<rparr>, bs3))))"

text \<open>
  The rest of the block fills the data as it goes; when a read throws, what was filled before
  stays. The result is the data, with the error or the rest of the file.
\<close>

fun read_localtimes :: "endianness \<Rightarrow> nat \<Rightarrow> byte list \<Rightarrow> tz_data \<Rightarrow> tz_data \<times> byte list outcome" where
  "read_localtimes host 0 bs dat = (dat, Fine bs)"
| "read_localtimes host (Suc n) bs dat =
     (case read_localtime host bs of
        Fine (lt, bs') \<Rightarrow> read_localtimes host n bs' (dat\<lparr>localtimes := localtimes dat @ [lt]\<rparr>)
      | Thrown e \<Rightarrow> (dat, Thrown e)
      | Undefined \<Rightarrow> (dat, Undefined))"

fun push_transitions :: "int list \<Rightarrow> nat list \<Rightarrow> tz_data \<Rightarrow> tz_data option" where
  "push_transitions (t # ts) (i # ixs) dat =
     (if i < length (localtimes dat) then do {
        l \<leftarrow> ck64 (t + gmtOffset (localtimes dat ! i));
        push_transitions ts ixs (dat\<lparr>transitions :=
          transitions dat @ [\<lparr>gmttime = t, localtime = l, localtimeIdx = i\<rparr>]\<rparr>) }
      else None)"
| "push_transitions ts ixs dat = Some dat"

definition readTimeZoneFile :: "endianness \<Rightarrow> byte list option \<Rightarrow> tz_data \<Rightarrow> (bool \<times> tz_data) option" where
  "readTimeZoneFile host file dat =
     (case file of
        None \<Rightarrow> Some (True, dat)
      | Some bs0 \<Rightarrow>
         (case read_head host bs0 of
            Undefined \<Rightarrow> None
          | Thrown e \<Rightarrow> Some (True, dat)
          | Fine (h, bs1) \<Rightarrow>
             (case read_localtimes host (nat (h_typecnt h)) bs1 dat of
                (dat1, Undefined) \<Rightarrow> None
              | (dat1, Thrown e) \<Rightarrow> Some (True, dat1)
              | (dat1, Fine bs2) \<Rightarrow> do {
                  dat2 \<leftarrow> push_transitions (h_trans h) (h_localIdx h) dat1;
                  (case readBytes (h_charcnt h) bs2 of
                     Undefined \<Rightarrow> None
                   | Thrown e \<Rightarrow> Some (True, dat2)
                   | Fine (abbr, bs3) \<Rightarrow> Some (True, dat2\<lparr>tz_abbreviation := abbr\<rparr>))
                })))"

subsection \<open>Searching the transitions\<close>

text \<open>\<open>std::lower_bound\<close> as a bisection of the \<open>len\<close> elements from \<open>i\<close> on.\<close>

function lower_bound_loop :: "('a \<Rightarrow> 'a \<Rightarrow> bool) \<Rightarrow> 'a \<Rightarrow> 'a list \<Rightarrow> nat \<Rightarrow> nat \<Rightarrow> nat" where
  "lower_bound_loop lt v xs i len =
     (if len = 0 then i
      else let half = len div 2
           in if lt (xs ! (i + half)) v
              then lower_bound_loop lt v xs (Suc (i + half)) (len - half - 1)
              else lower_bound_loop lt v xs i half)"
  by pat_completeness auto
termination
  by (relation "measure (\<lambda>(_, _, _, _, len). len)") auto

declare lower_bound_loop.simps [simp del]

definition lower_bound :: "('a \<Rightarrow> 'a \<Rightarrow> bool) \<Rightarrow> 'a \<Rightarrow> 'a list \<Rightarrow> nat" where
  "lower_bound lt v xs = lower_bound_loop lt v xs 0 (length xs)"

definition localtime_at :: "tz_data \<Rightarrow> nat \<Rightarrow> Localtime option" where
  "localtime_at dat i = (if i < length (localtimes dat) then Some (localtimes dat ! i) else None)"

definition findLocaltime :: "tz_data \<Rightarrow> Transition \<Rightarrow> bool \<Rightarrow> Localtime option" where
  "findLocaltime dat sentry gmt =
     (let trs = transitions dat
      in if trs = [] \<or> Comp_less gmt sentry (hd trs) then localtime_at dat 0
         else let i = lower_bound (Comp_less gmt) sentry trs
              in if i \<noteq> length trs
                 then if \<not> Comp_equal gmt sentry (trs ! i)
                      then do { assert_that (i \<noteq> 0); localtime_at dat (localtimeIdx (trs ! (i - 1))) }
                      else localtime_at dat (localtimeIdx (trs ! i))
                 else localtime_at dat (localtimeIdx (last trs)))"

subsection \<open>The class\<close>

text \<open>\<open>data_\<close>: a shared pointer, null in a default-constructed zone.\<close>

type_synonym TimeZone = "tz_data option"

definition tz_data_new :: tz_data where
  "tz_data_new = \<lparr>transitions = [], localtimes = [], names = [], tz_abbreviation = []\<rparr>"

definition TimeZone_of_file :: "endianness \<Rightarrow> byte list option \<Rightarrow> TimeZone option" where
  "TimeZone_of_file host file = do {
     (ok, dat) \<leftarrow> readTimeZoneFile host file tz_data_new;
     Some (if \<not> ok then None else Some dat)
   }"

definition TimeZone_fixed :: "int \<Rightarrow> byte list \<Rightarrow> TimeZone" where
  "TimeZone_fixed eastOfUtc name =
     Some (tz_data_new\<lparr>localtimes := [\<lparr>gmtOffset = eastOfUtc, isDst = False, arrbIdx = 0\<rparr>],
                       tz_abbreviation := name\<rparr>)"

definition TimeZone_valid :: "TimeZone \<Rightarrow> bool" where
  "TimeZone_valid tz \<longleftrightarrow> tz \<noteq> None"

definition toLocalTime :: "(int \<Rightarrow> tm) \<Rightarrow> TimeZone \<Rightarrow> int \<Rightarrow> tm option" where
  "toLocalTime gmtime_r tz seconds = do {
     dat \<leftarrow> tz;
     local \<leftarrow> findLocaltime dat \<lparr>gmttime = seconds, localtime = 0, localtimeIdx = 0\<rparr> True;
     localSeconds \<leftarrow> ck64 (seconds + gmtOffset local);
     let localTime = gmtime_r localSeconds;
     assert_that (arrbIdx local \<le> length (tz_abbreviation dat));
     Some (localTime\<lparr>tm_isdst := (if isDst local then 1 else 0), tm_gmtoff := gmtOffset local,
       tm_zone := takeWhile (\<lambda>c. c \<noteq> 0) (drop (arrbIdx local) (tz_abbreviation dat))\<rparr>)
   }"

definition fromLocalTime :: "(int \<Rightarrow> tm) \<Rightarrow> (tm \<Rightarrow> int) \<Rightarrow> TimeZone \<Rightarrow> tm \<Rightarrow> int option" where
  "fromLocalTime gmtime_r timegm tz localTm = do {
     dat \<leftarrow> tz;
     let seconds = timegm localTm;
     local \<leftarrow> findLocaltime dat \<lparr>gmttime = 0, localtime = seconds, localtimeIdx = 0\<rparr> False;
     seconds' \<leftarrow>
       (if tm_isdst localTm \<noteq> 0 then do {
          s \<leftarrow> ck64 (seconds - gmtOffset local);
          tryTm \<leftarrow> toLocalTime gmtime_r tz s;
          if tm_isdst tryTm = 0 \<and> tm_hour tryTm = tm_hour localTm \<and> tm_min tryTm = tm_min localTm
          then ck64 (seconds - 3600) else Some seconds }
        else Some seconds);
     ck64 (seconds' - gmtOffset local)
   }"

definition toUtcTime :: "int \<Rightarrow> bool \<Rightarrow> tm option" where
  "toUtcTime secondsSinceEpoch yday = do {
     let utc = tm_zero\<lparr>tm_zone := GMT_name\<rparr>;
     let seconds0 = cast_int32 (cmod secondsSinceEpoch kSecondsPerDay);
     let days0 = cast_int32 (cdiv secondsSinceEpoch kSecondsPerDay);
     (seconds, days) \<leftarrow>
       (if seconds0 < 0 then do {
          s \<leftarrow> ck32 (seconds0 + kSecondsPerDay); d \<leftarrow> ck32 (days0 - 1); Some (s, d) }
        else Some (seconds0, days0));
     let utc = fillHMS (nat seconds) utc;
     base \<leftarrow> kJulianDayOf1970_01_01;
     jdn \<leftarrow> ck32 (days + base);
     let date = Date_of_jdn jdn;
     ymd \<leftarrow> yearMonthDay date;
     y \<leftarrow> ck32 (year ymd - 1900);
     m \<leftarrow> ck32 (month ymd - 1);
     wday \<leftarrow> weekDay date;
     let utc = utc\<lparr>tm_year := y, tm_mon := m, tm_mday := day ymd, tm_wday := wday\<rparr>;
     if yday then do {
       startOfYear \<leftarrow> Date_of_ymd (year ymd) 1 1;
       n \<leftarrow> ck32 (julianDayNumber date - julianDayNumber startOfYear);
       Some (utc\<lparr>tm_yday := n\<rparr>) }
     else Some utc
   }"

definition fromUtcTime_ymd :: "int \<Rightarrow> int \<Rightarrow> int \<Rightarrow> int \<Rightarrow> int \<Rightarrow> int \<Rightarrow> int option" where
  "fromUtcTime_ymd y m d hour minute seconds = do {
     date \<leftarrow> Date_of_ymd y m d;
     h \<leftarrow> ck32 (hour * 3600);
     mi \<leftarrow> ck32 (minute * 60);
     secondsInDay \<leftarrow> sum32_from h [mi, seconds];
     base \<leftarrow> kJulianDayOf1970_01_01;
     days \<leftarrow> ck32 (julianDayNumber date - base);
     p \<leftarrow> ck64 (days * kSecondsPerDay);
     ck64 (p + secondsInDay)
   }"

definition fromUtcTime :: "tm \<Rightarrow> int option" where
  "fromUtcTime utc = do {
     y \<leftarrow> ck32 (tm_year utc + 1900);
     m \<leftarrow> ck32 (tm_mon utc + 1);
     fromUtcTime_ymd y m (tm_mday utc) (tm_hour utc) (tm_min utc) (tm_sec utc)
   }"

end
