(* ===== verification/TimeZoneProps.thy ===== *)
theory TimeZoneProps
  imports TimeZone
begin

section \<open>Correctness of the time zone conversions\<close>

text \<open>
  Facts and properties about the definitions of \<open>TimeZone\<close>: universal time against the calendar,
  the rule in force, local time and back, and zone files.
\<close>

subsection \<open>Universal time\<close>

text \<open>The broken-down time of second \<open>r\<close> of the day \<open>t\<close>.\<close>

definition utc_tm :: "YearMonthDay \<Rightarrow> int \<Rightarrow> int \<Rightarrow> int \<Rightarrow> tm" where
  "utc_tm t r wday yday =
     \<lparr>tm_sec = r mod 60, tm_min = r div 60 mod 60, tm_hour = r div 3600, tm_mday = day t,
      tm_mon = month t - 1, tm_year = year t - 1900, tm_wday = wday, tm_yday = yday,
      tm_isdst = 0, tm_gmtoff = 0, tm_zone = GMT_name\<rparr>"

lemma fillHMS_eq:
  assumes "0 \<le> r"
  shows "fillHMS (nat r) u = u\<lparr>tm_sec := r mod 60, tm_min := r div 60 mod 60, tm_hour := r div 3600\<rparr>"
proof -
  have "int (nat r mod 60) = r mod 60" "int (nat r div 60 mod 60) = r div 60 mod 60"
    using assms by (simp_all add: zmod_int zdiv_int)
  moreover have "int (nat r div 60 div 60) = r div 3600"
    using assms zdiv_zmult2_eq [of 60 r 60] by (simp add: zdiv_int)
  ultimately show ?thesis
    by (simp add: fillHMS_def Let_def)
qed

lemma valid_ymd_bounds:
  assumes "valid_date t" and "in_years t"
  shows "- 4799 \<le> year t" "year t \<le> 1400000" "1 \<le> month t" "month t \<le> 12" "1 \<le> day t" "day t \<le> 31"
  using assms days_in_month_bounds [of "year t" "month t"]
  by (auto simp: valid_date_def in_years_def kMinYear_def kMaxYear_def)

lemma day_split:
  assumes "0 \<le> r" and "r < 86400"
  shows "(d * 86400 + r) mod 86400 = r" "(d * 86400 + r) div 86400 = (d::int)"
  using assms by simp_all

lemma start_of_year:
  "valid_date t \<Longrightarrow> in_years t \<Longrightarrow> valid_date \<lparr>year = year t, month = 1, day = 1\<rparr>
    \<and> in_years \<lparr>year = year t, month = 1, day = 1\<rparr>"
  by (simp add: valid_date_def days_in_month_def in_years_def)

lemma kSecondsPerDay_eq: "kSecondsPerDay = 86400"
  by (simp add: kSecondsPerDay_def)

lemma toUtcTime_eq:
  assumes t: "valid_date t" "in_years t" and r: "0 \<le> r" "r < 86400"
    and s: "s = (day_number t - 2440588) * 86400 + r"
  shows "toUtcTime s yd = Some (utc_tm t r (cmod (day_number t + 1) 7)
    (if yd then day_number t - day_number \<lparr>year = year t, month = 1, day = 1\<rparr> else 0))"
proof -
  let ?y0 = "\<lparr>year = year t, month = 1, day = 1\<rparr>"
  let ?d = "day_number t - 2440588"
  have n: "- 32044 \<le> day_number t" "day_number t \<le> 513104481"
    "- 32044 \<le> day_number ?y0" "day_number ?y0 \<le> 513104481"
    using day_number_bounds [OF t] day_number_bounds [of ?y0] start_of_year [OF t] by auto
  have fl: "(if cmod s 86400 < 0 then cmod s 86400 + 86400 else cmod s 86400) = r"
      "(if cmod s 86400 < 0 then cdiv s 86400 - 1 else cdiv s 86400) = ?d"
    using cmod_floor [of 86400 s] day_split [OF r, of ?d] unfolding s by simp_all
  have cst: "cast_int32 (cmod s 86400) = cmod s 86400" "cast_int32 (cdiv s 86400) = cdiv s 86400"
    using fl r n by (auto intro!: cast_int32_id simp: int_limits split: if_splits)
  have fx: "(if cmod s 86400 < 0 then do {
        s' \<leftarrow> ck32 (cmod s 86400 + 86400); d' \<leftarrow> ck32 (cdiv s 86400 - 1); Some (s', d') }
      else Some (cmod s 86400, cdiv s 86400)) = Some (r, ?d)"
    using fl r n by (auto simp: ck32_I split: if_splits)
  have jd: "Date_of_ymd (year t) 1 1 = Some \<lparr>julianDayNumber = day_number ?y0\<rparr>"
    using getJulianDayNumber_eq [of ?y0] start_of_year [OF t] by (simp add: Date_of_ymd_def)
  show ?thesis
    unfolding toUtcTime_def Let_def kSecondsPerDay_eq cst fx
    using valid_ymd_bounds [OF t] n
    by (simp add: kJulianDayOf1970_01_01_eq ck32_I Date_of_jdn_def yearMonthDay_def
        getYearMonthDay_day_number [OF t] weekDay_def kDaysPerWeek_def jd fillHMS_eq [OF r(1)]
        utc_tm_def tm_zero_def)
qed

lemma time_of_day:
  assumes "0 \<le> h" "h < 24" "0 \<le> mi" "mi < 60" "0 \<le> sc" "sc < 60"
    and "r = h * 3600 + mi * 60 + (sc::int)"
  shows "0 \<le> r" "r < 86400" "r mod 60 = sc" "r div 60 mod 60 = mi" "r div 3600 = h"
proof -
  have r: "r = 60 * (h * 60 + mi) + sc"
    using assms(7) by simp
  show "r mod 60 = sc"
    by (rule int_mod_pos_eq [OF r]) (use assms in auto)
  have d: "r div 60 = h * 60 + mi"
    by (rule int_div_pos_eq [OF r]) (use assms in auto)
  have m: "h * 60 + mi = 60 * h + mi"
    by simp
  show "r div 60 mod 60 = mi"
    unfolding d by (rule int_mod_pos_eq [OF m]) (use assms in auto)
  have "r div 60 div 60 = h"
    unfolding d by (rule int_div_pos_eq [OF m]) (use assms in auto)
  then show "r div 3600 = h"
    using zdiv_zmult2_eq [of 60 r 60] by simp
  show "0 \<le> r" "r < 86400"
    using assms by simp_all
qed

lemma fromUtcTime_ymd_eq:
  assumes "valid_date t" "in_years t" "0 \<le> h" "h < 24" "0 \<le> mi" "mi < 60" "0 \<le> sc" "sc < 60"
  shows "fromUtcTime_ymd (year t) (month t) (day t) h mi sc
    = Some ((day_number t - 2440588) * 86400 + (h * 3600 + mi * 60 + sc))"
  using day_number_bounds [OF assms(1,2)] assms(3-)
  by (simp add: fromUtcTime_ymd_def Date_of_ymd_def getJulianDayNumber_eq [OF assms(1,2)]
      kJulianDayOf1970_01_01_eq ck32_I ck64_I kSecondsPerDay_eq)

lemma fromUtcTime_utc_tm:
  assumes "valid_date t" "in_years t" "0 \<le> r" "r < 86400"
  shows "fromUtcTime (utc_tm t r w y) = Some ((day_number t - 2440588) * 86400 + r)"
proof -
  define h mi sc where "h = r div 3600" and "mi = r div 60 mod 60" and "sc = r mod 60"
  have "r div 60 = 60 * h + mi"
    using zdiv_zmult2_eq [of 60 r 60] by (simp add: h_def mi_def)
  then have r: "r = h * 3600 + mi * 60 + sc"
    using mult_div_mod_eq [of 60 r] by (simp add: sc_def)
  have b: "0 \<le> h" "h < 24" "0 \<le> mi" "mi < 60" "0 \<le> sc" "sc < 60"
    using assms(3,4) by (simp_all add: h_def mi_def sc_def)
  have "fromUtcTime (utc_tm t r w y) = fromUtcTime_ymd (year t) (month t) (day t) h mi sc"
    using valid_ymd_bounds [OF assms(1,2)]
    by (simp add: fromUtcTime_def utc_tm_def ck32_I h_def mi_def sc_def)
  also have "\<dots> = Some ((day_number t - 2440588) * 86400 + (h * 3600 + mi * 60 + sc))"
    by (rule fromUtcTime_ymd_eq [OF assms(1,2) b])
  finally show ?thesis
    unfolding r [symmetric] .
qed

text \<open>
  C7: \<open>toUtcTime\<close> and \<open>fromUtcTime\<close> are inverse to each other, and a day has 86400 seconds. For every
  valid calendar date of the years -4799 to 1400000 and every time of day, \<open>fromUtcTime\<close> gives the
  number of seconds since 1970-01-01 00:00:00 (86400 for each day counted by \<open>getJulianDayNumber\<close>),
  and \<open>toUtcTime\<close> of it returns the same year, month, day, hour, minute and second, with the day of
  the year counted from January 1 when it is asked for.
\<close>

theorem utc_of_calendar_time:
  assumes "valid_date t" and "in_years t"
    and "0 \<le> h" "h < 24" "0 \<le> mi" "mi < 60" "0 \<le> sc" "sc < 60"
  shows "\<exists>s j j0 u. getJulianDayNumber (year t) (month t) (day t) = Some j
    \<and> getJulianDayNumber (year t) 1 1 = Some j0
    \<and> s = (j - 2440588) * 86400 + h * 3600 + mi * 60 + sc
    \<and> fromUtcTime_ymd (year t) (month t) (day t) h mi sc = Some s
    \<and> toUtcTime s True = Some u \<and> fromUtcTime u = Some s
    \<and> tm_year u = year t - 1900 \<and> tm_mon u = month t - 1 \<and> tm_mday u = day t
    \<and> tm_hour u = h \<and> tm_min u = mi \<and> tm_sec u = sc \<and> tm_yday u = j - j0"
proof -
  define r where "r = h * 3600 + mi * 60 + sc"
  define s where "s = (day_number t - 2440588) * 86400 + r"
  let ?y0 = "\<lparr>year = year t, month = 1, day = 1\<rparr>"
  let ?u = "utc_tm t r (cmod (day_number t + 1) 7) (day_number t - day_number ?y0)"
  note tod = time_of_day [OF assms(3-8) r_def]
  have "toUtcTime s True = Some ?u"
    using toUtcTime_eq [OF assms(1,2) tod(1,2) s_def, of True] by simp
  moreover have "fromUtcTime_ymd (year t) (month t) (day t) h mi sc = Some s"
    using fromUtcTime_ymd_eq [OF assms] by (simp add: s_def r_def)
  moreover have "fromUtcTime ?u = Some s"
    using fromUtcTime_utc_tm [OF assms(1,2) tod(1,2)] by (simp add: s_def)
  moreover have "getJulianDayNumber (year t) (month t) (day t) = Some (day_number t)"
    "getJulianDayNumber (year t) 1 1 = Some (day_number ?y0)"
    using getJulianDayNumber_eq [OF assms(1,2)] getJulianDayNumber_eq [of ?y0]
      start_of_year [OF assms(1,2)] by simp_all
  moreover have "s = (day_number t - 2440588) * 86400 + h * 3600 + mi * 60 + sc"
    by (simp add: s_def r_def)
  moreover have "tm_year ?u = year t - 1900" "tm_mon ?u = month t - 1" "tm_mday ?u = day t"
    "tm_hour ?u = h" "tm_min ?u = mi" "tm_sec ?u = sc" "tm_yday ?u = day_number t - day_number ?y0"
    using tod(3-5) by (simp_all add: utc_tm_def)
  ultimately show ?thesis
    by blast
qed

lemma utc_of_calendar_time_witness:
  "valid_date \<lparr>year = 2000, month = 2, day = 29\<rparr> \<and> in_years \<lparr>year = 2000, month = 2, day = 29\<rparr>
   \<and> (\<exists>s u. fromUtcTime_ymd 2000 2 29 23 59 58 = Some s \<and> toUtcTime s True = Some u
        \<and> tm_mon u = 1 \<and> tm_mday u = 29 \<and> tm_sec u = 58)"
proof -
  have v: "valid_date \<lparr>year = 2000, month = 2, day = 29\<rparr>"
    "in_years \<lparr>year = 2000, month = 2, day = 29\<rparr>"
    by (simp_all add: valid_date_def days_in_month_def leap_def in_years_def kMinYear_def kMaxYear_def)
  from utc_of_calendar_time [OF v, of 23 59 58] v show ?thesis
    by auto
qed

lemma toUtcTime_total:
  assumes "- 213608966400 \<le> s" and "s \<le> 42989133283199"
  shows "\<exists>t r w y. toUtcTime s yd = Some (utc_tm t r w y) \<and> valid_date t \<and> in_years t
    \<and> 0 \<le> r \<and> r < 86400 \<and> s = (day_number t - 2440588) * 86400 + r"
proof -
  define r where "r = s mod 86400"
  have r: "0 \<le> r" "r < 86400"
    by (simp_all add: r_def)
  have "- 31738 \<le> s div 86400 + 2440588" "s div 86400 + 2440588 \<le> 500000000"
    using assms by linarith+
  then obtain t where t: "valid_date t" "in_years t" "day_number t = s div 86400 + 2440588"
    by (rule date_of_day_number)
  then have s: "s = (day_number t - 2440588) * 86400 + r"
    by (simp add: r_def)
  then show ?thesis
    using toUtcTime_eq [OF t(1,2) r s, of yd] t r by blast
qed

text \<open>
  C8: \<open>toUtcTime\<close> is total and exact on every time from the year -4799 to far beyond the year
  1300000: it returns a valid calendar date and a time of day from which \<open>fromUtcTime\<close> gives the
  same second back, also for times before 1970.
\<close>

theorem utc_roundtrip:
  assumes "- 213608966400 \<le> s" and "s \<le> 42989133283199"
  shows "\<exists>u. toUtcTime s yd = Some u \<and> fromUtcTime u = Some s
    \<and> valid_date \<lparr>year = tm_year u + 1900, month = tm_mon u + 1, day = tm_mday u\<rparr>
    \<and> 0 \<le> tm_hour u \<and> tm_hour u < 24 \<and> 0 \<le> tm_min u \<and> tm_min u < 60
    \<and> 0 \<le> tm_sec u \<and> tm_sec u < 60"
proof -
  from toUtcTime_total [OF assms, of yd] obtain t r w y
    where u: "toUtcTime s yd = Some (utc_tm t r w y)" and t: "valid_date t" "in_years t"
      and r: "0 \<le> r" "r < 86400" and s: "s = (day_number t - 2440588) * 86400 + r"
    by blast
  have "valid_date \<lparr>year = year t, month = month t, day = day t\<rparr>"
    using t(1) by (simp add: valid_date_def)
  moreover have "0 \<le> r div 3600" "r div 3600 < 24"
    using r by linarith+
  ultimately show ?thesis
    using u fromUtcTime_utc_tm [OF t r, of w y] s by (simp add: utc_tm_def)
qed

lemma utc_roundtrip_witness:
  "- 213608966400 \<le> (- 1 :: int) \<and> (\<exists>u. toUtcTime (- 1) False = Some u \<and> fromUtcTime u = Some (- 1))"
  using utc_roundtrip [of "- 1" False] by auto
subsection \<open>The rule in force\<close>

definition tr_key :: "bool \<Rightarrow> Transition \<Rightarrow> int" where
  "tr_key gmt tr = (if gmt then gmttime tr else localtime tr)"

text \<open>
  A table of \<open>n\<close> transitions divides time into \<open>n + 1\<close> eras; \<open>era\<close> counts the transitions that are
  not after \<open>x\<close>, and \<open>era_rule\<close> is the rule of an era.
\<close>

definition era :: "bool \<Rightarrow> int \<Rightarrow> Transition list \<Rightarrow> nat" where
  "era gmt x trs = length (takeWhile (\<lambda>tr. tr_key gmt tr \<le> x) trs)"

definition era_idx :: "tz_data \<Rightarrow> nat \<Rightarrow> nat" where
  "era_idx dat k = (if k = 0 then 0 else localtimeIdx (transitions dat ! (k - 1)))"

definition era_rule :: "tz_data \<Rightarrow> nat \<Rightarrow> Localtime" where
  "era_rule dat k = localtimes dat ! era_idx dat k"

definition ascending :: "bool \<Rightarrow> Transition list \<Rightarrow> bool" where
  "ascending gmt trs = sorted_wrt (\<lambda>a b. tr_key gmt a < tr_key gmt b) trs"

lemma lower_bound_loop_eq:
  assumes "\<And>j. j < k \<Longrightarrow> lt (xs ! j) v" and "\<And>j. k \<le> j \<Longrightarrow> j < length xs \<Longrightarrow> \<not> lt (xs ! j) v"
    and "i \<le> k" and "k \<le> i + len" and "i + len \<le> length xs"
  shows "lower_bound_loop lt v xs i len = k"
  using assms
proof (induction lt v xs i len rule: lower_bound_loop.induct)
  case (1 lt v xs i len)
  show ?case
  proof (cases "len = 0")
    case True
    then show ?thesis
      using "1.prems" by (simp add: lower_bound_loop.simps [of lt v xs i])
  next
    case False
    have "lt (xs ! (i + len div 2)) v \<longleftrightarrow> i + len div 2 < k"
      using "1.prems" False by (meson add_less_cancel_left div_less_dividend le_less_linear
          less_le_trans one_less_numeral_iff semiring_norm(76) zero_less_iff_neq_zero)
    then show ?thesis
      using "1.IH" "1.prems" False by (simp add: lower_bound_loop.simps [of lt v xs i] Let_def)
  qed
qed

lemma era_unique:
  assumes "k \<le> length trs" and "\<And>j. j < k \<Longrightarrow> tr_key gmt (trs ! j) \<le> x"
    and "k < length trs \<Longrightarrow> x < tr_key gmt (trs ! k)"
  shows "era gmt x trs = k"
proof -
  have "takeWhile (\<lambda>tr. tr_key gmt tr \<le> x) trs = take k trs"
    using assms by (intro takeWhile_eq_take_P_nth) (auto simp: not_le)
  then show ?thesis
    using assms(1) by (simp add: era_def)
qed

lemma era_bounds:
  shows era_le: "era gmt x trs \<le> length trs"
    and era_before: "j < era gmt x trs \<Longrightarrow> tr_key gmt (trs ! j) \<le> x"
    and era_after: "era gmt x trs < length trs \<Longrightarrow> x < tr_key gmt (trs ! era gmt x trs)"
proof -
  show "era gmt x trs \<le> length trs"
    by (simp add: era_def length_takeWhile_le)
  show "j < era gmt x trs \<Longrightarrow> tr_key gmt (trs ! j) \<le> x"
    unfolding era_def by (metis nth_mem set_takeWhileD takeWhile_nth)
  show "era gmt x trs < length trs \<Longrightarrow> x < tr_key gmt (trs ! era gmt x trs)"
    unfolding era_def using nth_length_takeWhile [of "\<lambda>tr. tr_key gmt tr \<le> x" trs] by simp
qed

lemma ascending_less:
  "ascending gmt trs \<Longrightarrow> i < j \<Longrightarrow> j < length trs \<Longrightarrow> tr_key gmt (trs ! i) < tr_key gmt (trs ! j)"
  by (simp add: ascending_def sorted_wrt_iff_nth_less)

lemma Comp_key:
  "Comp_less gmt a b \<longleftrightarrow> tr_key gmt a < tr_key gmt b" "Comp_equal gmt a b \<longleftrightarrow> tr_key gmt a = tr_key gmt b"
  by (simp_all add: Comp_less_def Comp_equal_def tr_key_def)

lemma lower_bound_era:
  fixes v :: Transition
  assumes "ascending gmt trs"
  defines "k \<equiv> era gmt (tr_key gmt v) trs"
  shows "lower_bound (Comp_less gmt) v trs =
    (if 0 < k \<and> tr_key gmt (trs ! (k - 1)) = tr_key gmt v then k - 1 else k)" (is "_ = ?m")
  unfolding lower_bound_def
proof (rule lower_bound_loop_eq)
  have k: "k \<le> length trs" "\<And>j. j < k \<Longrightarrow> tr_key gmt (trs ! j) \<le> tr_key gmt v"
    "k < length trs \<Longrightarrow> tr_key gmt v < tr_key gmt (trs ! k)"
    unfolding k_def by (rule era_bounds, assumption?)+
  show "?m \<le> 0 + length trs"
    using k(1) by auto
  fix j
  show "Comp_less gmt (trs ! j) v" if "j < ?m"
  proof (cases "0 < k \<and> tr_key gmt (trs ! (k - 1)) = tr_key gmt v")
    case True
    then show ?thesis
      using that k(1) ascending_less [OF assms(1), of j "k - 1"] by (simp add: Comp_key)
  next
    case False
    then have "j < k" "tr_key gmt (trs ! (k - 1)) \<noteq> tr_key gmt v"
      using that by auto
    then have "tr_key gmt (trs ! (k - 1)) < tr_key gmt v"
      using k(2) [of "k - 1"] by simp
    moreover have "j = k - 1 \<or> tr_key gmt (trs ! j) < tr_key gmt (trs ! (k - 1))"
      using \<open>j < k\<close> k(1) ascending_less [OF assms(1), of j "k - 1"] by linarith
    ultimately show ?thesis
      by (auto simp: Comp_key)
  qed
  show "\<not> Comp_less gmt (trs ! j) v" if "?m \<le> j" "j < length trs"
  proof (cases "j < k")
    case True
    then have "j = k - 1" "tr_key gmt (trs ! (k - 1)) = tr_key gmt v"
      using that by (auto split: if_splits)
    then show ?thesis
      by (simp add: Comp_key)
  next
    case False
    then have "tr_key gmt v < tr_key gmt (trs ! j)"
      using k(3) that ascending_less [OF assms(1), of k j] by (cases "j = k") auto
    then show ?thesis
      by (simp add: Comp_key)
  qed
qed simp_all

lemma findLocaltime_era:
  assumes "ascending gmt (transitions dat)"
  shows "findLocaltime dat v gmt = localtime_at dat (era_idx dat (era gmt (tr_key gmt v) (transitions dat)))"
proof -
  define trs where "trs = transitions dat"
  define k where "k = era gmt (tr_key gmt v) trs"
  have k: "k \<le> length trs" "\<And>j. j < k \<Longrightarrow> tr_key gmt (trs ! j) \<le> tr_key gmt v"
    "k < length trs \<Longrightarrow> tr_key gmt v < tr_key gmt (trs ! k)"
    unfolding k_def by (rule era_bounds, assumption?)+
  have lb: "lower_bound (Comp_less gmt) v trs =
    (if 0 < k \<and> tr_key gmt (trs ! (k - 1)) = tr_key gmt v then k - 1 else k)"
    unfolding k_def using assms by (intro lower_bound_era) (simp add: trs_def)
  show ?thesis
  proof (cases "k = 0")
    case True
    then have "trs = [] \<or> Comp_less gmt v (hd trs)"
      using k(3) by (cases trs) (auto simp: Comp_key)
    then show ?thesis
      using True by (simp add: findLocaltime_def trs_def [symmetric] k_def [symmetric] era_idx_def)
  next
    case False
    then have "trs \<noteq> []"
      using k(1) by auto
    moreover from this have "\<not> Comp_less gmt v (hd trs)"
      using False k(2) [of 0] by (simp add: Comp_key hd_conv_nth)
    moreover have "last trs = trs ! (k - 1)" if "k = length trs"
      using that \<open>trs \<noteq> []\<close> by (simp add: last_conv_nth)
    ultimately show ?thesis
      using False k(1,3)
      by (auto simp: findLocaltime_def trs_def [symmetric] k_def [symmetric] era_idx_def lb Let_def
          Comp_key)
  qed
qed

subsection \<open>Local time\<close>

text \<open>
  A zone whose clock goes forward by any amount, or back by one hour at the end of daylight saving
  time, with more than an hour between two transitions.
\<close>

definition zone_ok :: "tz_data \<Rightarrow> bool" where
  "zone_ok dat \<longleftrightarrow>
     localtimes dat \<noteq> []
     \<and> (\<forall>tr \<in> set (transitions dat). localtimeIdx tr < length (localtimes dat)
          \<and> localtime tr = gmttime tr + gmtOffset (localtimes dat ! localtimeIdx tr))
     \<and> (\<forall>lt \<in> set (localtimes dat). arrbIdx lt \<le> length (tz_abbreviation dat)
          \<and> \<bar>gmtOffset lt\<bar> \<le> 2 ^ 31)
     \<and> (\<forall>j < length (transitions dat) - 1.
          gmttime (transitions dat ! j) + 3600 < gmttime (transitions dat ! Suc j))
     \<and> (\<forall>j < length (transitions dat).
          gmtOffset (era_rule dat j) \<le> gmtOffset (era_rule dat (Suc j))
          \<or> (gmtOffset (era_rule dat j) = gmtOffset (era_rule dat (Suc j)) + 3600
             \<and> isDst (era_rule dat j) \<and> \<not> isDst (era_rule dat (Suc j))))"

lemma zone_ok_idx:
  assumes "zone_ok dat" and "k \<le> length (transitions dat)"
  shows "era_idx dat k < length (localtimes dat)"
  using assms by (cases k) (auto simp: zone_ok_def era_idx_def)

lemma zone_ok_rule:
  assumes "zone_ok dat" and "k \<le> length (transitions dat)"
  shows "localtime_at dat (era_idx dat k) = Some (era_rule dat k)"
    and "arrbIdx (era_rule dat k) \<le> length (tz_abbreviation dat)"
    and "\<bar>gmtOffset (era_rule dat k)\<bar> \<le> 2 ^ 31"
proof -
  have i: "era_idx dat k < length (localtimes dat)"
    by (rule zone_ok_idx [OF assms])
  then show "localtime_at dat (era_idx dat k) = Some (era_rule dat k)"
    by (simp add: localtime_at_def era_rule_def)
  have "era_rule dat k \<in> set (localtimes dat)"
    using i by (simp add: era_rule_def)
  then show "arrbIdx (era_rule dat k) \<le> length (tz_abbreviation dat)"
    "\<bar>gmtOffset (era_rule dat k)\<bar> \<le> 2 ^ 31"
    using assms(1) by (auto simp: zone_ok_def)
qed

lemma zone_ok_localtime:
  assumes "zone_ok dat" and "j < length (transitions dat)"
  shows "localtime (transitions dat ! j)
    = gmttime (transitions dat ! j) + gmtOffset (era_rule dat (Suc j))"
  using assms by (simp add: zone_ok_def era_rule_def era_idx_def)

lemma zone_ok_gap:
  "zone_ok dat \<Longrightarrow> Suc j < length (transitions dat) \<Longrightarrow>
    gmttime (transitions dat ! j) + 3600 < gmttime (transitions dat ! Suc j)"
  by (simp add: zone_ok_def)

lemma zone_ok_change:
  assumes "zone_ok dat" and "j < length (transitions dat)"
  obtains (forwards) "gmtOffset (era_rule dat j) \<le> gmtOffset (era_rule dat (Suc j))"
    | (backwards) "gmtOffset (era_rule dat j) = gmtOffset (era_rule dat (Suc j)) + 3600"
        "isDst (era_rule dat j)" "\<not> isDst (era_rule dat (Suc j))"
  using assms by (auto simp: zone_ok_def)

lemma ascending_Suc:
  assumes "\<And>j. Suc j < length trs \<Longrightarrow> tr_key gmt (trs ! j) < tr_key gmt (trs ! Suc j)"
  shows "ascending gmt trs"
proof -
  have "transp (\<lambda>a b. tr_key gmt a < tr_key gmt b)"
    by (auto intro: transpI)
  then show ?thesis
    using assms by (simp add: ascending_def sorted_wrt_iff_nth_Suc_transp)
qed

lemma zone_ok_ascending:
  assumes "zone_ok dat"
  shows "ascending gmt (transitions dat)"
proof (rule ascending_Suc)
  fix j
  assume j: "Suc j < length (transitions dat)"
  note g = zone_ok_gap [OF assms j] and l = zone_ok_localtime [OF assms]
  from assms j show "tr_key gmt (transitions dat ! j) < tr_key gmt (transitions dat ! Suc j)"
    using g l [of j] l [of "Suc j"] j
    by (cases rule: zone_ok_change [of dat "Suc j"]) (simp_all add: tr_key_def)
qed

text \<open>
  The era of a local time is that of the instant, except in the last hour of daylight saving time,
  whose local times come again: there it is the next one.
\<close>

lemma local_era:
  fixes s :: int
  assumes "zone_ok dat"
  defines "k \<equiv> era True s (transitions dat)"
  defines "L \<equiv> s + gmtOffset (era_rule dat k)"
  obtains (same) "era False L (transitions dat) = k"
    | (repeated) "era False L (transitions dat) = Suc k" "k < length (transitions dat)"
        "gmtOffset (era_rule dat k) = gmtOffset (era_rule dat (Suc k)) + 3600"
        "isDst (era_rule dat k)" "\<not> isDst (era_rule dat (Suc k))"
        "era True (s + 3600) (transitions dat) = Suc k"
proof -
  define T where "T = transitions dat"
  define off where "off j = gmtOffset (era_rule dat j)" for j
  have k: "k \<le> length T" "\<And>j. j < k \<Longrightarrow> gmttime (T ! j) \<le> s"
    "k < length T \<Longrightarrow> s < gmttime (T ! k)"
    using era_le [of True s T] era_before [of _ True s T] era_after [of True s T]
    unfolding k_def T_def by (auto simp: tr_key_def)
  have l: "localtime (T ! j) = gmttime (T ! j) + off (Suc j)" if "j < length T" for j
    using zone_ok_localtime [OF assms(1)] that by (simp add: T_def off_def)
  have asc: "ascending False T" "ascending True T"
    using zone_ok_ascending [OF assms(1)] by (simp_all add: T_def)
  have before: "localtime (T ! j) \<le> L" if "j < k" for j
  proof -
    have "localtime (T ! (k - 1)) \<le> L"
      using that k(1) k(2) [of "k - 1"] l [of "k - 1"] by (simp add: L_def off_def)
    moreover have "j = k - 1 \<or> localtime (T ! j) < localtime (T ! (k - 1))"
      using that k(1) ascending_less [OF asc(1), of j "k - 1"] unfolding tr_key_def if_False by linarith
    ultimately show ?thesis by auto
  qed
  show thesis
  proof (cases "k < length T \<longrightarrow> L < localtime (T ! k)")
    case True
    then have "era False L T = k"
      using before k(1) by (intro era_unique) (simp_all add: tr_key_def)
    then show thesis
      using same by (simp add: T_def)
  next
    case False
    then have kT: "k < length T" and Lk: "localtime (T ! k) \<le> L"
      by auto
    then have b: "off k = off (Suc k) + 3600" "isDst (era_rule dat k)" "\<not> isDst (era_rule dat (Suc k))"
      using zone_ok_change [OF assms(1), of k] l [OF kT] k(3)
      by (auto simp: T_def off_def L_def)
    have nxt: "L < localtime (T ! Suc k) \<and> s + 3600 < gmttime (T ! Suc k)" if "Suc k < length T"
    proof -
      have "gmttime (T ! k) + 3600 < gmttime (T ! Suc k)"
        using zone_ok_gap [OF assms(1)] that by (simp add: T_def)
      moreover have "off (Suc k) \<le> off (Suc (Suc k))"
        using zone_ok_change [OF assms(1), of "Suc k"] that b(3) by (auto simp: T_def off_def)
      ultimately show ?thesis
        using l [OF that] k(3) [OF kT] b(1) by (simp add: L_def off_def)
    qed
    have "era False L T = Suc k"
      using before Lk kT nxt by (intro era_unique) (auto simp: tr_key_def less_Suc_eq)
    moreover have "era True (s + 3600) T = Suc k"
    proof (rule era_unique)
      show "tr_key True (T ! j) \<le> s + 3600" if "j < Suc k" for j
        using that k(2) [of j] Lk l [OF kT] b(1)
        by (cases "j = k") (auto simp: tr_key_def L_def off_def)
    qed (use kT nxt in \<open>auto simp: tr_key_def\<close>)
    ultimately show thesis
      using repeated b kT by (simp add: T_def off_def)
  qed
qed

lemma toLocalTime_era:
  assumes "zone_ok dat" and "\<bar>s\<bar> \<le> 2 ^ 62"
  defines "lt \<equiv> era_rule dat (era True s (transitions dat))"
  shows "toLocalTime gmt (Some dat) s = Some ((gmt (s + gmtOffset lt))
    \<lparr>tm_isdst := (if isDst lt then 1 else 0), tm_gmtoff := gmtOffset lt,
     tm_zone := takeWhile (\<lambda>c. c \<noteq> 0) (drop (arrbIdx lt) (tz_abbreviation dat))\<rparr>)"
proof -
  note r = zone_ok_rule [OF assms(1) era_le [of True s "transitions dat"]]
  have "findLocaltime dat \<lparr>gmttime = s, localtime = 0, localtimeIdx = 0\<rparr> True = Some lt"
    using findLocaltime_era [OF zone_ok_ascending [OF assms(1)]] r(1) by (simp add: tr_key_def lt_def)
  moreover have "ck64 (s + gmtOffset lt) = Some (s + gmtOffset lt)"
    using assms(2) r(3) unfolding lt_def by (intro ck64_I) auto
  ultimately show ?thesis
    using r(2) by (simp add: toLocalTime_def Let_def lt_def)
qed

text \<open>What the code relies on of \<open>gmtime_r\<close> and \<open>timegm\<close>: the second inverts the first.\<close>

definition libc_time :: "(int \<Rightarrow> tm) \<Rightarrow> (tm \<Rightarrow> int) \<Rightarrow> int \<Rightarrow> int \<Rightarrow> bool" where
  "libc_time gmtime_r timegm lo hi \<longleftrightarrow>
     (\<forall>x d g z. lo \<le> x \<and> x \<le> hi \<longrightarrow>
        timegm ((gmtime_r x)\<lparr>tm_isdst := d, tm_gmtoff := g, tm_zone := z\<rparr>) = x)"

lemma filter_takeWhile_ascending:
  "sorted_wrt (\<lambda>a b. tr_key gmt a < tr_key gmt b) trs \<Longrightarrow>
    filter (\<lambda>tr. tr_key gmt tr \<le> x) trs = takeWhile (\<lambda>tr. tr_key gmt tr \<le> x) trs"
proof (induction trs)
  case (Cons tr trs)
  have "filter (\<lambda>tr. tr_key gmt tr \<le> x) trs = []" if "x < tr_key gmt tr"
    using Cons.prems that by (force simp: filter_empty_conv)
  with Cons show ?case
    by (auto simp: not_le)
qed simp

text \<open>
  C9: \<open>findLocaltime\<close> selects the rule in force. In a table of transitions in ascending order it
  returns the rule of the last transition that is not after the given time, and the first rule when
  there is none, by universal as well as by local time.
\<close>

theorem findLocaltime_in_force:
  assumes "sorted_wrt (\<lambda>a b. tr_key gmt a < tr_key gmt b) (transitions dat)"
    and "localtimes dat \<noteq> []"
    and "\<forall>tr \<in> set (transitions dat). localtimeIdx tr < length (localtimes dat)"
  shows "findLocaltime dat v gmt =
    Some (case filter (\<lambda>tr. tr_key gmt tr \<le> tr_key gmt v) (transitions dat) of
            [] \<Rightarrow> localtimes dat ! 0
          | past \<Rightarrow> localtimes dat ! localtimeIdx (last past))"
proof -
  let ?P = "\<lambda>tr. tr_key gmt tr \<le> tr_key gmt v" and ?T = "transitions dat"
  have past: "filter ?P ?T = takeWhile ?P ?T"
    using assms(1) by (rule filter_takeWhile_ascending)
  define k where "k = era gmt (tr_key gmt v) ?T"
  have tk: "takeWhile ?P ?T = take k ?T"
    unfolding k_def era_def by (rule takeWhile_eq_take)
  have k: "k \<le> length ?T"
    unfolding k_def by (rule era_le)
  have "findLocaltime dat v gmt = localtime_at dat (era_idx dat k)"
    using findLocaltime_era assms(1) by (simp add: ascending_def k_def)
  also have "\<dots> = Some (case take k ?T of [] \<Rightarrow> localtimes dat ! 0
      | past \<Rightarrow> localtimes dat ! localtimeIdx (last past))"
  proof (cases "k = 0")
    case True
    then show ?thesis
      using assms(2) by (simp add: localtime_at_def era_idx_def)
  next
    case False
    with k have "take k ?T \<noteq> []"
      by auto
    moreover from this False k have "last (take k ?T) = ?T ! (k - 1)" "?T ! (k - 1) \<in> set ?T"
      by (auto simp: last_conv_nth min_def)
    ultimately show ?thesis
      using False assms(3) by (auto simp: localtime_at_def era_idx_def split: list.split)
  qed
  finally show ?thesis
    unfolding past tk .
qed

text \<open>An example zone: standard time, one summer of daylight saving time, standard time.\<close>

definition sample_zone :: tz_data where
  "sample_zone =
     \<lparr>transitions = [\<lparr>gmttime = 100000, localtime = 107200, localtimeIdx = 1\<rparr>,
                     \<lparr>gmttime = 200000, localtime = 203600, localtimeIdx = 0\<rparr>],
      localtimes = [\<lparr>gmtOffset = 3600, isDst = False, arrbIdx = 0\<rparr>,
                    \<lparr>gmtOffset = 7200, isDst = True, arrbIdx = 4\<rparr>],
      names = [], tz_abbreviation = [0x43, 0x45, 0x54, 0, 0x43, 0x45, 0x53, 0x54, 0]\<rparr>"

lemma findLocaltime_in_force_witness:
  "sorted_wrt (\<lambda>a b. tr_key True a < tr_key True b) (transitions sample_zone)
   \<and> findLocaltime sample_zone \<lparr>gmttime = 150000, localtime = 0, localtimeIdx = 0\<rparr> True
     = Some \<lparr>gmtOffset = 7200, isDst = True, arrbIdx = 4\<rparr>"
proof -
  have "sorted_wrt (\<lambda>a b. tr_key True a < tr_key True b) (transitions sample_zone)"
    "localtimes sample_zone \<noteq> []"
    "\<forall>tr \<in> set (transitions sample_zone). localtimeIdx tr < length (localtimes sample_zone)"
    by (simp_all add: sample_zone_def tr_key_def)
  from findLocaltime_in_force [OF this, of "\<lparr>gmttime = 150000, localtime = 0, localtimeIdx = 0\<rparr>"] this(1)
  show ?thesis
    by (simp add: sample_zone_def tr_key_def)
qed

text \<open>
  C10: Local time converts back to the instant it came from. In a zone whose clock goes forward by
  any amount or back by one hour at the end of daylight saving time, \<open>fromLocalTime\<close> of
  \<open>toLocalTime\<close> of \<open>s\<close> is \<open>s\<close>: also in the hour whose local times occur twice, where the daylight
  saving flag and the correction by 3600 seconds decide.
\<close>

theorem local_time_roundtrip:
  assumes "zone_ok dat" and "libc_time gmtime_r timegm lo hi"
    and "lo + 2 ^ 31 \<le> s" and "s + 2 ^ 31 \<le> hi" and "\<bar>s\<bar> < 2 ^ 61"
  shows "\<exists>u. toLocalTime gmtime_r (Some dat) s = Some u
    \<and> fromLocalTime gmtime_r timegm (Some dat) u = Some s"
proof -
  let ?T = "transitions dat"
  define k where "k = era True s ?T"
  define lt where "lt = era_rule dat k"
  define L where "L = s + gmtOffset lt"
  define u where "u = (gmtime_r L)\<lparr>tm_isdst := (if isDst lt then 1 else 0), tm_gmtoff := gmtOffset lt,
     tm_zone := takeWhile (\<lambda>c. c \<noteq> 0) (drop (arrbIdx lt) (tz_abbreviation dat))\<rparr>"
  have kT: "k \<le> length ?T"
    unfolding k_def by (rule era_le)
  have b: "\<bar>gmtOffset lt\<bar> \<le> 2 ^ 31"
    unfolding lt_def using zone_ok_rule(3) [OF assms(1) kT] .
  have u: "toLocalTime gmtime_r (Some dat) s = Some u"
    using toLocalTime_era [OF assms(1), of s gmtime_r] assms(5) by (simp add: u_def L_def lt_def k_def)
  have L: "timegm u = L"
  proof -
    have "lo \<le> L" "L \<le> hi"
      using assms(3,4) b by (auto simp: L_def)
    then show ?thesis
      using assms(2) unfolding libc_time_def u_def by blast
  qed
  have flds: "tm_isdst u = (if isDst lt then 1 else 0)" "tm_hour u = tm_hour (gmtime_r L)"
    "tm_min u = tm_min (gmtime_r L)"
    by (simp_all add: u_def)
  have ck: "ck64 (L - gmtOffset lt) = Some s"
    unfolding L_def using assms(5) by (simp add: ck64_I)
  have found: "findLocaltime dat \<lparr>gmttime = 0, localtime = L, localtimeIdx = 0\<rparr> False
      = Some (era_rule dat (era False L ?T))"
    using findLocaltime_era [OF zone_ok_ascending [OF assms(1)]]
      zone_ok_rule(1) [OF assms(1) era_le [of False L ?T]] by (simp add: tr_key_def)
  from assms(1) have "fromLocalTime gmtime_r timegm (Some dat) u = Some s"
  proof (cases rule: local_era [of dat s])
    case same
    then have "findLocaltime dat \<lparr>gmttime = 0, localtime = L, localtimeIdx = 0\<rparr> False = Some lt"
      using found by (simp add: L_def lt_def k_def)
    then show ?thesis
      using ck u by (simp add: fromLocalTime_def L Let_def flds)
  next
    case repeated
    define lt2 where "lt2 = era_rule dat (Suc k)"
    have lt2: "gmtOffset lt = gmtOffset lt2 + 3600" "isDst lt" "\<not> isDst lt2"
      using repeated by (simp_all add: lt_def lt2_def k_def)
    have f: "findLocaltime dat \<lparr>gmttime = 0, localtime = L, localtimeIdx = 0\<rparr> False = Some lt2"
      using repeated found by (simp add: L_def lt_def k_def lt2_def)
    have "toLocalTime gmtime_r (Some dat) (s + 3600) = Some ((gmtime_r L)
       \<lparr>tm_isdst := 0, tm_gmtoff := gmtOffset lt2,
        tm_zone := takeWhile (\<lambda>c. c \<noteq> 0) (drop (arrbIdx lt2) (tz_abbreviation dat))\<rparr>)"
    proof -
      have "\<bar>s + 3600\<bar> \<le> 2 ^ 62" "s + 3600 + gmtOffset lt2 = L" "era True (s + 3600) ?T = Suc k"
        using assms(5) lt2(1) repeated(6) by (auto simp: L_def k_def)
      then show ?thesis
        using toLocalTime_era [OF assms(1), of "s + 3600" gmtime_r] lt2(3)
        by (simp add: lt2_def [symmetric])
    qed
    moreover have "ck64 (L - 3600) = Some (L - 3600)" "ck64 (L - gmtOffset lt2) = Some (s + 3600)"
      "ck64 (L - 3600 - gmtOffset lt2) = Some s"
      using assms(5) b lt2(1) by (auto simp: L_def ck64_I)
    ultimately show ?thesis
      using lt2(2) by (simp add: fromLocalTime_def L Let_def f flds)
  qed
  with u show ?thesis
    by blast
qed

lemma libc_time_utc:
  "libc_time (\<lambda>x. the (toUtcTime x False)) (\<lambda>u. the (fromUtcTime u)) (- 213608966400) 42989133283199"
  unfolding libc_time_def
proof (intro allI impI)
  fix x d g :: int and z
  assume "- 213608966400 \<le> x \<and> x \<le> 42989133283199"
  then obtain u where "toUtcTime x False = Some u" "fromUtcTime u = Some x"
    using toUtcTime_total [of x False] fromUtcTime_utc_tm by blast
  then show "the (fromUtcTime ((the (toUtcTime x False))
      \<lparr>tm_isdst := d, tm_gmtoff := g, tm_zone := z\<rparr>)) = x"
    by (simp add: fromUtcTime_def)
qed

lemma local_time_roundtrip_witness:
  "zone_ok sample_zone
   \<and> (\<exists>u. toLocalTime (\<lambda>x. the (toUtcTime x False)) (Some sample_zone) 199000 = Some u
        \<and> fromLocalTime (\<lambda>x. the (toUtcTime x False)) (\<lambda>u. the (fromUtcTime u))
            (Some sample_zone) u = Some 199000)"
proof -
  have "zone_ok sample_zone"
    by (simp add: zone_ok_def sample_zone_def era_rule_def era_idx_def less_Suc_eq)
  with local_time_roundtrip [OF this libc_time_utc, of 199000] show ?thesis
    by simp
qed

subsection \<open>Zone files\<close>

text \<open>The encoding of a zone file as \<open>tzfile(5)\<close> describes it (version 1).\<close>

definition i32_bytes :: "int \<Rightarrow> byte list" where
  "i32_bytes z = be_bytes (word_of_int z :: 32 word)"

definition localtime_bytes :: "Localtime \<Rightarrow> byte list" where
  "localtime_bytes lt =
     i32_bytes (gmtOffset lt) @ [if isDst lt then 1 else 0, word_of_nat (arrbIdx lt)]"

definition zone_file ::
    "byte list \<Rightarrow> int \<Rightarrow> int \<Rightarrow> int \<Rightarrow> (int \<times> nat) list \<Rightarrow> Localtime list \<Rightarrow> byte list \<Rightarrow> byte list \<Rightarrow> byte list" where
  "zone_file hdr isgmtcnt isstdcnt leapcnt trs lts abbr rest =
     kTZif @ hdr @ i32_bytes isgmtcnt @ i32_bytes isstdcnt @ i32_bytes leapcnt
     @ i32_bytes (int (length trs)) @ i32_bytes (int (length lts)) @ i32_bytes (int (length abbr))
     @ concat (map i32_bytes (map fst trs)) @ map word_of_nat (map snd trs)
     @ concat (map localtime_bytes lts) @ abbr @ rest"

definition int32_range :: "int \<Rightarrow> bool" where
  "int32_range z \<longleftrightarrow> - (2 ^ 31) \<le> z \<and> z < 2 ^ 31"

lemma readBytes_append: "length xs = n \<Longrightarrow> readBytes (int n) (xs @ ys) = Fine (xs, ys)"
  by (simp add: readBytes_def)

lemma readBytes_numeral: "length xs = numeral n \<Longrightarrow> readBytes (numeral n) (xs @ ys) = Fine (xs, ys)"
  using readBytes_append [of xs "numeral n" ys] by simp

lemma length_i32_bytes [simp]: "length (i32_bytes z) = 4"
  by (simp add: i32_bytes_def)

lemma File_readInt32_append:
  assumes "int32_range z"
  shows "File_readInt32 host (i32_bytes z @ ys) = Fine (z, ys)"
proof -
  have "betoh host (mem_word host (i32_bytes z) :: 32 word) = word_of_int z"
    by (simp add: i32_bytes_def betoh_mem_word of_be_bytes_be_bytes)
  moreover have "sint (word_of_int z :: 32 word) = z"
    using assms by (simp add: int32_range_def signed_of_int signed_take_bit_int_eq_self)
  ultimately show ?thesis
    by (simp add: File_readInt32_def)
qed

lemma readUInt8_append: "n < 256 \<Longrightarrow> readUInt8 (word_of_nat n # ys) = Fine (n, ys)"
  by (simp add: readUInt8_def unat_of_nat)

lemma read_times_concat:
  assumes "\<And>x ys. x \<in> set xs \<Longrightarrow> rd (enc x @ ys) = Fine (x, ys)"
  shows "read_times rd (length xs) (concat (map enc xs) @ ys) = Fine (xs, ys)"
  using assms by (induction xs) simp_all

lemma read_times_bytes:
  "\<forall>i \<in> set is. i < 256 \<Longrightarrow> read_times readUInt8 (length is) (map word_of_nat is @ ys) = Fine (is, ys)"
  by (induction "is") (simp_all add: readUInt8_append)

lemma read_localtime_append:
  assumes "int32_range (gmtOffset lt)" and "arrbIdx lt < 256"
  shows "read_localtime host (localtime_bytes lt @ ys) = Fine (lt, ys)"
  using assms
  by (cases lt)
    (simp add: read_localtime_def localtime_bytes_def File_readInt32_append readUInt8_def unat_of_nat)

lemma read_localtimes_concat:
  assumes "\<forall>lt \<in> set lts. int32_range (gmtOffset lt) \<and> arrbIdx lt < 256"
  shows "read_localtimes host (length lts) (concat (map localtime_bytes lts) @ ys) dat
    = (dat\<lparr>localtimes := localtimes dat @ lts\<rparr>, Fine ys)"
  using assms by (induction lts arbitrary: dat) (simp_all add: read_localtime_append)

lemma push_transitions_eq:
  assumes "\<forall>(t, i) \<in> set trs. i < length (localtimes dat) \<and> int32_range t"
    and "\<forall>lt \<in> set (localtimes dat). int32_range (gmtOffset lt)"
  shows "push_transitions (map fst trs) (map snd trs) dat = Some (dat\<lparr>transitions := transitions dat
    @ map (\<lambda>(t, i). \<lparr>gmttime = t, localtime = t + gmtOffset (localtimes dat ! i), localtimeIdx = i\<rparr>) trs\<rparr>)"
  using assms
proof (induction trs arbitrary: dat)
  case (Cons tr trs)
  obtain t i where tr: "tr = (t, i)"
    by (cases tr)
  have i: "i < length (localtimes dat)" "int32_range t" "int32_range (gmtOffset (localtimes dat ! i))"
    using Cons.prems tr by auto
  then have "ck64 (t + gmtOffset (localtimes dat ! i)) = Some (t + gmtOffset (localtimes dat ! i))"
    by (intro ck64_I) (auto simp: int32_range_def)
  with i show ?case
    using Cons by (simp add: tr)
qed simp

text \<open>
  C11: Reading a zone file recovers its contents. For every table of transition times and rules
  encoded in the format of \<open>tzfile(5)\<close>, whatever the header holds otherwise and whatever follows,
  the constructor \<open>TimeZone(zonefile)\<close> builds a zone with exactly these rules, abbreviations and
  transitions, each with its local time.
\<close>

theorem zone_file_roundtrip:
  assumes "length hdr = 16" and "int32_range g" "int32_range s" "int32_range l"
    and "int32_range (int (length trs))" "int32_range (int (length lts))"
    and "int32_range (int (length abbr))"
    and "\<forall>(t, i) \<in> set trs. i < length lts \<and> i < 256 \<and> int32_range t"
    and "\<forall>lt \<in> set lts. int32_range (gmtOffset lt) \<and> arrbIdx lt < 256"
  shows "TimeZone_of_file host (Some (zone_file hdr g s l trs lts abbr rest)) =
    Some (Some \<lparr>transitions = map (\<lambda>(t, i). \<lparr>gmttime = t, localtime = t + gmtOffset (lts ! i),
                                               localtimeIdx = i\<rparr>) trs,
                localtimes = lts, names = [], tz_abbreviation = abbr\<rparr>)"
proof -
  obtain v res where hdr: "hdr = [v] @ res" "length res = 15"
    using assms(1) by (cases hdr) auto
  let ?after = "concat (map localtime_bytes lts) @ abbr @ rest"
  let ?h = "\<lparr>h_leapcnt = l, h_timecnt = int (length trs), h_typecnt = int (length lts),
    h_charcnt = int (length abbr), h_trans = map fst trs, h_localIdx = map snd trs\<rparr>"
  have "read_times (File_readInt32 host) (length (map fst trs))
      (concat (map i32_bytes (map fst trs)) @ ys) = Fine (map fst trs, ys)" for ys
    using assms(8) by (intro read_times_concat File_readInt32_append) auto
  moreover have "read_times readUInt8 (length (map snd trs)) (map word_of_nat (map snd trs) @ ys)
      = Fine (map snd trs, ys)" for ys
    using assms(8) by (intro read_times_bytes) auto
  moreover have "readBytes 4 (kTZif @ ys) = Fine (kTZif, ys)" "readBytes 1 ([v] @ ys) = Fine ([v], ys)"
    "readBytes 15 (res @ ys) = Fine (res, ys)" for ys
    using hdr(2) by (simp_all add: readBytes_def kTZif_def)
  ultimately have "read_head host (zone_file hdr g s l trs lts abbr rest) = Fine (?h, ?after)"
    using assms(2-7)
    by (simp add: read_head_def zone_file_def hdr(1) File_readInt32_append del: map_map append.simps)
  moreover have "push_transitions (map fst trs) (map snd trs) (tz_data_new\<lparr>localtimes := lts\<rparr>)
    = Some (tz_data_new\<lparr>localtimes := lts, transitions := map (\<lambda>(t, i).
        \<lparr>gmttime = t, localtime = t + gmtOffset (lts ! i), localtimeIdx = i\<rparr>) trs\<rparr>)"
    using assms(8,9) by (subst push_transitions_eq) (auto simp: tz_data_new_def)
  ultimately show ?thesis
    using read_localtimes_concat [OF assms(9), of host "abbr @ rest" tz_data_new]
      readBytes_append [of abbr "length abbr" rest]
    by (simp add: TimeZone_of_file_def readTimeZoneFile_def tz_data_new_def)
qed

lemma zone_file_roundtrip_witness:
  "TimeZone_of_file Little_Endian (Some (zone_file (replicate 16 0) 0 0 0 [(100000, 1), (200000, 0)]
        (localtimes sample_zone) (tz_abbreviation sample_zone) [])) = Some (Some sample_zone)"
proof -
  have "\<forall>lt \<in> set (localtimes sample_zone). int32_range (gmtOffset lt) \<and> arrbIdx lt < 256"
    by (simp add: sample_zone_def int32_range_def)
  from zone_file_roundtrip [OF _ _ _ _ _ _ _ _ this, of "replicate 16 0" 0 0 0
      "[(100000, 1), (200000, 0)]" "tz_abbreviation sample_zone" Little_Endian "[]"]
  show ?thesis
    by (simp add: int32_range_def sample_zone_def)
qed

text \<open>
  A flaw: a zone that could not be read counts as valid. When the file cannot be opened or does not
  start with \<open>TZif\<close>, \<open>readTimeZoneFile\<close> still returns true, so that \<open>valid()\<close> holds; but the zone
  has no rule, and the first conversion to local time reads an empty vector.
\<close>

theorem unreadable_zone_is_valid:
  assumes "file = None \<or> (\<exists>bs. file = Some bs \<and> (length bs < 4 \<or> take 4 bs \<noteq> kTZif))"
  shows "TimeZone_of_file host file = Some (Some tz_data_new)
    \<and> TimeZone_valid (Some tz_data_new) \<and> toLocalTime gmtime_r (Some tz_data_new) s = None"
  using assms
  by (auto simp: TimeZone_of_file_def readTimeZoneFile_def read_head_def readBytes_def
      TimeZone_valid_def toLocalTime_def findLocaltime_def localtime_at_def tz_data_new_def)

lemma unreadable_zone_is_valid_witness:
  "TimeZone_of_file Little_Endian (Some []) = Some (Some tz_data_new)
   \<and> toLocalTime (\<lambda>x. tm_zero) (Some tz_data_new) 0 = None"
  using unreadable_zone_is_valid [of "Some []" Little_Endian "\<lambda>x. tm_zero" 0] by simp

end
