(* ===== verification/LogStream.thy ===== *)
theory LogStream
  imports Prelude
begin

section \<open>Formatting of log messages: \<open>base/log_stream.h\<close>, \<open>base/log_stream.cc\<close>\<close>

text \<open>
  \<open>FixedBuffer\<close> is an array of characters with the position of its end; a write outside the array
  is \<open>None\<close>. \<open>convert\<close> and \<open>convertHex\<close> write digits into the array from the least significant one on
  and reverse them in place. \<open>LogStream\<close> is the series of its \<open>operator<<\<close>; what a program can insert
  is the datatype \<open>log_item\<close>. The text of a \<open>double\<close> (\<open>snprintf\<close> with \<open>%.12g\<close>) is an argument.

  The specification of the stream is text: every insertion appends its text as a whole or, when it
  may not fit, nothing. \<open>decimal\<close> and \<open>hexadecimal\<close> are the reference conversions of numbers.
\<close>

subsection \<open>Numbers as text\<close>

definition digits :: string where "digits = ''9876543210123456789''"

definition digitsHex :: string where "digitsHex = ''0123456789ABCDEF''"

text \<open>One character stored at \<open>*p\<close>, and \<open>std::reverse(buf, p)\<close>.\<close>

definition store :: "string \<Rightarrow> nat \<Rightarrow> char \<Rightarrow> string option" where
  "store a p c = (if p < length a then Some (a[p := c]) else None)"

definition reverse_range :: "string \<Rightarrow> nat \<Rightarrow> nat \<Rightarrow> string" where
  "reverse_range a i j = take i a @ rev (take (j - i) (drop i a)) @ drop j a"

function convert_loop :: "string \<Rightarrow> nat \<Rightarrow> int \<Rightarrow> (string \<times> nat) option" where
  "convert_loop a p i = do {
     let lsd = cmod i 10;
     a1 \<leftarrow> store a p (digits ! nat (9 + lsd));
     if cdiv i 10 \<noteq> 0 then convert_loop a1 (Suc p) (cdiv i 10) else Some (a1, Suc p)
   }"
  by pat_completeness auto
termination
proof (relation "measure (\<lambda>(a, p, i). nat \<bar>i\<bar>)")
  fix a a1 :: string and p :: nat and i x :: int
  assume "cdiv i 10 \<noteq> 0"
  then have "\<bar>cdiv i 10\<bar> < \<bar>i\<bar>"
    by (auto simp: cdiv_def abs_mult sgn_if int_div_less_self)
  then show "((a1, Suc p, cdiv i 10), (a, p, i)) \<in> measure (\<lambda>(a, p, i). nat \<bar>i\<bar>)"
    by simp
qed simp

definition convert :: "string \<Rightarrow> nat \<Rightarrow> int \<Rightarrow> (string \<times> nat) option" where
  "convert a buf v = do {
     (a1, p1) \<leftarrow> convert_loop a buf v;
     (a2, p2) \<leftarrow> (if v < 0 then do { a' \<leftarrow> store a1 p1 (CHR ''-''); Some (a', Suc p1) }
                   else Some (a1, p1));
     a3 \<leftarrow> store a2 p2 (CHR 0x00);
     Some (reverse_range a3 buf p2, p2 - buf)
   }"

fun convertHex_loop :: "string \<Rightarrow> nat \<Rightarrow> nat \<Rightarrow> (string \<times> nat) option" where
  "convertHex_loop a p i = do {
     a1 \<leftarrow> store a p (digitsHex ! (i mod 16));
     if i div 16 \<noteq> 0 then convertHex_loop a1 (Suc p) (i div 16) else Some (a1, Suc p)
   }"

definition convertHex :: "string \<Rightarrow> nat \<Rightarrow> nat \<Rightarrow> (string \<times> nat) option" where
  "convertHex a buf v = do {
     (a1, p1) \<leftarrow> convertHex_loop a buf v;
     a2 \<leftarrow> store a1 p1 (CHR 0x00);
     Some (reverse_range a2 buf p1, p1 - buf)
   }"

declare convert_loop.simps [simp del] convertHex_loop.simps [simp del]

subsection \<open>\<open>FixedBuffer\<close>\<close>

definition kSmallBuffer :: nat where "kSmallBuffer = 4000"

definition kLargeBuffer :: nat where "kLargeBuffer = 4000 * 1000"

record fixed_buffer =
  fb_data :: string
  fb_cur :: nat

text \<open>The array is not initialised; its contents are arbitrary.\<close>

definition FixedBuffer_new :: "string \<Rightarrow> fixed_buffer" where
  "FixedBuffer_new junk = \<lparr>fb_data = junk, fb_cur = 0\<rparr>"

definition fb_avail :: "fixed_buffer \<Rightarrow> nat" where
  "fb_avail b = length (fb_data b) - fb_cur b"

definition fb_append :: "string \<Rightarrow> nat \<Rightarrow> fixed_buffer \<Rightarrow> fixed_buffer option" where
  "fb_append buf len b =
     (if fb_avail b > len then do {
        d \<leftarrow> copy_into (fb_data b) (fb_cur b) buf len;
        Some (b\<lparr>fb_data := d, fb_cur := fb_cur b + len\<rparr>) }
      else Some b)"

definition fb_length :: "fixed_buffer \<Rightarrow> nat" where
  "fb_length b = fb_cur b"

definition fb_add :: "nat \<Rightarrow> fixed_buffer \<Rightarrow> fixed_buffer" where
  "fb_add len b = b\<lparr>fb_cur := fb_cur b + len\<rparr>"

definition fb_reset :: "fixed_buffer \<Rightarrow> fixed_buffer" where
  "fb_reset b = b\<lparr>fb_cur := 0\<rparr>"

definition fb_bzero :: "fixed_buffer \<Rightarrow> fixed_buffer" where
  "fb_bzero b = b\<lparr>fb_data := replicate (length (fb_data b)) (CHR 0x00)\<rparr>"

definition fb_toString :: "fixed_buffer \<Rightarrow> string" where
  "fb_toString b = take (fb_length b) (fb_data b)"

definition debugString :: "fixed_buffer \<Rightarrow> fixed_buffer option" where
  "debugString b = do { d \<leftarrow> store (fb_data b) (fb_cur b) (CHR 0x00); Some (b\<lparr>fb_data := d\<rparr>) }"

subsection \<open>\<open>LogStream\<close> and \<open>Fmt\<close>\<close>

type_synonym log_stream = fixed_buffer

definition kMaxNumericSize :: nat where "kMaxNumericSize = 32"

definition formatInteger :: "int \<Rightarrow> log_stream \<Rightarrow> log_stream option" where
  "formatInteger v s =
     (if fb_avail s \<ge> kMaxNumericSize then do {
        (d, len) \<leftarrow> convert (fb_data s) (fb_cur s) v;
        Some (fb_add len (s\<lparr>fb_data := d\<rparr>)) }
      else Some s)"

definition put_pointer :: "nat \<Rightarrow> log_stream \<Rightarrow> log_stream option" where
  "put_pointer v s =
     (if fb_avail s \<ge> kMaxNumericSize then do {
        d0 \<leftarrow> store (fb_data s) (fb_cur s) (CHR ''0'');
        d1 \<leftarrow> store d0 (fb_cur s + 1) (CHR ''x'');
        (d2, len) \<leftarrow> convertHex d1 (fb_cur s + 2) v;
        Some (fb_add (len + 2) (s\<lparr>fb_data := d2\<rparr>)) }
      else Some s)"

text \<open>
  \<open>snprintf(buf, n, ...)\<close> writes the text up to \<open>n - 1\<close> characters and a terminating zero, and returns
  the length of the whole text.
\<close>

definition snprintf_at :: "string \<Rightarrow> nat \<Rightarrow> nat \<Rightarrow> string \<Rightarrow> (string \<times> nat) option" where
  "snprintf_at a p n txt = do {
     a1 \<leftarrow> copy_into a p (take (n - 1) txt @ [CHR 0x00]) (min (n - 1) (length txt) + 1);
     Some (a1, length txt)
   }"

definition put_double :: "string \<Rightarrow> log_stream \<Rightarrow> log_stream option" where
  "put_double txt s =
     (if fb_avail s \<ge> kMaxNumericSize then do {
        (d, len) \<leftarrow> snprintf_at (fb_data s) (fb_cur s) kMaxNumericSize txt;
        Some (fb_add len (s\<lparr>fb_data := d\<rparr>)) }
      else Some s)"

definition put_bool :: "bool \<Rightarrow> log_stream \<Rightarrow> log_stream option" where
  "put_bool v s = fb_append (if v then ''1'' else ''0'') 1 s"

definition put_char :: "char \<Rightarrow> log_stream \<Rightarrow> log_stream option" where
  "put_char v s = fb_append [v] 1 s"

text \<open>A C string is given by its characters before the terminating zero; \<open>None\<close> is the null pointer.\<close>

definition put_cstr :: "string option \<Rightarrow> log_stream \<Rightarrow> log_stream option" where
  "put_cstr str s =
     (case str of Some txt \<Rightarrow> fb_append txt (length txt) s | None \<Rightarrow> fb_append ''(null)'' 6 s)"

definition put_string :: "string \<Rightarrow> log_stream \<Rightarrow> log_stream option" where
  "put_string v s = fb_append v (length v) s"

definition put_buffer :: "fixed_buffer \<Rightarrow> log_stream \<Rightarrow> log_stream option" where
  "put_buffer v s = put_string (fb_toString v) s"

definition ls_append :: "string \<Rightarrow> nat \<Rightarrow> log_stream \<Rightarrow> log_stream option" where
  "ls_append buf len s = fb_append buf len s"

definition resetBuffer :: "log_stream \<Rightarrow> log_stream" where
  "resetBuffer s = fb_reset s"

text \<open>\<open>Fmt\<close>: a formatted number in an array of 32 characters, by its text.\<close>

definition Fmt_new :: "string \<Rightarrow> string option" where
  "Fmt_new txt = do { assert_that (length txt < 32); Some txt }"

definition put_fmt :: "string \<Rightarrow> log_stream \<Rightarrow> log_stream option" where
  "put_fmt fmt s = ls_append fmt (length fmt) s"

text \<open>What the overloads of \<open>operator<<\<close> insert. All integer types share \<open>formatInteger\<close>.\<close>

datatype log_item =
    LBool bool
  | LInteger int
  | LPointer nat
  | LDouble string
  | LChar char
  | LCstr "string option"
  | LString string
  | LBuffer fixed_buffer
  | LFmt string

fun put_item :: "log_item \<Rightarrow> log_stream \<Rightarrow> log_stream option" where
  "put_item (LBool v) s = put_bool v s"
| "put_item (LInteger v) s = formatInteger v s"
| "put_item (LPointer v) s = put_pointer v s"
| "put_item (LDouble txt) s = put_double txt s"
| "put_item (LChar c) s = put_char c s"
| "put_item (LCstr str) s = put_cstr str s"
| "put_item (LString v) s = put_string v s"
| "put_item (LBuffer b) s = put_buffer b s"
| "put_item (LFmt txt) s = do { fmt \<leftarrow> Fmt_new txt; put_fmt fmt s }"

abbreviation put_items :: "log_item list \<Rightarrow> log_stream \<Rightarrow> log_stream option" where
  "put_items \<equiv> run_all put_item"

subsection \<open>Specification\<close>

definition digit :: "nat \<Rightarrow> char" where
  "digit n = ''0123456789ABCDEF'' ! n"

text \<open>Positional notation in base \<open>b\<close>, without leading zeros.\<close>

fun in_base :: "nat \<Rightarrow> nat \<Rightarrow> string" where
  "in_base b n = (if b < 2 \<or> n < b then [digit n] else in_base b (n div b) @ [digit (n mod b)])"

declare in_base.simps [simp del]

definition decimal :: "int \<Rightarrow> string" where
  "decimal z = (if z < 0 then ''-'' else []) @ in_base 10 (nat \<bar>z\<bar>)"

definition hexadecimal :: "nat \<Rightarrow> string" where
  "hexadecimal n = in_base 16 n"

text \<open>Reading a number back.\<close>

definition digit_value :: "char \<Rightarrow> nat" where
  "digit_value c = (let n = (of_char c :: nat) in if n < 58 then n - 48 else n - 55)"

definition base_value :: "nat \<Rightarrow> string \<Rightarrow> nat" where
  "base_value b = foldl (\<lambda>v c. b * v + digit_value c) 0"

definition decimal_value :: "string \<Rightarrow> int" where
  "decimal_value cs =
     (if cs \<noteq> [] \<and> hd cs = CHR ''-'' then - int (base_value 10 (tl cs)) else int (base_value 10 cs))"

definition stream_inv :: "log_stream \<Rightarrow> bool" where
  "stream_inv s \<longleftrightarrow> fb_cur s < length (fb_data s)"

fun item_text :: "log_item \<Rightarrow> string" where
  "item_text (LBool v) = (if v then ''1'' else ''0'')"
| "item_text (LInteger v) = decimal v"
| "item_text (LPointer v) = ''0x'' @ hexadecimal v"
| "item_text (LDouble txt) = txt"
| "item_text (LChar c) = [c]"
| "item_text (LCstr str) = (case str of Some txt \<Rightarrow> txt | None \<Rightarrow> ''(null)'')"
| "item_text (LString v) = v"
| "item_text (LBuffer b) = fb_toString b"
| "item_text (LFmt txt) = txt"

text \<open>The space an insertion asks for: 32 characters for a number, else its text and one more.\<close>

fun item_space :: "log_item \<Rightarrow> nat" where
  "item_space (LInteger v) = 32"
| "item_space (LPointer v) = 32"
| "item_space (LDouble txt) = 32"
| "item_space it = length (item_text it) + 1"

fun item_ok :: "log_item \<Rightarrow> bool" where
  "item_ok (LInteger v) \<longleftrightarrow> - (2 ^ 63) \<le> v \<and> v < 2 ^ 64"
| "item_ok (LPointer v) \<longleftrightarrow> v < 2 ^ 64"
| "item_ok (LDouble txt) \<longleftrightarrow> length txt < 32"
| "item_ok (LFmt txt) \<longleftrightarrow> length txt < 32"
| "item_ok (LBuffer b) \<longleftrightarrow> fb_cur b \<le> length (fb_data b)"
| "item_ok it \<longleftrightarrow> True"

definition emit :: "nat \<Rightarrow> log_item \<Rightarrow> string \<Rightarrow> string" where
  "emit cap it txt = (if length txt + item_space it \<le> cap then txt @ item_text it else txt)"

end
