(* ===== verification/LogStreamProps.thy ===== *)
theory LogStreamProps
  imports LogStream
begin

section \<open>Correctness of the log stream\<close>

text \<open>
  Facts and properties about the definitions of \<open>LogStream\<close>: the conversions of numbers write
  exactly the reference notation, and the stream is a sink for text that is never overrun
  (locale \<open>text_sink\<close>, interpreted on \<open>put_item\<close>).
\<close>

subsection \<open>Digits\<close>

lemma in_base_small: "n < b \<Longrightarrow> in_base b n = [digit n]"
  by (subst in_base.simps) simp

lemma in_base_step: "2 \<le> b \<Longrightarrow> b \<le> n \<Longrightarrow> in_base b n = in_base b (n div b) @ [digit (n mod b)]"
  by (subst in_base.simps) simp

lemma in_base_length:
  assumes "2 \<le> b" and "n < b ^ Suc k"
  shows "length (in_base b n) \<le> Suc k"
  using assms(2)
proof (induction k arbitrary: n)
  case 0
  then show ?case by (simp add: in_base_small)
next
  case (Suc k)
  then show ?case
    using assms(1)
    by (cases "n < b") (simp_all add: in_base_small in_base_step less_mult_imp_div_less mult.commute)
qed

lemma in_base_nonempty [simp]: "in_base b n \<noteq> []"
  by (subst in_base.simps) simp

text \<open>A fact about all digits, evaluated digit by digit.\<close>

lemma digit_by_digit: "list_all P [0..<k] \<Longrightarrow> n < k \<Longrightarrow> P n"
  by (simp add: list_all_iff)

lemma digit_value_digit: "n < 16 \<Longrightarrow> digit_value (digit n) = n"
  by (rule digit_by_digit [of "\<lambda>n. digit_value (digit n) = n" 16]) code_simp

lemma digit_not_minus: "n < 16 \<Longrightarrow> digit n \<noteq> CHR ''-''"
  by (rule digit_by_digit [of "\<lambda>n. digit n \<noteq> CHR ''-''" 16]) code_simp

lemma base_value_in_base:
  assumes "2 \<le> b" and "b \<le> 16"
  shows "base_value b (in_base b n) = n"
proof (induction n rule: less_induct)
  case (less n)
  show ?case
  proof (cases "n < b")
    case True
    then show ?thesis
      using assms by (simp add: in_base_small base_value_def digit_value_digit)
  next
    case False
    then have "base_value b (in_base b (n div b)) = n div b"
      using assms by (intro less.IH) simp
    moreover have "digit_value (digit (n mod b)) = n mod b"
      using assms mod_less_divisor [of b n] by (intro digit_value_digit) linarith
    ultimately show ?thesis
      using False assms by (simp add: in_base_step base_value_def)
  qed
qed

lemma hd_in_base: "2 \<le> b \<Longrightarrow> b \<le> 16 \<Longrightarrow> hd (in_base b n) \<noteq> CHR ''-''"
proof (induction n rule: less_induct)
  case (less n)
  then show ?case
    by (cases "n < b") (auto simp: in_base_small in_base_step digit_not_minus)
qed

lemma decimal_value_decimal: "decimal_value (decimal z) = z"
  using base_value_in_base [of 10] hd_in_base [of 10] by (simp add: decimal_value_def decimal_def)

lemma length_decimal:
  assumes "- (2 ^ 63) \<le> z" and "z < 2 ^ 64"
  shows "length (decimal z) \<le> 20"
proof (cases "z < 0")
  case True
  then have "nat \<bar>z\<bar> < 10 ^ Suc 18"
    using assms by simp
  then show ?thesis
    using True in_base_length [of 10 "nat \<bar>z\<bar>" 18] by (simp add: decimal_def)
next
  case False
  then have "nat \<bar>z\<bar> < 10 ^ Suc 19"
    using assms by simp
  then show ?thesis
    using False in_base_length [of 10 "nat \<bar>z\<bar>" 19] by (simp add: decimal_def)
qed

lemma length_hexadecimal: "n < 2 ^ 64 \<Longrightarrow> length (hexadecimal n) \<le> 16"
  using in_base_length [of 16 n 15] by (simp add: hexadecimal_def)

subsection \<open>The conversions\<close>

lemma cdiv_10: "nat \<bar>cdiv i 10\<bar> = nat \<bar>i\<bar> div 10"
  by (cases "i < 0") (simp_all add: cdiv_neg cdiv_nonneg nat_div_distrib)

lemma cdiv_10_zero: "cdiv i 10 = 0 \<longleftrightarrow> nat \<bar>i\<bar> < 10"
  by (cases "i < 0") (auto simp: cdiv_neg cdiv_nonneg)

lemma digits_cmod: "digits ! nat (9 + cmod i 10) = digit (nat \<bar>i\<bar> mod 10)"
proof -
  define r where "r = nat \<bar>i\<bar> mod 10"
  have "r < 10"
    by (simp add: r_def)
  then have "digits ! nat (9 + int r) = digit r \<and> digits ! nat (9 + - int r) = digit r"
    by (rule digit_by_digit [of "\<lambda>r. digits ! nat (9 + int r) = digit r
      \<and> digits ! nat (9 + - int r) = digit r" 10, rotated]) code_simp
  moreover have "cmod i 10 = int r \<or> cmod i 10 = - int r"
    unfolding r_def by (cases "i < 0") (simp_all add: cmod_neg cmod_nonneg zmod_int)
  ultimately show ?thesis
    unfolding r_def [symmetric] by metis
qed

lemma store_eq: "p < length a \<Longrightarrow> store a p c = Some (take p a @ c # drop (Suc p) a)"
  by (simp add: store_def upd_conv_take_nth_drop)

lemma convert_loop_eq:
  assumes "p + length (in_base 10 (nat \<bar>i\<bar>)) \<le> length a"
  shows "convert_loop a p i = Some (take p a @ rev (in_base 10 (nat \<bar>i\<bar>))
    @ drop (p + length (in_base 10 (nat \<bar>i\<bar>))) a, p + length (in_base 10 (nat \<bar>i\<bar>)))"
  using assms
proof (induction a p i rule: convert_loop.induct)
  case (1 a p i)
  let ?n = "nat \<bar>i\<bar>"
  have p: "p < length a"
    using "1.prems" by (cases "in_base 10 ?n") simp_all
  show ?case
  proof (cases "?n < 10")
    case True
    then show ?thesis
      using p digits_cmod [of i]
      by (simp add: convert_loop.simps [of a] store_eq in_base_small cdiv_10_zero)
  next
    case False
    then have b: "in_base 10 ?n = in_base 10 (?n div 10) @ [digit (?n mod 10)]"
      by (simp add: in_base_step)
    let ?a1 = "take p a @ digit (?n mod 10) # drop (Suc p) a"
    have "convert_loop ?a1 (Suc p) (cdiv i 10) = Some (take (Suc p) ?a1 @ rev (in_base 10 (?n div 10))
        @ drop (Suc p + length (in_base 10 (?n div 10))) ?a1, Suc p + length (in_base 10 (?n div 10)))"
      using "1.IH" [OF refl, of ?a1] False "1.prems" p b
      by (simp add: store_eq digits_cmod cdiv_10 cdiv_10_zero)
    then show ?thesis
      using p False by (simp add: convert_loop.simps [of a] store_eq digits_cmod cdiv_10_zero b min_def add.commute)
  qed
qed

lemma reverse_range_mid:
  "reverse_range (xs @ rev ys @ zs) (length xs) (length xs + length ys) = xs @ ys @ zs"
  by (simp add: reverse_range_def)

text \<open>
  Both conversions write their text and a terminating zero, and nothing else of the array changes.
\<close>

lemma convert_eq:
  assumes "buf + length (decimal v) < length a"
  shows "convert a buf v = Some (take buf a @ decimal v @ CHR 0x00 # drop (buf + length (decimal v) + 1) a,
    length (decimal v))"
proof -
  let ?ds = "in_base 10 (nat \<bar>v\<bar>)"
  have buf: "length (take buf a) = buf"
    using assms by simp
  have l: "buf + length ?ds < length a"
    using assms by (simp add: decimal_def split: if_splits)
  then have loop: "convert_loop a buf v =
      Some (take buf a @ rev ?ds @ drop (buf + length ?ds) a, buf + length ?ds)"
    by (simp add: convert_loop_eq)
  show ?thesis
  proof (cases "v < 0")
    case True
    then have m: "buf + Suc (length ?ds) < length a"
      using assms by (simp add: decimal_def)
    have r: "reverse_range (take buf a @ rev (CHR ''-'' # ?ds) @ CHR 0x00 # drop (buf + length ?ds + 2) a)
        buf (buf + Suc (length ?ds)) = take buf a @ (CHR ''-'' # ?ds) @ CHR 0x00 # drop (buf + length ?ds + 2) a"
      using reverse_range_mid [of "take buf a" "CHR ''-'' # ?ds"] buf by simp
    show ?thesis
      using True m l r by (simp add: convert_def loop store_eq decimal_def min_def)
  next
    case False
    have r: "reverse_range (take buf a @ rev ?ds @ CHR 0x00 # drop (buf + length ?ds + 1) a)
        buf (buf + length ?ds) = take buf a @ ?ds @ CHR 0x00 # drop (buf + length ?ds + 1) a"
      using reverse_range_mid [of "take buf a" ?ds] buf by simp
    show ?thesis
      using False l r by (simp add: convert_def loop store_eq decimal_def min_def)
  qed
qed

lemma convertHex_loop_eq:
  assumes "p + length (in_base 16 i) \<le> length a"
  shows "convertHex_loop a p i = Some (take p a @ rev (in_base 16 i)
    @ drop (p + length (in_base 16 i)) a, p + length (in_base 16 i))"
  using assms
proof (induction a p i rule: convertHex_loop.induct)
  case (1 a p i)
  have p: "p < length a"
    using "1.prems" by (cases "in_base 16 i") simp_all
  have d: "digitsHex ! (i mod 16) = digit (i mod 16)"
    by (simp add: digitsHex_def digit_def)
  show ?case
  proof (cases "i < 16")
    case True
    then show ?thesis
      using p d by (simp add: convertHex_loop.simps [of a] store_eq in_base_small)
  next
    case False
    then have b: "in_base 16 i = in_base 16 (i div 16) @ [digit (i mod 16)]"
      by (simp add: in_base_step)
    let ?a1 = "take p a @ digit (i mod 16) # drop (Suc p) a"
    have "convertHex_loop ?a1 (Suc p) (i div 16) = Some (take (Suc p) ?a1 @ rev (in_base 16 (i div 16))
        @ drop (Suc p + length (in_base 16 (i div 16))) ?a1, Suc p + length (in_base 16 (i div 16)))"
      using "1.IH" [of ?a1] False "1.prems" p b d by (simp add: store_eq)
    then show ?thesis
      using p False d
      by (simp add: convertHex_loop.simps [of a] store_eq b min_def add.commute)
  qed
qed

lemma convertHex_eq:
  assumes "buf + length (hexadecimal v) < length a"
  shows "convertHex a buf v = Some (take buf a @ hexadecimal v
    @ CHR 0x00 # drop (buf + length (hexadecimal v) + 1) a, length (hexadecimal v))"
proof -
  let ?ds = "in_base 16 v"
  have l: "buf + length ?ds < length a" "length (take buf a) = buf"
    using assms by (simp_all add: hexadecimal_def)
  then have "convertHex_loop a buf v =
      Some (take buf a @ rev ?ds @ drop (buf + length ?ds) a, buf + length ?ds)"
    by (simp add: convertHex_loop_eq)
  moreover have "reverse_range (take buf a @ rev ?ds @ CHR 0x00 # drop (buf + length ?ds + 1) a)
      buf (buf + length ?ds) = take buf a @ ?ds @ CHR 0x00 # drop (buf + length ?ds + 1) a"
    using reverse_range_mid [of "take buf a" ?ds] l(2) by simp
  ultimately show ?thesis
    using l by (simp add: convertHex_def store_eq hexadecimal_def min_def)
qed

subsection \<open>Insertion as text\<close>

text \<open>What one insertion does to the stream: it appends \<open>txt\<close>, or leaves everything as it is.\<close>

definition appends :: "nat \<Rightarrow> string \<Rightarrow> log_stream \<Rightarrow> log_stream option \<Rightarrow> bool" where
  "appends space txt s r \<longleftrightarrow> (\<exists>s'. r = Some s' \<and> stream_inv s'
     \<and> length (fb_data s') = length (fb_data s)
     \<and> fb_toString s' = (if length (fb_toString s) + space \<le> length (fb_data s)
                         then fb_toString s @ txt else fb_toString s))"

lemma length_fb_toString: "stream_inv s \<Longrightarrow> length (fb_toString s) = fb_cur s"
  by (simp add: stream_inv_def fb_toString_def fb_length_def)

lemma appends_unchanged:
  "stream_inv s \<Longrightarrow> fb_avail s < space \<Longrightarrow> appends space txt s (Some s)"
  by (auto simp: appends_def length_fb_toString fb_avail_def stream_inv_def)

lemma appends_text:
  assumes "stream_inv s" and "space \<le> fb_avail s" and "length txt < space"
    and "take (fb_cur s + length txt) d = fb_toString s @ txt" and "length d = length (fb_data s)"
  shows "appends space txt s (Some (s\<lparr>fb_data := d, fb_cur := fb_cur s + length txt\<rparr>))"
  using assms
  by (auto simp: appends_def length_fb_toString fb_avail_def stream_inv_def)
    (simp add: fb_toString_def fb_length_def)

lemma fb_append_appends:
  assumes "stream_inv s" and "length txt = len"
  shows "appends (len + 1) txt s (fb_append txt len s)"
proof (cases "fb_avail s > len")
  case True
  then have "fb_cur s + len \<le> length (fb_data s)"
    by (simp add: fb_avail_def)
  then have "fb_append txt len s = Some (s\<lparr>fb_data := take (fb_cur s) (fb_data s) @ txt
      @ drop (fb_cur s + len) (fb_data s), fb_cur := fb_cur s + length txt\<rparr>)"
    using True assms(2) by (simp add: fb_append_def copy_into_eq)
  then show ?thesis
    using appends_text [OF assms(1), of "len + 1" "txt"] True assms \<open>fb_cur s + len \<le> _\<close>
    by (simp add: fb_toString_def fb_length_def stream_inv_def)
next
  case False
  then show ?thesis
    using appends_unchanged [OF assms(1), of "len + 1" "txt"] by (simp add: fb_append_def)
qed

lemma numeric_appends:
  assumes "stream_inv s" and "kMaxNumericSize \<le> fb_avail s" and "length txt < 32"
    and "d = take (fb_cur s) (fb_data s) @ txt @ rest" and "length d = length (fb_data s)"
  shows "appends 32 txt s (Some (fb_add (length txt) (s\<lparr>fb_data := d\<rparr>)))"
  using assms appends_text [OF assms(1), of 32 "txt" d]
  by (simp add: kMaxNumericSize_def fb_add_def fb_toString_def fb_length_def stream_inv_def)

lemma formatInteger_appends:
  assumes "stream_inv s" and "- (2 ^ 63) \<le> v" and "v < 2 ^ 64"
  shows "appends 32 (decimal v) s (formatInteger v s)"
proof (cases "kMaxNumericSize \<le> fb_avail s")
  case True
  have len: "length (decimal v) < 32"
    using length_decimal [OF assms(2,3)] by simp
  then have "fb_cur s + length (decimal v) < length (fb_data s)"
    using True by (simp add: fb_avail_def kMaxNumericSize_def)
  then show ?thesis
    using True len numeric_appends [OF assms(1) True len]
    by (simp add: formatInteger_def convert_eq)
next
  case False
  then show ?thesis
    using appends_unchanged [OF assms(1), of 32] by (simp add: formatInteger_def kMaxNumericSize_def)
qed

lemma put_double_appends:
  assumes "stream_inv s" and "length txt < 32"
  shows "appends 32 txt s (put_double txt s)"
proof (cases "kMaxNumericSize \<le> fb_avail s")
  case True
  then have l: "fb_cur s + length txt + 1 \<le> length (fb_data s)"
    using assms(2) by (simp add: fb_avail_def kMaxNumericSize_def)
  have m: "min 31 (length txt) = length txt" "take 31 txt = txt"
    using assms(2) by simp_all
  have "snprintf_at (fb_data s) (fb_cur s) kMaxNumericSize txt = Some (take (fb_cur s) (fb_data s)
      @ txt @ CHR 0x00 # drop (fb_cur s + length txt + 1) (fb_data s), length txt)"
    using l m by (simp add: snprintf_at_def kMaxNumericSize_def copy_into_eq)
  then show ?thesis
    using True l numeric_appends [OF assms(1) True assms(2)] by (simp add: put_double_def)
next
  case False
  then show ?thesis
    using appends_unchanged [OF assms(1), of 32] by (simp add: put_double_def kMaxNumericSize_def)
qed

lemma put_pointer_appends:
  assumes "stream_inv s" and "v < 2 ^ 64"
  shows "appends 32 (''0x'' @ hexadecimal v) s (put_pointer v s)"
proof (cases "kMaxNumericSize \<le> fb_avail s")
  case True
  let ?c = "fb_cur s" and ?a = "fb_data s"
  have len: "length (''0x'' @ hexadecimal v) < 32"
    using length_hexadecimal [OF assms(2)] by simp
  then have l: "?c + 2 + length (hexadecimal v) < length ?a"
    using True by (simp add: fb_avail_def kMaxNumericSize_def)
  define a2 where "a2 = take ?c ?a @ CHR ''0'' # CHR ''x'' # drop (?c + 2) ?a"
  define a1 where "a1 = take ?c ?a @ CHR ''0'' # drop (Suc ?c) ?a"
  have st: "store ?a ?c (CHR ''0'') = Some a1" "store a1 (?c + 1) (CHR ''x'') = Some a2"
    using l by (simp_all add: store_eq a1_def a2_def)
  have "take (?c + 2) a2 = take ?c ?a @ ''0x''" "length a2 = length ?a"
    using l by (simp_all add: a2_def)
  moreover have "convertHex a2 (?c + 2) v = Some (take (?c + 2) a2 @ hexadecimal v
      @ CHR 0x00 # drop (?c + 2 + length (hexadecimal v) + 1) a2, length (hexadecimal v))"
    using l \<open>length a2 = length ?a\<close> by (intro convertHex_eq) simp
  ultimately have "put_pointer v s = Some (fb_add (length (''0x'' @ hexadecimal v)) (s\<lparr>fb_data :=
      take ?c ?a @ (''0x'' @ hexadecimal v) @ CHR 0x00 # drop (?c + 2 + length (hexadecimal v) + 1) a2\<rparr>))"
    using True st by (simp add: put_pointer_def)
  then show ?thesis
    using l \<open>length a2 = length ?a\<close> numeric_appends [OF assms(1) True len] by simp
next
  case False
  then show ?thesis
    using appends_unchanged [OF assms(1), of 32] by (simp add: put_pointer_def kMaxNumericSize_def)
qed

lemma fb_append_char: "stream_inv s \<Longrightarrow> appends 2 [c] s (fb_append [c] 1 s)"
  using fb_append_appends [of s "[c]" 1] by (simp add: numeral_2_eq_2)

lemma put_item_appends:
  assumes "stream_inv s" and "item_ok it"
  shows "appends (item_space it) (item_text it) s (put_item it s)"
  using assms
proof (cases it)
  case (LCstr str)
  then show ?thesis
    using fb_append_appends [OF assms(1)] fb_append_appends [OF assms(1), of "''(null)''" 6]
    by (cases str) (simp_all add: put_cstr_def eval_nat_numeral)
qed (simp_all add: fb_append_appends fb_append_char formatInteger_appends put_double_appends
    put_pointer_appends [simplified]
    put_bool_def put_char_def put_string_def put_buffer_def put_fmt_def ls_append_def Fmt_new_def
    del: One_nat_def add_Suc_right)

subsection \<open>A sink for text\<close>

text \<open>
  The contract of the stream, for its clients: an insertion that is given the space it asks for
  appends its text, any other has no effect, and none can overrun the sink.
\<close>

locale text_sink =
  fixes put :: "'i \<Rightarrow> 's \<Rightarrow> 's option"
    and inv :: "'s \<Rightarrow> bool"
    and held :: "'s \<Rightarrow> string"
    and cap :: "'s \<Rightarrow> nat"
    and ok :: "'i \<Rightarrow> bool"
    and space :: "'i \<Rightarrow> nat"
    and repr :: "'i \<Rightarrow> string"
  assumes put_law: "inv s \<Longrightarrow> ok i \<Longrightarrow> \<exists>s'. put i s = Some s' \<and> inv s' \<and> cap s' = cap s
      \<and> held s' = (if length (held s) + space i \<le> cap s then held s @ repr i else held s)"
    and repr_law: "ok i \<Longrightarrow> length (repr i) < space i"
    and cap_law: "inv s \<Longrightarrow> length (held s) < cap s"
begin

lemma put_all:
  "inv s \<Longrightarrow> \<forall>i \<in> set is. ok i \<Longrightarrow> \<exists>s'. run_all put is s = Some s' \<and> inv s' \<and> cap s' = cap s
    \<and> held s' = fold (\<lambda>i t. if length t + space i \<le> cap s then t @ repr i else t) is (held s)"
proof (induction "is" arbitrary: s)
  case (Cons i "is")
  then obtain s1 where s1: "put i s = Some s1" "inv s1" "cap s1 = cap s"
    "held s1 = (if length (held s) + space i \<le> cap s then held s @ repr i else held s)"
    using put_law [of s i] by auto
  moreover obtain s2 where "run_all put is s1 = Some s2" "inv s2" "cap s2 = cap s1"
    "held s2 = fold (\<lambda>i t. if length t + space i \<le> cap s1 then t @ repr i else t) is (held s1)"
    using Cons.IH [OF s1(2)] Cons.prems by auto
  ultimately show ?case
    by simp
qed simp

lemma put_all_fits:
  assumes "inv s" and "\<forall>i \<in> set is. ok i"
    and "length (held s) + sum_list (map space is) \<le> cap s"
  shows "\<exists>s'. run_all put is s = Some s' \<and> inv s' \<and> cap s' = cap s
    \<and> held s' = held s @ concat (map repr is)"
  using assms
proof (induction "is" arbitrary: s)
  case (Cons i "is")
  then obtain s1 where s1: "put i s = Some s1" "inv s1" "cap s1 = cap s" "held s1 = held s @ repr i"
    using put_law [of s i] by auto
  moreover have "length (held s1) + sum_list (map space is) \<le> cap s1"
    using s1 Cons.prems(3) repr_law [of i] Cons.prems(2) by simp
  ultimately show ?case
    using Cons.IH [OF s1(2)] Cons.prems(2) by auto
qed simp

lemma put_all_bounded:
  assumes "inv s" and "\<forall>i \<in> set is. ok i"
  shows "\<exists>s'. run_all put is s = Some s' \<and> length (held s') < cap s"
  using put_all [OF assms] cap_law by fastforce

end

lemma item_text_space: "item_ok it \<Longrightarrow> length (item_text it) < item_space it"
  using length_decimal length_hexadecimal by (cases it) (fastforce split: option.split)+

interpretation ls: text_sink put_item stream_inv fb_toString "\<lambda>s. length (fb_data s)" item_ok
  item_space item_text
proof
  show "stream_inv s \<Longrightarrow> item_ok i \<Longrightarrow> \<exists>s'. put_item i s = Some s' \<and> stream_inv s'
      \<and> length (fb_data s') = length (fb_data s)
      \<and> fb_toString s' = (if length (fb_toString s) + item_space i \<le> length (fb_data s)
                          then fb_toString s @ item_text i else fb_toString s)" for s i
    using put_item_appends by (simp add: appends_def)
qed (simp_all add: item_text_space length_fb_toString stream_inv_def)

subsection \<open>Properties\<close>

text \<open>
  C12: A log stream never overruns its buffer, and its contents are the inserted texts. For any
  series of insertions of any types, every write stays inside the array and each insertion appends
  its whole text when there is room for it (32 characters for a number, the text and one more
  otherwise) and nothing otherwise. A formatted double takes less than 32 characters.
\<close>

theorem log_stream_text:
  assumes "stream_inv s" and "\<forall>it \<in> set its. item_ok it"
  shows "\<exists>s'. put_items its s = Some s' \<and> stream_inv s'
    \<and> length (fb_data s') = length (fb_data s)
    \<and> fb_toString s' = fold (emit (length (fb_data s))) its (fb_toString s)"
  using ls.put_all [OF assms] by (simp add: emit_def [abs_def])

lemma log_stream_text_witness:
  "stream_inv (FixedBuffer_new (replicate 60 CHR ''#''))
   \<and> (\<exists>s'. put_items [LCstr (Some ''fd = ''), LInteger (- 42), LPointer 255, LChar CHR ''!'']
          (FixedBuffer_new (replicate 60 CHR ''#'')) = Some s'
        \<and> fb_toString s' = ''fd = -420xFF!'')"
proof -
  let ?s = "FixedBuffer_new (replicate 60 CHR ''#'')"
  let ?its = "[LCstr (Some ''fd = ''), LInteger (- 42), LPointer 255, LChar CHR ''!'']"
  have i: "stream_inv ?s" "\<forall>it \<in> set ?its. item_ok it"
    by (simp_all add: stream_inv_def FixedBuffer_new_def)
  have "fold (emit (length (fb_data ?s))) ?its (fb_toString ?s) = ''fd = -420xFF!''"
    by (simp add: emit_def FixedBuffer_new_def fb_toString_def fb_length_def decimal_def
        hexadecimal_def in_base.simps digit_def)
  then show ?thesis
    using log_stream_text [OF i] i(1) by auto
qed

text \<open>
  C13: Numbers are printed exactly. Whenever 32 characters are free, inserting an integer of any
  type up to 64 bits, signed or unsigned (the most negative one included), appends a text of at most
  20 characters that reads back as this integer, and inserting a pointer appends \<open>0x\<close> and the
  hexadecimal digits of its value; with less room nothing is appended.
\<close>

theorem numbers_read_back:
  assumes "stream_inv s" and "- (2 ^ 63) \<le> v" "v < 2 ^ 64" and "p < 2 ^ 64"
  shows "if 32 \<le> fb_avail s
    then (\<exists>s' t. formatInteger v s = Some s' \<and> fb_toString s' = fb_toString s @ t
            \<and> decimal_value t = v \<and> length t \<le> 20)
       \<and> (\<exists>s' t. put_pointer p s = Some s' \<and> fb_toString s' = fb_toString s @ ''0x'' @ t
            \<and> base_value 16 t = p \<and> length t \<le> 16)
    else formatInteger v s = Some s \<and> put_pointer p s = Some s"
proof (cases "32 \<le> fb_avail s")
  case True
  then have "length (fb_toString s) + 32 \<le> length (fb_data s)"
    using assms(1) by (simp add: length_fb_toString fb_avail_def)
  then show ?thesis
    using True formatInteger_appends [OF assms(1-3)] put_pointer_appends [OF assms(1,4)]
      decimal_value_decimal [of v] length_decimal [OF assms(2,3)]
      base_value_in_base [of 16 p] length_hexadecimal [OF assms(4)]
    by (auto simp: appends_def hexadecimal_def)
next
  case False
  then show ?thesis
    by (simp add: formatInteger_def put_pointer_def kMaxNumericSize_def)
qed

lemma numbers_read_back_witness:
  "stream_inv (FixedBuffer_new (replicate 40 CHR ''#''))
   \<and> (\<exists>s' t. formatInteger (- (2 ^ 63)) (FixedBuffer_new (replicate 40 CHR ''#'')) = Some s'
        \<and> fb_toString s' = t \<and> decimal_value t = - (2 ^ 63))"
proof -
  have "stream_inv (FixedBuffer_new (replicate 40 CHR ''#''))"
    by (simp add: stream_inv_def FixedBuffer_new_def)
  from numbers_read_back [OF this, of "- (2 ^ 63)" 0] this show ?thesis
    by (auto simp: fb_avail_def FixedBuffer_new_def fb_toString_def fb_length_def)
qed

end
