(* ===== verification/Timestamp.thy ===== *)
theory Timestamp
  imports Complex_Main LogStreamProps TimeZone
begin

section \<open>Time stamps: \<open>base/timestamp.h\<close>, \<open>base/timestamp.cc\<close>\<close>

text \<open>
  Microseconds since the epoch, and the texts of times and dates (\<open>Date::toIsoString\<close> and the
  constructor of \<open>Date\<close> from a broken-down time are here because they need \<open>printf\<close> and \<open>struct tm\<close>).
  \<open>gmtime_r\<close> and \<open>gettimeofday\<close> are arguments. The property is that the printed time reads back.
\<close>

subsection \<open>The code\<close>

text \<open>The only member of the class is \<open>microSecondsSinceEpoch_\<close>, a 64-bit integer.\<close>

record Timestamp =
  microSecondsSinceEpoch :: int

definition kMicroSecondsPerSecond :: int where "kMicroSecondsPerSecond = 1000 * 1000"

definition Timestamp_invalid :: Timestamp where
  "Timestamp_invalid = \<lparr>microSecondsSinceEpoch = 0\<rparr>"

definition Timestamp_of :: "int \<Rightarrow> Timestamp" where
  "Timestamp_of us = \<lparr>microSecondsSinceEpoch = us\<rparr>"

definition Timestamp_swap :: "Timestamp \<Rightarrow> Timestamp \<Rightarrow> Timestamp \<times> Timestamp" where
  "Timestamp_swap this that = (that, this)"

definition Timestamp_valid :: "Timestamp \<Rightarrow> bool" where
  "Timestamp_valid t \<longleftrightarrow> microSecondsSinceEpoch t > 0"

definition secondsSinceEpoch :: "Timestamp \<Rightarrow> int" where
  "secondsSinceEpoch t = cdiv (microSecondsSinceEpoch t) kMicroSecondsPerSecond"

definition fromUnixTime :: "int \<Rightarrow> int \<Rightarrow> Timestamp option" where
  "fromUnixTime t microseconds = do {
     p \<leftarrow> ck64 (t * kMicroSecondsPerSecond);
     us \<leftarrow> ck64 (p + microseconds);
     Some (Timestamp_of us)
   }"

text \<open>\<open>gettimeofday\<close> returns seconds and microseconds.\<close>

definition Timestamp_now :: "int \<times> int \<Rightarrow> Timestamp option" where
  "Timestamp_now tv = do {
     p \<leftarrow> ck64 (fst tv * kMicroSecondsPerSecond);
     us \<leftarrow> ck64 (p + snd tv);
     Some (Timestamp_of us)
   }"

definition Timestamp_less :: "Timestamp \<Rightarrow> Timestamp \<Rightarrow> bool" where
  "Timestamp_less lhs rhs \<longleftrightarrow> microSecondsSinceEpoch lhs < microSecondsSinceEpoch rhs"

definition Timestamp_eq :: "Timestamp \<Rightarrow> Timestamp \<Rightarrow> bool" where
  "Timestamp_eq lhs rhs \<longleftrightarrow> microSecondsSinceEpoch lhs = microSecondsSinceEpoch rhs"

text \<open>
  A \<open>double\<close> is a rational number; \<open>rnd\<close> rounds the exact result of an operation to the nearest
  representable one. The conversion to an integer truncates and is undefined out of range.
\<close>

definition double_to_int64 :: "rat \<Rightarrow> int option" where
  "double_to_int64 d = ck64 (if d < 0 then - \<lfloor>- d\<rfloor> else \<lfloor>d\<rfloor>)"

definition timeDifference :: "(rat \<Rightarrow> rat) \<Rightarrow> Timestamp \<Rightarrow> Timestamp \<Rightarrow> rat option" where
  "timeDifference rnd high low = do {
     diff \<leftarrow> ck64 (microSecondsSinceEpoch high - microSecondsSinceEpoch low);
     Some (rnd (rnd (of_int diff) / of_int kMicroSecondsPerSecond))
   }"

definition addTime :: "(rat \<Rightarrow> rat) \<Rightarrow> Timestamp \<Rightarrow> rat \<Rightarrow> Timestamp option" where
  "addTime rnd t seconds = do {
     delta \<leftarrow> double_to_int64 (rnd (seconds * of_int kMicroSecondsPerSecond));
     us \<leftarrow> ck64 (microSecondsSinceEpoch t + delta);
     Some (Timestamp_of us)
   }"

text \<open>\<open>%0wd\<close> and \<open>%wd\<close> of \<open>printf\<close>, and what \<open>snprintf\<close> leaves in an array of \<open>n\<close> characters.\<close>

definition zero_pad :: "nat \<Rightarrow> int \<Rightarrow> string" where
  "zero_pad w z =
     (let sg = (if z < 0 then ''-'' else []); ds = in_base 10 (nat \<bar>z\<bar>)
      in sg @ replicate (w - length sg - length ds) (CHR ''0'') @ ds)"

definition space_pad :: "nat \<Rightarrow> int \<Rightarrow> string" where
  "space_pad w z = replicate (w - length (decimal z)) (CHR '' '') @ decimal z"

definition snprintf :: "nat \<Rightarrow> string \<Rightarrow> string" where
  "snprintf n txt = take (n - 1) txt"

definition Timestamp_toString :: "Timestamp \<Rightarrow> string" where
  "Timestamp_toString t =
     (let seconds = cdiv (microSecondsSinceEpoch t) kMicroSecondsPerSecond;
          microseconds = cmod (microSecondsSinceEpoch t) kMicroSecondsPerSecond
      in snprintf 31 (decimal seconds @ ''.'' @ zero_pad 6 microseconds))"

text \<open>\<open>%4d%02d%02d %02d:%02d:%02d\<close> of a broken-down time; the sums are \<open>int\<close>s.\<close>

definition date_time_text :: "tm \<Rightarrow> string option" where
  "date_time_text u = do {
     y \<leftarrow> ck32 (tm_year u + 1900);
     m \<leftarrow> ck32 (tm_mon u + 1);
     Some (space_pad 4 y @ zero_pad 2 m @ zero_pad 2 (tm_mday u) @ '' '' @ zero_pad 2 (tm_hour u)
       @ '':'' @ zero_pad 2 (tm_min u) @ '':'' @ zero_pad 2 (tm_sec u))
   }"

definition toFormattedString :: "(int \<Rightarrow> tm) \<Rightarrow> bool \<Rightarrow> Timestamp \<Rightarrow> string option" where
  "toFormattedString gmtime_r showMicroseconds t = do {
     let seconds = cdiv (microSecondsSinceEpoch t) kMicroSecondsPerSecond;
     txt \<leftarrow> date_time_text (gmtime_r seconds);
     if showMicroseconds
     then let microseconds = cast_int32 (cmod (microSecondsSinceEpoch t) kMicroSecondsPerSecond)
          in Some (snprintf 32 (txt @ ''.'' @ zero_pad 6 microseconds))
     else Some (snprintf 32 txt)
   }"

definition Date_of_tm :: "tm \<Rightarrow> Date option" where
  "Date_of_tm t = do {
     y \<leftarrow> ck32 (tm_year t + 1900);
     m \<leftarrow> ck32 (tm_mon t + 1);
     Date_of_ymd y m (tm_mday t)
   }"

definition toIsoString :: "Date \<Rightarrow> string option" where
  "toIsoString d = do {
     ymd \<leftarrow> yearMonthDay d;
     Some (snprintf 32 (space_pad 4 (year ymd) @ ''-'' @ zero_pad 2 (month ymd) @ ''-'' @ zero_pad 2 (day ymd)))
   }"

subsection \<open>Facts\<close>

lemma zero_pad_small:
  assumes "0 \<le> z" and "z < 10 ^ Suc k"
  shows "length (zero_pad (Suc k) z) = Suc k" and "base_value 10 (zero_pad (Suc k) z) = nat z"
proof -
  have l: "length (in_base 10 (nat z)) \<le> Suc k"
    using assms by (intro in_base_length) (simp_all add: nat_less_iff)
  then show "length (zero_pad (Suc k) z) = Suc k"
    using assms(1) by (simp add: zero_pad_def Let_def)
  have "foldl (\<lambda>v c. 10 * v + digit_value c) 0 (replicate n (CHR ''0'')) = 0" for n
    by (induction n) (simp_all add: digit_value_def)
  then show "base_value 10 (zero_pad (Suc k) z) = nat z"
    using assms(1) base_value_in_base [of 10 "nat z"] by (simp add: zero_pad_def Let_def base_value_def)
qed

lemma digit_no_dot: "n < 16 \<Longrightarrow> digit n \<noteq> CHR ''.''"
  by (rule digit_by_digit [of "\<lambda>n. digit n \<noteq> CHR ''.''" 16]) code_simp

lemma in_base_no_dot: "2 \<le> b \<Longrightarrow> b \<le> 16 \<Longrightarrow> CHR ''.'' \<notin> set (in_base b n)"
proof (induction n rule: less_induct)
  case (less n)
  have "n mod b < 16"
    using less.prems mod_less_divisor [of b n] by linarith
  with less show ?case
    using digit_no_dot [of n] digit_no_dot [of "n mod b"]
    by (cases "n < b") (auto simp: in_base_small in_base_step)
qed

lemma decimal_no_dot: "CHR ''.'' \<notin> set (decimal z)"
  using in_base_no_dot [of 10] by (simp add: decimal_def)

lemma kMicro_eq: "kMicroSecondsPerSecond = 1000000"
  by (simp add: kMicroSecondsPerSecond_def)

subsection \<open>Properties\<close>

text \<open>
  C14: A time stamp prints exactly. For every time since the epoch, \<open>toString\<close> is the number of
  seconds, a point and six digits; no character is cut off, and the two numbers around the point
  read back as the time in microseconds.
\<close>

theorem timestamp_text_reads_back:
  assumes "0 \<le> microSecondsSinceEpoch t" and "microSecondsSinceEpoch t < 2 ^ 63"
  defines "txt \<equiv> Timestamp_toString t"
  shows "length (dropWhile (\<lambda>c. c \<noteq> CHR ''.'') txt) = 7
    \<and> decimal_value (takeWhile (\<lambda>c. c \<noteq> CHR ''.'') txt) * 1000000
      + int (base_value 10 (tl (dropWhile (\<lambda>c. c \<noteq> CHR ''.'') txt))) = microSecondsSinceEpoch t"
proof -
  define s u where "s = microSecondsSinceEpoch t div 1000000" and "u = microSecondsSinceEpoch t mod 1000000"
  have su: "0 \<le> s" "s < 2 ^ 63" "0 \<le> u" "u < 10 ^ Suc 5" "s * 1000000 + u = microSecondsSinceEpoch t"
    using assms(1,2) by (simp_all add: s_def u_def)
  have z: "length (zero_pad 6 u) = 6" "base_value 10 (zero_pad 6 u) = nat u"
    using zero_pad_small [OF su(3,4)] by (simp_all add: eval_nat_numeral)
  have "length (decimal s) \<le> 20"
    using su by (intro length_decimal) simp_all
  with z have tx: "txt = decimal s @ CHR ''.'' # zero_pad 6 u"
    using assms(1)
    by (simp add: txt_def Timestamp_toString_def snprintf_def kMicro_eq cdiv_nonneg cmod_nonneg
        s_def u_def Let_def)
  have "takeWhile (\<lambda>c. c \<noteq> CHR ''.'') txt = decimal s"
    "dropWhile (\<lambda>c. c \<noteq> CHR ''.'') txt = CHR ''.'' # zero_pad 6 u"
    using decimal_no_dot [of s] unfolding tx
    by (auto simp: takeWhile_append dropWhile_append)
  then show ?thesis
    using z su(3,5) by (simp add: decimal_value_decimal)
qed

lemma timestamp_text_reads_back_witness:
  "decimal_value (takeWhile (\<lambda>c. c \<noteq> CHR ''.'') (Timestamp_toString (Timestamp_of 1500000))) * 1000000
    + int (base_value 10 (tl (dropWhile (\<lambda>c. c \<noteq> CHR ''.'') (Timestamp_toString (Timestamp_of 1500000)))))
    = 1500000"
  using timestamp_text_reads_back [of "Timestamp_of 1500000"] by (simp add: Timestamp_of_def)

text \<open>
  A time before the epoch, however, prints a sign in front of its microseconds, and none in front
  of its seconds in the last second before 1970.
\<close>

lemma timestamp_text_negative: "Timestamp_toString (Timestamp_of (- 1)) = ''0.-00001''"
  by code_simp

end
