(* ===== verification/Logging.thy ===== *)
theory Logging
  imports Timestamp
begin

section \<open>Logging: \<open>base/logging.h\<close>, \<open>base/logging.cc\<close>\<close>

text \<open>
  The logger over the stream of \<open>LogStream\<close>: levels, source file names, the cached text of the
  second, construction and destruction of a \<open>Logger\<close>, and the statements the macros expand to. The
  current time, \<open>gmtime_r\<close> and \<open>strerror_tl\<close> are arguments; the output is the text passed to
  \<open>g_output\<close>. The property gives the exact text of a log line, proved over the contract \<open>text_sink\<close>.
\<close>

subsection \<open>The code\<close>

datatype LogLevel = TRACE | DEBUG | INFO | WARN | ERROR | FATAL

fun level_num :: "LogLevel \<Rightarrow> nat" where
  "level_num TRACE = 0" | "level_num DEBUG = 1" | "level_num INFO = 2"
| "level_num WARN = 3" | "level_num ERROR = 4" | "level_num FATAL = 5"

fun LogLevelName :: "LogLevel \<Rightarrow> string" where
  "LogLevelName TRACE = ''TRACE ''" | "LogLevelName DEBUG = ''DEBUG ''"
| "LogLevelName INFO = ''INFO  ''" | "LogLevelName WARN = ''WARN  ''"
| "LogLevelName ERROR = ''ERROR ''" | "LogLevelName FATAL = ''FATAL ''"

text \<open>\<open>SourceFile\<close>: the characters after the last slash; \<open>strrchr\<close> scans the name from the left.\<close>

fun strrchr :: "string \<Rightarrow> char \<Rightarrow> string option" where
  "strrchr [] c = None"
| "strrchr (x # xs) c =
     (case strrchr xs c of Some r \<Rightarrow> Some r | None \<Rightarrow> if x = c then Some (x # xs) else None)"

definition SourceFile :: "string \<Rightarrow> string" where
  "SourceFile arr = (case strrchr arr (CHR ''/'') of Some slash \<Rightarrow> tl slash | None \<Rightarrow> arr)"

text \<open>
  The globals of the process, and the thread-local cache of the formatted second. \<open>t_time\<close> is a C
  string in an array of 32 characters, initially empty.
\<close>

record log_globals =
  g_logLevel :: LogLevel
  g_logTimeZone :: TimeZone

record log_thread =
  t_time :: string
  t_lastSecond :: int
  tidString :: string
  tidStringLength :: nat

definition initLogLevel :: LogLevel where "initLogLevel = TRACE"

definition log_globals_init :: log_globals where
  "log_globals_init = \<lparr>g_logLevel = initLogLevel, g_logTimeZone = None\<rparr>"

definition setLogLevel :: "LogLevel \<Rightarrow> log_globals \<Rightarrow> log_globals" where
  "setLogLevel l g = g\<lparr>g_logLevel := l\<rparr>"

definition setTimeZone :: "TimeZone \<Rightarrow> log_globals \<Rightarrow> log_globals" where
  "setTimeZone tz g = g\<lparr>g_logTimeZone := tz\<rparr>"

text \<open>\<open>stream << T(str, len)\<close>: the constructor of \<open>T\<close> asserts the length.\<close>

definition put_T :: "string \<Rightarrow> nat \<Rightarrow> log_stream \<Rightarrow> log_stream option" where
  "put_T str len s = do { assert_that (length str = len); ls_append str len s }"

definition put_SourceFile :: "string \<Rightarrow> log_stream \<Rightarrow> log_stream option" where
  "put_SourceFile v s = ls_append v (length v) s"

record logger_impl =
  lg_time :: Timestamp
  lg_stream :: log_stream
  lg_level :: LogLevel
  lg_line :: int
  lg_basename :: string

definition formatTime ::
    "(int \<Rightarrow> tm) \<Rightarrow> log_globals \<Rightarrow> logger_impl \<Rightarrow> log_thread \<Rightarrow> (logger_impl \<times> log_thread) option" where
  "formatTime gmtime_r g impl th = do {
     let us = microSecondsSinceEpoch (lg_time impl);
     let seconds = cdiv us kMicroSecondsPerSecond;
     let microseconds = cast_int32 (cmod us kMicroSecondsPerSecond);
     th1 \<leftarrow>
       (if seconds \<noteq> t_lastSecond th then do {
          tm_time \<leftarrow> (if TimeZone_valid (g_logTimeZone g)
                      then toLocalTime gmtime_r (g_logTimeZone g) seconds
                      else Some (gmtime_r seconds));
          txt \<leftarrow> date_time_text tm_time;
          assert_that (length txt = 17);
          Some (th\<lparr>t_lastSecond := seconds, t_time := snprintf 32 txt\<rparr>) }
        else Some th);
     if TimeZone_valid (g_logTimeZone g) then do {
       u \<leftarrow> Fmt_new (''.'' @ zero_pad 6 microseconds @ '' '');
       assert_that (length u = 8);
       s1 \<leftarrow> put_T (t_time th1) 17 (lg_stream impl);
       s2 \<leftarrow> put_T u 8 s1;
       Some (impl\<lparr>lg_stream := s2\<rparr>, th1) }
     else do {
       u \<leftarrow> Fmt_new (''.'' @ zero_pad 6 microseconds @ ''Z '');
       assert_that (length u = 9);
       s1 \<leftarrow> put_T (t_time th1) 17 (lg_stream impl);
       s2 \<leftarrow> put_T u 9 s1;
       Some (impl\<lparr>lg_stream := s2\<rparr>, th1) }
   }"

text \<open>
  The constructor of \<open>Impl\<close>. The time of \<open>Timestamp::now()\<close>, the uninitialised array of the stream and
  \<open>strerror_tl\<close> are arguments.
\<close>

definition Impl_new ::
    "(int \<Rightarrow> tm) \<Rightarrow> (int \<Rightarrow> string) \<Rightarrow> log_globals \<Rightarrow> string \<Rightarrow> Timestamp \<Rightarrow> LogLevel \<Rightarrow> int \<Rightarrow> string \<Rightarrow> int
      \<Rightarrow> log_thread \<Rightarrow> (logger_impl \<times> log_thread) option" where
  "Impl_new gmtime_r strerror_tl g junk now level savedErrno file line th = do {
     let impl0 = \<lparr>lg_time = now, lg_stream = FixedBuffer_new junk, lg_level = level, lg_line = line,
                  lg_basename = file\<rparr>;
     (impl, th1) \<leftarrow> formatTime gmtime_r g impl0 th;
     s1 \<leftarrow> put_T (tidString th1) (tidStringLength th1) (lg_stream impl);
     s2 \<leftarrow> put_T (LogLevelName level) 6 s1;
     s3 \<leftarrow> (if savedErrno \<noteq> 0
            then put_items [LCstr (Some (strerror_tl savedErrno)), LCstr (Some '' (errno=''),
                            LInteger savedErrno, LCstr (Some '') '')] s2
            else Some s2);
     Some (impl\<lparr>lg_stream := s3\<rparr>, th1)
   }"

definition Impl_finish :: "logger_impl \<Rightarrow> logger_impl option" where
  "Impl_finish impl = do {
     s1 \<leftarrow> put_item (LCstr (Some '' - '')) (lg_stream impl);
     s2 \<leftarrow> put_SourceFile (lg_basename impl) s1;
     s3 \<leftarrow> put_items [LChar (CHR '':''), LInteger (lg_line impl), LChar (CHR 0x0A)] s2;
     Some (impl\<lparr>lg_stream := s3\<rparr>)
   }"

text \<open>The four constructors of \<open>Logger\<close>.\<close>

datatype logger_kind =
    Logger_default
  | Logger_level LogLevel
  | Logger_func LogLevel string
  | Logger_abort bool int

text \<open>The last one carries \<open>toAbort\<close> and the value of \<open>errno\<close>.\<close>

fun kind_level :: "logger_kind \<Rightarrow> LogLevel" where
  "kind_level Logger_default = INFO"
| "kind_level (Logger_level l) = l"
| "kind_level (Logger_func l f) = l"
| "kind_level (Logger_abort toAbort e) = (if toAbort then FATAL else ERROR)"

fun kind_errno :: "logger_kind \<Rightarrow> int" where
  "kind_errno (Logger_abort toAbort e) = e"
| "kind_errno _ = 0"

fun kind_func :: "logger_kind \<Rightarrow> log_item list" where
  "kind_func (Logger_func l f) = [LCstr (Some f), LChar (CHR '' '')]"
| "kind_func _ = []"

definition Logger_new ::
    "(int \<Rightarrow> tm) \<Rightarrow> (int \<Rightarrow> string) \<Rightarrow> log_globals \<Rightarrow> string \<Rightarrow> Timestamp \<Rightarrow> logger_kind \<Rightarrow> string \<Rightarrow> int
      \<Rightarrow> log_thread \<Rightarrow> (logger_impl \<times> log_thread) option" where
  "Logger_new gmtime_r strerror_tl g junk now k file line th = do {
     (impl, th1) \<leftarrow>
       Impl_new gmtime_r strerror_tl g junk now (kind_level k) (kind_errno k) file line th;
     s \<leftarrow> put_items (kind_func k) (lg_stream impl);
     Some (impl\<lparr>lg_stream := s\<rparr>, th1)
   }"

text \<open>
  The destructor: what is passed to \<open>g_output\<close>, and whether the process is flushed and aborted.
\<close>

datatype log_end = Continue | Flush_and_abort

definition Logger_destroy :: "logger_impl \<Rightarrow> (string \<times> log_end) option" where
  "Logger_destroy impl = do {
     impl1 \<leftarrow> Impl_finish impl;
     Some (fb_toString (lg_stream impl1), if lg_level impl1 = FATAL then Flush_and_abort else Continue)
   }"

text \<open>
  The logging macros: a statement \<open>LOG_X << items\<close>. \<open>LOG_TRACE\<close>, \<open>LOG_DEBUG\<close> and \<open>LOG_INFO\<close> compare
  the level first; the others always log.
\<close>

datatype log_macro = M_TRACE | M_DEBUG | M_INFO | M_WARN | M_ERROR | M_FATAL | M_SYSERR | M_SYSFATAL

fun macro_enabled :: "log_macro \<Rightarrow> LogLevel \<Rightarrow> bool" where
  "macro_enabled M_TRACE l \<longleftrightarrow> level_num l \<le> level_num TRACE"
| "macro_enabled M_DEBUG l \<longleftrightarrow> level_num l \<le> level_num DEBUG"
| "macro_enabled M_INFO l \<longleftrightarrow> level_num l \<le> level_num INFO"
| "macro_enabled _ l \<longleftrightarrow> True"

fun macro_kind :: "log_macro \<Rightarrow> string \<Rightarrow> int \<Rightarrow> logger_kind" where
  "macro_kind M_TRACE f e = Logger_func TRACE f"
| "macro_kind M_DEBUG f e = Logger_func DEBUG f"
| "macro_kind M_INFO f e = Logger_default"
| "macro_kind M_WARN f e = Logger_level WARN"
| "macro_kind M_ERROR f e = Logger_level ERROR"
| "macro_kind M_FATAL f e = Logger_level FATAL"
| "macro_kind M_SYSERR f e = Logger_abort False e"
| "macro_kind M_SYSFATAL f e = Logger_abort True e"

definition log_statement ::
    "(int \<Rightarrow> tm) \<Rightarrow> (int \<Rightarrow> string) \<Rightarrow> log_globals \<Rightarrow> string \<Rightarrow> Timestamp \<Rightarrow> int \<Rightarrow> log_macro
      \<Rightarrow> string \<Rightarrow> string \<Rightarrow> int \<Rightarrow> log_item list \<Rightarrow> log_thread
      \<Rightarrow> ((string \<times> log_end) option \<times> log_thread) option" where
  "log_statement gmtime_r strerror_tl g junk now err mac func file line items th =
     (if macro_enabled mac (g_logLevel g) then do {
        (impl, th1) \<leftarrow> Logger_new gmtime_r strerror_tl g junk now (macro_kind mac func err)
                        (SourceFile file) line th;
        s \<leftarrow> put_items items (lg_stream impl);
        r \<leftarrow> Logger_destroy (impl\<lparr>lg_stream := s\<rparr>);
        Some (Some r, th1) }
      else Some (None, th))"

definition CheckNotNull ::
    "(int \<Rightarrow> tm) \<Rightarrow> (int \<Rightarrow> string) \<Rightarrow> log_globals \<Rightarrow> string \<Rightarrow> Timestamp \<Rightarrow> string \<Rightarrow> int \<Rightarrow> string \<Rightarrow> 'a option
      \<Rightarrow> log_thread \<Rightarrow> ((string \<times> log_end) option \<times> log_thread) option" where
  "CheckNotNull gmtime_r strerror_tl g junk now file line nam ptr th =
     (case ptr of
        None \<Rightarrow> do {
          (impl, th1) \<leftarrow> Logger_new gmtime_r strerror_tl g junk now (Logger_level FATAL) file line th;
          s \<leftarrow> put_item (LCstr (Some nam)) (lg_stream impl);
          r \<leftarrow> Logger_destroy (impl\<lparr>lg_stream := s\<rparr>);
          Some (Some r, th1) }
      | Some p \<Rightarrow> Some (None, th))"

subsection \<open>Facts\<close>

lemma strrchr_None: "strrchr xs c = None \<longleftrightarrow> c \<notin> set xs"
  by (induction xs) (auto split: option.splits)

lemma takeWhile_rev_all: "c \<notin> set xs \<Longrightarrow> takeWhile (\<lambda>x. x \<noteq> c) (rev xs) = rev xs"
  by (auto simp: takeWhile_eq_all_conv)

lemma strrchr_Some:
  "strrchr xs c = Some r \<Longrightarrow> tl r = rev (takeWhile (\<lambda>x. x \<noteq> c) (rev xs))"
proof (induction xs arbitrary: r)
  case (Cons x xs)
  show ?case
  proof (cases "strrchr xs c")
    case None
    then have x: "x = c" "r = x # xs"
      using Cons.prems by (simp_all split: if_splits)
    from None have "c \<notin> set xs"
      by (simp add: strrchr_None)
    then have "takeWhile (\<lambda>x. x \<noteq> c) (rev xs) = rev xs"
      by (simp add: takeWhile_rev_all)
    then show ?thesis
      using x by (simp add: takeWhile_append)
  next
    case (Some r')
    then have "c \<in> set (rev xs)" "r = r'"
      using strrchr_None [of xs c] Cons.prems by auto
    then show ?thesis
      using Cons.IH Some by (simp add: takeWhile_append1 [where x = c])
  qed
qed simp

lemma SourceFile_eq: "SourceFile file = rev (takeWhile (\<lambda>c. c \<noteq> CHR ''/'') (rev file))"
proof (cases "strrchr file (CHR ''/'')")
  case None
  then have "CHR ''/'' \<notin> set file"
    by (simp add: strrchr_None)
  then show ?thesis
    unfolding SourceFile_def None by (subst takeWhile_rev_all) simp_all
next
  case (Some r)
  then show ?thesis
    using strrchr_Some [OF Some] by (simp add: SourceFile_def)
qed

text \<open>Helpers of the logger are insertions of strings.\<close>

lemma put_T_item: "length str = len \<Longrightarrow> put_T str len s = put_item (LString str) s"
  by (simp add: put_T_def put_string_def ls_append_def)

lemma put_SourceFile_item: "put_SourceFile v s = put_item (LString v) s"
  by (simp add: put_SourceFile_def put_string_def ls_append_def)

lemma length_LogLevelName: "length (LogLevelName l) = 6"
  by (cases l) simp_all

text \<open>The formatted second in force, and the text of the microseconds.\<close>

definition second_text :: "(int \<Rightarrow> tm) \<Rightarrow> TimeZone \<Rightarrow> int \<Rightarrow> string option" where
  "second_text gmtime_r tz seconds =
     (if TimeZone_valid tz then toLocalTime gmtime_r tz seconds \<bind> date_time_text
      else date_time_text (gmtime_r seconds))"

definition micro_text :: "TimeZone \<Rightarrow> int \<Rightarrow> string" where
  "micro_text tz us =
     ''.'' @ zero_pad 6 (us mod 1000000) @ (if TimeZone_valid tz then '' '' else ''Z '')"

text \<open>
  The specification of a line, macro by macro: the level as it is printed, the error number for the \<open>SYS\<close>
  macros and the function for the two lowest levels; and the log levels at which a macro logs.
\<close>

definition errno_items :: "(int \<Rightarrow> string) \<Rightarrow> int \<Rightarrow> log_item list" where
  "errno_items strerror_tl e =
     (if e = 0 then [] else [LCstr (Some (strerror_tl e)), LCstr (Some '' (errno=''), LInteger e, LCstr (Some '') '')])"

definition head_items :: "(int \<Rightarrow> string) \<Rightarrow> log_macro \<Rightarrow> string \<Rightarrow> int \<Rightarrow> string \<Rightarrow> log_item list" where
  "head_items strerror_tl mac func err tid = LString tid # (case mac of
       M_TRACE \<Rightarrow> [LString ''TRACE '', LCstr (Some func), LChar (CHR '' '')]
     | M_DEBUG \<Rightarrow> [LString ''DEBUG '', LCstr (Some func), LChar (CHR '' '')]
     | M_INFO \<Rightarrow> [LString ''INFO  '']
     | M_WARN \<Rightarrow> [LString ''WARN  '']
     | M_ERROR \<Rightarrow> [LString ''ERROR '']
     | M_FATAL \<Rightarrow> [LString ''FATAL '']
     | M_SYSERR \<Rightarrow> LString ''ERROR '' # errno_items strerror_tl err
     | M_SYSFATAL \<Rightarrow> LString ''FATAL '' # errno_items strerror_tl err)"

definition logs_at :: "log_macro \<Rightarrow> LogLevel \<Rightarrow> bool" where
  "logs_at mac l \<longleftrightarrow> (case mac of
       M_TRACE \<Rightarrow> l \<in> {TRACE}
     | M_DEBUG \<Rightarrow> l \<in> {TRACE, DEBUG}
     | M_INFO \<Rightarrow> l \<in> {TRACE, DEBUG, INFO}
     | _ \<Rightarrow> True)"

lemma head_items_eq:
  "head_items strerror_tl mac func err tid =
     (let k = macro_kind mac func err; e = kind_errno k
      in [LString tid, LString (LogLevelName (kind_level k))]
         @ (if e \<noteq> 0 then [LCstr (Some (strerror_tl e)), LCstr (Some '' (errno=''), LInteger e,
                           LCstr (Some '') '')] else [])
         @ kind_func k)"
  by (cases mac) (simp_all add: head_items_def errno_items_def Let_def)

lemma logs_at_eq: "logs_at mac l = macro_enabled mac l"
  by (cases mac; cases l) (simp_all add: logs_at_def)

definition tail_items :: "string \<Rightarrow> int \<Rightarrow> log_item list" where
  "tail_items file line =
     [LCstr (Some '' - ''), LString (rev (takeWhile (\<lambda>c. c \<noteq> CHR ''/'') (rev file))), LChar (CHR '':''),
      LInteger line, LChar (CHR 0x0A)]"

text \<open>The second of the cache is the one that is formatted, unless its text is another one.\<close>

definition cache_ok :: "(int \<Rightarrow> tm) \<Rightarrow> TimeZone \<Rightarrow> log_thread \<Rightarrow> int \<Rightarrow> bool" where
  "cache_ok gmtime_r tz th seconds \<longleftrightarrow>
     (t_lastSecond th = seconds \<longrightarrow> second_text gmtime_r tz seconds = Some (t_time th))"

lemma formatTime_items:
  assumes "0 \<le> us" and "second_text gmt (g_logTimeZone g) (us div 1000000) = Some tt"
    and "length tt = 17" and "cache_ok gmt (g_logTimeZone g) th (us div 1000000)"
    and "lg_time impl = Timestamp_of us"
  shows "formatTime gmt g impl th = do {
    s \<leftarrow> put_items [LString tt, LString (micro_text (g_logTimeZone g) us)] (lg_stream impl);
    Some (impl\<lparr>lg_stream := s\<rparr>, th\<lparr>t_lastSecond := us div 1000000, t_time := tt\<rparr>) }"
proof -
  let ?tz = "g_logTimeZone g" and ?z = "zero_pad 6 (us mod 1000000)"
  have sec: "cdiv us kMicroSecondsPerSecond = us div 1000000"
    "cast_int32 (cmod us kMicroSecondsPerSecond) = us mod 1000000"
    using assms(1) by (simp_all add: kMicro_eq cdiv_nonneg cmod_nonneg cast_int32_id int_limits)
  have z: "length ?z = 6"
    using zero_pad_small(1) [of "us mod 1000000" 5] by (simp add: eval_nat_numeral)
  have th: "(if us div 1000000 \<noteq> t_lastSecond th then do {
          tm_time \<leftarrow> (if TimeZone_valid ?tz then toLocalTime gmt ?tz (us div 1000000)
                      else Some (gmt (us div 1000000)));
          txt \<leftarrow> date_time_text tm_time;
          assert_that (length txt = 17);
          Some (th\<lparr>t_lastSecond := us div 1000000, t_time := snprintf 32 txt\<rparr>) }
        else Some th) = Some (th\<lparr>t_lastSecond := us div 1000000, t_time := tt\<rparr>)"
    using assms(2-4)
    by (cases "TimeZone_valid ?tz"; cases "toLocalTime gmt ?tz (us div 1000000)")
      (auto simp: second_text_def cache_ok_def snprintf_def)
  show ?thesis
    unfolding formatTime_def assms(5) Let_def Timestamp_of_def Timestamp.select_convs sec th
    by (simp add: put_T_item assms(3) z micro_text_def Fmt_new_def)
qed

lemma Logger_new_items:
  assumes "0 \<le> us" and "second_text gmt (g_logTimeZone g) (us div 1000000) = Some tt"
    and "length tt = 17" and "cache_ok gmt (g_logTimeZone g) th (us div 1000000)"
    and "length (tidString th) = tidStringLength th"
  shows "Logger_new gmt strerror_tl g junk (Timestamp_of us) (macro_kind mac func err) file line th = do {
    s \<leftarrow> put_items ([LString tt, LString (micro_text (g_logTimeZone g) us)]
           @ head_items strerror_tl mac func err (tidString th)) (FixedBuffer_new junk);
    Some (\<lparr>lg_time = Timestamp_of us, lg_stream = s, lg_level = kind_level (macro_kind mac func err),
            lg_line = line, lg_basename = file\<rparr>, th\<lparr>t_lastSecond := us div 1000000, t_time := tt\<rparr>) }"
proof -
  let ?first = "[LString tt, LString (micro_text (g_logTimeZone g) us)]"
  show ?thesis
    unfolding Logger_new_def Impl_new_def Let_def run_all_append
    by (subst formatTime_items [OF assms(1-4)])
      (simp_all add: head_items_eq Let_def put_T_item assms(5) length_LogLevelName bind_assoc
        run_all_append del: put_item.simps)
qed

lemma Impl_finish_items:
  assumes "lg_basename impl = SourceFile file"
  shows "Impl_finish impl = do {
    s \<leftarrow> put_items (tail_items file (lg_line impl)) (lg_stream impl); Some (impl\<lparr>lg_stream := s\<rparr>) }"
  unfolding Impl_finish_def tail_items_def assms SourceFile_eq put_SourceFile_item
  by (simp add: bind_assoc del: put_item.simps)

subsection \<open>Properties\<close>

text \<open>
  C15: The text of a log line. When everything a logging statement inserts fits into the buffer of
  4000 characters, exactly one message is output: date and time to the second (the cached text when
  the second has not changed), six digits of microseconds, thread id, the name of the level of the
  macro, for \<open>LOG_SYSERR\<close> and \<open>LOG_SYSFATAL\<close> the error number, for \<open>LOG_TRACE\<close> and \<open>LOG_DEBUG\<close> the function,
  the inserted texts in order, the file name without its directories, the line number and a newline.
  \<open>LOG_FATAL\<close> and \<open>LOG_SYSFATAL\<close> abort the process after the output, no other does. \<open>LOG_TRACE\<close>, \<open>LOG_DEBUG\<close>
  and \<open>LOG_INFO\<close> output nothing when the log level is above theirs; the other macros log at every level.
\<close>

theorem log_line:
  assumes "0 \<le> us" and "second_text gmtime_r (g_logTimeZone g) (us div 1000000) = Some tt"
    and "length tt = 17" and "cache_ok gmtime_r (g_logTimeZone g) th (us div 1000000)"
    and "length (tidString th) = tidStringLength th" and "length junk = kSmallBuffer"
    and "\<forall>it \<in> set (head_items strerror_tl mac func err (tidString th) @ items @ tail_items file line).
           item_ok it"
    and "28 + sum_list (map item_space
           (head_items strerror_tl mac func err (tidString th) @ items @ tail_items file line)) \<le> 4000"
  shows "log_statement gmtime_r strerror_tl g junk (Timestamp_of us) err mac func file line items th =
    (if logs_at mac (g_logLevel g)
     then Some (Some (tt @ micro_text (g_logTimeZone g) us @ concat (map item_text
              (head_items strerror_tl mac func err (tidString th) @ items @ tail_items file line)),
            if mac = M_FATAL \<or> mac = M_SYSFATAL then Flush_and_abort else Continue),
          th\<lparr>t_lastSecond := us div 1000000, t_time := tt\<rparr>)
     else Some (None, th))"
proof -
  let ?first = "[LString tt, LString (micro_text (g_logTimeZone g) us)]"
  let ?rest = "head_items strerror_tl mac func err (tidString th) @ items @ tail_items file line"
  have z: "length (micro_text (g_logTimeZone g) us) \<le> 9"
    using zero_pad_small(1) [of "us mod 1000000" 5] by (simp add: micro_text_def eval_nat_numeral)
  have "stream_inv (FixedBuffer_new junk)" "fb_toString (FixedBuffer_new junk) = []"
    "length (fb_data (FixedBuffer_new junk)) = 4000"
    using assms(6)
    by (simp_all add: stream_inv_def FixedBuffer_new_def fb_toString_def fb_length_def kSmallBuffer_def)
  moreover have "\<forall>it \<in> set (?first @ ?rest). item_ok it"
    using assms(7) by simp
  moreover have "sum_list (map item_space (?first @ ?rest)) \<le> 4000"
    using assms(3,8) z by simp
  ultimately obtain s where s: "put_items (?first @ ?rest) (FixedBuffer_new junk) = Some s"
    "fb_toString s = concat (map item_text (?first @ ?rest))"
    using ls.put_all_fits [of "FixedBuffer_new junk" "?first @ ?rest"] by auto
  have lvl: "kind_level (macro_kind mac func err) = FATAL \<longleftrightarrow> mac = M_FATAL \<or> mac = M_SYSFATAL"
    by (cases mac) simp_all
  have "do { s1 \<leftarrow> put_items (?first @ head_items strerror_tl mac func err (tidString th))
               (FixedBuffer_new junk);
             s2 \<leftarrow> put_items items s1; put_items (tail_items file line) s2 } = Some s"
    using s(1) by (simp only: run_all_append append_assoc [symmetric] bind_assoc)
  then obtain s1 s2 where "put_items (?first @ head_items strerror_tl mac func err (tidString th))
      (FixedBuffer_new junk) = Some s1" "put_items items s1 = Some s2"
    "put_items (tail_items file line) s2 = Some s"
    by (auto simp: bind_eq_Some_conv simp del: run_all.simps append.simps)
  then show ?thesis
    using s(2) lvl
    by (simp add: log_statement_def logs_at_eq Logger_new_items [OF assms(1-5)] Logger_destroy_def
        Impl_finish_items del: run_all.simps append.simps)
qed

text \<open>An array of the size of the stream's buffer.\<close>

definition sample_array :: string where
  "sample_array = replicate 4000 (CHR ''#'')"

lemma length_sample_array: "length sample_array = kSmallBuffer"
  unfolding sample_array_def kSmallBuffer_def by (rule length_replicate)

definition sample_clock :: "int \<Rightarrow> tm" where
  "sample_clock s = tm_zero\<lparr>tm_year := 70, tm_mday := 1, tm_sec := s\<rparr>"

lemma sample_texts:
  "decimal 1970 = ''1970''" "zero_pad 2 0 = ''00''" "zero_pad 2 1 = ''01''"
  "zero_pad 6 500000 = ''500000''" "decimal 5 = ''5''" "decimal 7 = ''7''"
  by (simp_all add: decimal_def zero_pad_def Let_def in_base.simps digit_def)

lemma log_line_witness:
  "length sample_array = kSmallBuffer
   \<and> log_statement sample_clock (\<lambda>e. ''error'') log_globals_init
       sample_array (Timestamp_of 1500000) 0 M_WARN ''main'' ''src/a.cc'' 7
       [LCstr (Some ''x = ''), LInteger 5]
       \<lparr>t_time = '''', t_lastSecond = 0, tidString = '' 1234 '', tidStringLength = 6\<rparr>
     = Some (Some (''19700101 00:00:01.500000Z  1234 WARN  x = 5 - a.cc:7'' @ [CHR 0x0A], Continue),
             \<lparr>t_time = ''19700101 00:00:01'', t_lastSecond = 1, tidString = '' 1234 '',
              tidStringLength = 6\<rparr>)"
proof -
  let ?th = "\<lparr>t_time = '''', t_lastSecond = 0, tidString = '' 1234 '', tidStringLength = 6\<rparr>"
  let ?items = "[LCstr (Some ''x = ''), LInteger 5]"
  let ?all = "head_items (\<lambda>e. ''error'') M_WARN ''main'' 0 '' 1234 '' @ ?items @ tail_items ''src/a.cc'' 7"
  have tt: "second_text sample_clock (g_logTimeZone log_globals_init) (1500000 div 1000000)
      = Some ''19700101 00:00:01''"
    by (simp add: second_text_def log_globals_init_def TimeZone_valid_def date_time_text_def sample_clock_def
        tm_zero_def ck32_I space_pad_def sample_texts)
  have tx: "''19700101 00:00:01'' @ micro_text (g_logTimeZone log_globals_init) 1500000
      @ concat (map item_text ?all) = ''19700101 00:00:01.500000Z  1234 WARN  x = 5 - a.cc:7'' @ [CHR 0x0A]"
    by (simp add: micro_text_def log_globals_init_def TimeZone_valid_def head_items_def tail_items_def
        sample_texts)
  have ok: "\<forall>it \<in> set ?all. item_ok it" "28 + sum_list (map item_space ?all) \<le> 4000"
    by (simp_all add: head_items_def tail_items_def)
  have c: "cache_ok sample_clock (g_logTimeZone log_globals_init) ?th (1500000 div 1000000)"
    by (simp add: cache_ok_def)
  have j: "length sample_array = kSmallBuffer"
    by (rule length_sample_array)
  show ?thesis
    using log_line [OF _ tt _ c _ j, where items = ?items and mac = M_WARN and func = "''main''" and err = 0
        and strerror_tl = "\<lambda>e. ''error''" and ?file = "''src/a.cc''" and line = 7] ok tx j
    by (simp add: logs_at_def)
qed

end
