(* ===== verification/Channel.thy ===== *)
theory Channel
  imports Timestamp
begin

section \<open>Channels and the epoll poller: \<open>net/channel.*\<close>, \<open>net/poller.*\<close>, \<open>net/epoller.*\<close>\<close>

text \<open>
  The channels of one event loop live in a store, a map from addresses to records; a pointer is an
  address, and following one that is not in the store (a deleted object) is \<open>None\<close>. The record
  \<open>reactor\<close> holds that store and the members of \<open>EventLoop\<close> and \<open>EPollPoller\<close> which the registration
  of channels reads and writes; the event loop and the connections extend it by their own members.
  The calls of \<open>epoll_ctl\<close> are recorded in order in \<open>rx_ctl\<close>. A callback is a value of a type of the
  client; the function that runs it is an argument of the operations that invoke callbacks.

  \<open>assertInLoopThread\<close> has no effect in this code base: the body of \<open>abortNotInLoopThread\<close> is commented
  out (\<open>net/event_loop.cc\<close>, lines 246 to 252). It is left out of the operations.
\<close>

unbundle bit_operations_syntax

type_synonym addr = nat
type_synonym event_mask = "32 word"

subsection \<open>Event masks\<close>

definition POLLIN :: event_mask where "POLLIN = 0x001"
definition POLLPRI :: event_mask where "POLLPRI = 0x002"
definition POLLOUT :: event_mask where "POLLOUT = 0x004"
definition POLLERR :: event_mask where "POLLERR = 0x008"
definition POLLHUP :: event_mask where "POLLHUP = 0x010"
definition POLLNVAL :: event_mask where "POLLNVAL = 0x020"
definition POLLRDHUP :: event_mask where "POLLRDHUP = 0x2000"

lemmas poll_masks = POLLIN_def POLLPRI_def POLLOUT_def POLLERR_def POLLHUP_def POLLNVAL_def POLLRDHUP_def

definition kNoneEvent :: event_mask where "kNoneEvent = 0"
definition kReadEvent :: event_mask where "kReadEvent = POLLIN OR POLLPRI"
definition kWriteEvent :: event_mask where "kWriteEvent = POLLOUT"

text \<open>The test \<open>(revents_ & mask)\<close> of an \<open>if\<close>.\<close>

definition has_any :: "event_mask \<Rightarrow> event_mask \<Rightarrow> bool" where
  "has_any ev m \<longleftrightarrow> ev AND m \<noteq> 0"

subsection \<open>State\<close>

definition kNew :: int where "kNew = - 1"
definition kAdded :: int where "kAdded = 1"
definition kDeleted :: int where "kDeleted = 2"

record 'k channel =
  ch_loop :: nat
  ch_fd :: int
  ch_events :: event_mask
  ch_revents :: event_mask
  ch_index :: int
  ch_logHup :: bool
  ch_tie :: "nat option"
  ch_tied :: bool
  ch_eventHandling :: bool
  ch_addedToLoop :: bool
  ch_readCallback :: "'k option"
  ch_writeCallback :: "'k option"
  ch_closeCallback :: "'k option"
  ch_errorCallback :: "'k option"

datatype ctl_op = CTL_ADD | CTL_DEL | CTL_MOD

text \<open>One call of \<open>epoll_ctl\<close>: operation, descriptor, \<open>event.events\<close> and \<open>event.data.ptr\<close>.\<close>

datatype ctl_call = Ctl ctl_op int event_mask addr

definition kInitEventListSize :: nat where "kInitEventListSize = 16"

record 'k reactor =
  rx_loop :: nat
  rx_chans :: "addr \<rightharpoonup> 'k channel"
  rx_channels :: "int \<rightharpoonup> addr"
  rx_events_size :: nat
  rx_ctl :: "ctl_call list"
  rx_eventHandling :: bool
  rx_activeChannels :: "addr list"
  rx_currentActive :: "addr option"
  rx_alive :: "nat \<Rightarrow> bool"

text \<open>\<open>rx_alive\<close>: the objects that a \<open>shared_ptr\<close> still owns, for \<open>tie_.lock()\<close>.\<close>

definition reactor_new :: "nat \<Rightarrow> 'k reactor" where
  "reactor_new loop =
     \<lparr>rx_loop = loop, rx_chans = Map.empty, rx_channels = Map.empty, rx_events_size = kInitEventListSize,
      rx_ctl = [], rx_eventHandling = False, rx_activeChannels = [], rx_currentActive = None,
      rx_alive = (\<lambda>_. False)\<rparr>"

definition set_chan :: "addr \<Rightarrow> 'k channel \<Rightarrow> ('k, 'z) reactor_scheme \<Rightarrow> ('k, 'z) reactor_scheme" where
  "set_chan a ch w = w\<lparr>rx_chans := (rx_chans w)(a \<mapsto> ch)\<rparr>"

subsection \<open>\<open>EPollPoller\<close>\<close>

definition isNoneEvent :: "'k channel \<Rightarrow> bool" where
  "isNoneEvent ch \<longleftrightarrow> ch_events ch = kNoneEvent"

definition isWriting :: "'k channel \<Rightarrow> bool" where
  "isWriting ch \<longleftrightarrow> has_any (ch_events ch) kWriteEvent"

definition isReading :: "'k channel \<Rightarrow> bool" where
  "isReading ch \<longleftrightarrow> has_any (ch_events ch) kReadEvent"

text \<open>\<open>update\<close> ignores whether \<open>epoll_ctl\<close> fails: the log statements are commented out.\<close>

definition EPollPoller_update ::
    "ctl_op \<Rightarrow> addr \<Rightarrow> ('k, 'z) reactor_scheme \<Rightarrow> ('k, 'z) reactor_scheme option" where
  "EPollPoller_update operation a w = do {
     ch \<leftarrow> rx_chans w a;
     Some (w\<lparr>rx_ctl := rx_ctl w @ [Ctl operation (ch_fd ch) (ch_events ch) a]\<rparr>)
   }"

definition set_index :: "int \<Rightarrow> addr \<Rightarrow> ('k, 'z) reactor_scheme \<Rightarrow> ('k, 'z) reactor_scheme option" where
  "set_index idx a w = do { ch \<leftarrow> rx_chans w a; Some (set_chan a (ch\<lparr>ch_index := idx\<rparr>) w) }"

definition EPollPoller_updateChannel ::
    "addr \<Rightarrow> ('k, 'z) reactor_scheme \<Rightarrow> ('k, 'z) reactor_scheme option" where
  "EPollPoller_updateChannel a w = do {
     ch \<leftarrow> rx_chans w a;
     let index = ch_index ch;
     let fd = ch_fd ch;
     if index = kNew \<or> index = kDeleted then do {
       w1 \<leftarrow> (if index = kNew then do {
                assert_that (rx_channels w fd = None);
                Some (w\<lparr>rx_channels := (rx_channels w)(fd \<mapsto> a)\<rparr>) }
              else do {
                assert_that (rx_channels w fd \<noteq> None);
                assert_that (rx_channels w fd = Some a);
                Some w });
       w2 \<leftarrow> set_index kAdded a w1;
       EPollPoller_update CTL_ADD a w2 }
     else do {
       assert_that (rx_channels w fd \<noteq> None);
       assert_that (rx_channels w fd = Some a);
       assert_that (index = kAdded);
       if isNoneEvent ch then do {
         w1 \<leftarrow> EPollPoller_update CTL_DEL a w;
         set_index kDeleted a w1 }
       else EPollPoller_update CTL_MOD a w }
   }"

definition EPollPoller_removeChannel ::
    "addr \<Rightarrow> ('k, 'z) reactor_scheme \<Rightarrow> ('k, 'z) reactor_scheme option" where
  "EPollPoller_removeChannel a w = do {
     ch \<leftarrow> rx_chans w a;
     let fd = ch_fd ch;
     assert_that (rx_channels w fd \<noteq> None);
     assert_that (rx_channels w fd = Some a);
     assert_that (isNoneEvent ch);
     let index = ch_index ch;
     assert_that (index = kAdded \<or> index = kDeleted);
     let w1 = w\<lparr>rx_channels := (rx_channels w)(fd := None)\<rparr>;
     w2 \<leftarrow> (if index = kAdded then EPollPoller_update CTL_DEL a w1 else Some w1);
     set_index kNew a w2
   }"

definition Poller_hasChannel :: "addr \<Rightarrow> ('k, 'z) reactor_scheme \<Rightarrow> bool option" where
  "Poller_hasChannel a w = do { ch \<leftarrow> rx_chans w a; Some (rx_channels w (ch_fd ch) = Some a) }"

definition operationToString :: "ctl_op \<Rightarrow> string" where
  "operationToString op = (case op of CTL_ADD \<Rightarrow> ''ADD'' | CTL_DEL \<Rightarrow> ''DEL'' | CTL_MOD \<Rightarrow> ''MOD'')"

text \<open>
  \<open>epoll_wait\<close> returns a list of events with the pointers stored for them, or an error number. The
  loop of \<open>fillActiveChannels\<close> is the recursion over that list.
\<close>

fun fill_loop ::
    "(event_mask \<times> addr) list \<Rightarrow> ('k, 'z) reactor_scheme \<Rightarrow> ('k, 'z) reactor_scheme option" where
  "fill_loop [] w = Some w"
| "fill_loop ((ev, a) # evs) w = do {
     ch \<leftarrow> rx_chans w a;
     assert_that (rx_channels w (ch_fd ch) \<noteq> None);
     assert_that (rx_channels w (ch_fd ch) = Some a);
     let w1 = set_chan a (ch\<lparr>ch_revents := ev\<rparr>) w;
     fill_loop evs (w1\<lparr>rx_activeChannels := rx_activeChannels w1 @ [a]\<rparr>)
   }"

definition fillActiveChannels ::
    "(event_mask \<times> addr) list \<Rightarrow> ('k, 'z) reactor_scheme \<Rightarrow> ('k, 'z) reactor_scheme option" where
  "fillActiveChannels evs w = do {
     assert_that (length evs \<le> rx_events_size w);
     fill_loop evs w
   }"

definition EPollPoller_poll ::
    "int + (event_mask \<times> addr) list \<Rightarrow> ('k, 'z) reactor_scheme \<Rightarrow> ('k, 'z) reactor_scheme option" where
  "EPollPoller_poll epoll_result w =
     (case epoll_result of
        Inl savedErrno \<Rightarrow> Some w
      | Inr [] \<Rightarrow> Some w
      | Inr evs \<Rightarrow> do {
          w1 \<leftarrow> fillActiveChannels evs w;
          Some (if length evs = rx_events_size w1
                then w1\<lparr>rx_events_size := rx_events_size w1 * 2\<rparr> else w1) })"

subsection \<open>\<open>EventLoop\<close>: registration of channels\<close>

definition EventLoop_updateChannel ::
    "addr \<Rightarrow> ('k, 'z) reactor_scheme \<Rightarrow> ('k, 'z) reactor_scheme option" where
  "EventLoop_updateChannel a w = do {
     ch \<leftarrow> rx_chans w a;
     assert_that (ch_loop ch = rx_loop w);
     EPollPoller_updateChannel a w
   }"

definition EventLoop_removeChannel ::
    "addr \<Rightarrow> ('k, 'z) reactor_scheme \<Rightarrow> ('k, 'z) reactor_scheme option" where
  "EventLoop_removeChannel a w = do {
     ch \<leftarrow> rx_chans w a;
     assert_that (ch_loop ch = rx_loop w);
     assert_that (rx_eventHandling w \<longrightarrow>
       rx_currentActive w = Some a \<or> a \<notin> set (rx_activeChannels w));
     EPollPoller_removeChannel a w
   }"

definition EventLoop_hasChannel :: "addr \<Rightarrow> ('k, 'z) reactor_scheme \<Rightarrow> bool option" where
  "EventLoop_hasChannel a w = do {
     ch \<leftarrow> rx_chans w a;
     assert_that (ch_loop ch = rx_loop w);
     Poller_hasChannel a w
   }"

subsection \<open>\<open>Channel\<close>\<close>

definition channel_init :: "nat \<Rightarrow> int \<Rightarrow> 'k channel" where
  "channel_init loop fd =
     \<lparr>ch_loop = loop, ch_fd = fd, ch_events = 0, ch_revents = 0, ch_index = - 1, ch_logHup = True,
      ch_tie = None, ch_tied = False, ch_eventHandling = False, ch_addedToLoop = False,
      ch_readCallback = None, ch_writeCallback = None, ch_closeCallback = None,
      ch_errorCallback = None\<rparr>"

text \<open>\<open>new Channel(loop, fd)\<close> at the address the allocator returns, where no object lives.\<close>

definition Channel_new ::
    "addr \<Rightarrow> int \<Rightarrow> ('k, 'z) reactor_scheme \<Rightarrow> ('k, 'z) reactor_scheme option" where
  "Channel_new a fd w = do {
     assert_that (rx_chans w a = None);
     Some (set_chan a (channel_init (rx_loop w) fd) w)
   }"

text \<open>The destructor, called in the loop thread.\<close>

definition Channel_destroy ::
    "addr \<Rightarrow> ('k, 'z) reactor_scheme \<Rightarrow> ('k, 'z) reactor_scheme option" where
  "Channel_destroy a w = do {
     ch \<leftarrow> rx_chans w a;
     assert_that (\<not> ch_eventHandling ch);
     assert_that (\<not> ch_addedToLoop ch);
     has \<leftarrow> EventLoop_hasChannel a w;
     assert_that (\<not> has);
     Some (w\<lparr>rx_chans := (rx_chans w)(a := None)\<rparr>)
   }"

definition modify_chan ::
    "('k channel \<Rightarrow> 'k channel) \<Rightarrow> addr \<Rightarrow> ('k, 'z) reactor_scheme \<Rightarrow> ('k, 'z) reactor_scheme option" where
  "modify_chan f a w = do { ch \<leftarrow> rx_chans w a; Some (set_chan a (f ch) w) }"

definition tie :: "nat \<Rightarrow> addr \<Rightarrow> ('k, 'z) reactor_scheme \<Rightarrow> ('k, 'z) reactor_scheme option" where
  "tie obj = modify_chan (\<lambda>ch. ch\<lparr>ch_tie := Some obj, ch_tied := True\<rparr>)"

definition setReadCallback :: "'k \<Rightarrow> addr \<Rightarrow> ('k, 'z) reactor_scheme \<Rightarrow> ('k, 'z) reactor_scheme option" where
  "setReadCallback cb = modify_chan (\<lambda>ch. ch\<lparr>ch_readCallback := Some cb\<rparr>)"

definition setWriteCallback :: "'k \<Rightarrow> addr \<Rightarrow> ('k, 'z) reactor_scheme \<Rightarrow> ('k, 'z) reactor_scheme option" where
  "setWriteCallback cb = modify_chan (\<lambda>ch. ch\<lparr>ch_writeCallback := Some cb\<rparr>)"

definition setCloseCallback :: "'k \<Rightarrow> addr \<Rightarrow> ('k, 'z) reactor_scheme \<Rightarrow> ('k, 'z) reactor_scheme option" where
  "setCloseCallback cb = modify_chan (\<lambda>ch. ch\<lparr>ch_closeCallback := Some cb\<rparr>)"

definition setErrorCallback :: "'k \<Rightarrow> addr \<Rightarrow> ('k, 'z) reactor_scheme \<Rightarrow> ('k, 'z) reactor_scheme option" where
  "setErrorCallback cb = modify_chan (\<lambda>ch. ch\<lparr>ch_errorCallback := Some cb\<rparr>)"

definition doNotLogHup :: "addr \<Rightarrow> ('k, 'z) reactor_scheme \<Rightarrow> ('k, 'z) reactor_scheme option" where
  "doNotLogHup = modify_chan (\<lambda>ch. ch\<lparr>ch_logHup := False\<rparr>)"

definition Channel_update :: "addr \<Rightarrow> ('k, 'z) reactor_scheme \<Rightarrow> ('k, 'z) reactor_scheme option" where
  "Channel_update a w = do {
     w1 \<leftarrow> modify_chan (\<lambda>ch. ch\<lparr>ch_addedToLoop := True\<rparr>) a w;
     EventLoop_updateChannel a w1
   }"

definition Channel_remove :: "addr \<Rightarrow> ('k, 'z) reactor_scheme \<Rightarrow> ('k, 'z) reactor_scheme option" where
  "Channel_remove a w = do {
     ch \<leftarrow> rx_chans w a;
     assert_that (isNoneEvent ch);
     w1 \<leftarrow> modify_chan (\<lambda>ch. ch\<lparr>ch_addedToLoop := False\<rparr>) a w;
     EventLoop_removeChannel a w1
   }"

text \<open>The five members that change the mask, each followed by \<open>update()\<close>.\<close>

definition set_events ::
    "(event_mask \<Rightarrow> event_mask) \<Rightarrow> addr \<Rightarrow> ('k, 'z) reactor_scheme \<Rightarrow> ('k, 'z) reactor_scheme option" where
  "set_events f a w = do {
     w1 \<leftarrow> modify_chan (\<lambda>ch. ch\<lparr>ch_events := f (ch_events ch)\<rparr>) a w;
     Channel_update a w1
   }"

definition enableReading :: "addr \<Rightarrow> ('k, 'z) reactor_scheme \<Rightarrow> ('k, 'z) reactor_scheme option" where
  "enableReading = set_events (\<lambda>ev. ev OR kReadEvent)"

definition disableReading :: "addr \<Rightarrow> ('k, 'z) reactor_scheme \<Rightarrow> ('k, 'z) reactor_scheme option" where
  "disableReading = set_events (\<lambda>ev. ev AND NOT kReadEvent)"

definition enableWriting :: "addr \<Rightarrow> ('k, 'z) reactor_scheme \<Rightarrow> ('k, 'z) reactor_scheme option" where
  "enableWriting = set_events (\<lambda>ev. ev OR kWriteEvent)"

definition disableWriting :: "addr \<Rightarrow> ('k, 'z) reactor_scheme \<Rightarrow> ('k, 'z) reactor_scheme option" where
  "disableWriting = set_events (\<lambda>ev. ev AND NOT kWriteEvent)"

definition disableAll :: "addr \<Rightarrow> ('k, 'z) reactor_scheme \<Rightarrow> ('k, 'z) reactor_scheme option" where
  "disableAll = set_events (\<lambda>ev. kNoneEvent)"

text \<open>
  \<open>handleEventWithGuard\<close>. \<open>run cb t\<close> executes a callback; \<open>if_then_call\<close> is one of its four
  statements, which read the members of the channel anew.
\<close>

type_synonym ('k, 'z) runner =
  "'k \<Rightarrow> Timestamp \<Rightarrow> ('k, 'z) reactor_scheme \<Rightarrow> ('k, 'z) reactor_scheme option"

definition if_then_call ::
    "('k, 'z) runner \<Rightarrow> Timestamp \<Rightarrow> (event_mask \<Rightarrow> bool) \<Rightarrow> ('k channel \<Rightarrow> 'k option) \<Rightarrow> addr
      \<Rightarrow> ('k, 'z) reactor_scheme \<Rightarrow> ('k, 'z) reactor_scheme option" where
  "if_then_call run t cond cb a w = do {
     ch \<leftarrow> rx_chans w a;
     if cond (ch_revents ch)
     then (case cb ch of Some k \<Rightarrow> run k t w | None \<Rightarrow> Some w)
     else Some w
   }"

definition handleEventWithGuard ::
    "('k, 'z) runner \<Rightarrow> Timestamp \<Rightarrow> addr \<Rightarrow> ('k, 'z) reactor_scheme \<Rightarrow> ('k, 'z) reactor_scheme option" where
  "handleEventWithGuard run receiveTime a w0 = do {
     w1 \<leftarrow> modify_chan (\<lambda>ch. ch\<lparr>ch_eventHandling := True\<rparr>) a w0;
     w2 \<leftarrow> if_then_call run receiveTime (\<lambda>ev. has_any ev POLLHUP \<and> \<not> has_any ev POLLIN)
            ch_closeCallback a w1;
     w3 \<leftarrow> if_then_call run receiveTime (\<lambda>ev. has_any ev (POLLERR OR POLLNVAL)) ch_errorCallback a w2;
     w4 \<leftarrow> if_then_call run receiveTime (\<lambda>ev. has_any ev (POLLIN OR POLLPRI OR POLLRDHUP))
            ch_readCallback a w3;
     w5 \<leftarrow> if_then_call run receiveTime (\<lambda>ev. has_any ev POLLOUT) ch_writeCallback a w4;
     modify_chan (\<lambda>ch. ch\<lparr>ch_eventHandling := False\<rparr>) a w5
   }"

definition handleEvent ::
    "('k, 'z) runner \<Rightarrow> Timestamp \<Rightarrow> addr \<Rightarrow> ('k, 'z) reactor_scheme \<Rightarrow> ('k, 'z) reactor_scheme option" where
  "handleEvent run receiveTime a w = do {
     ch \<leftarrow> rx_chans w a;
     if ch_tied ch
     then if (case ch_tie ch of Some obj \<Rightarrow> rx_alive w obj | None \<Rightarrow> False)
          then handleEventWithGuard run receiveTime a w else Some w
     else handleEventWithGuard run receiveTime a w
   }"

definition eventsToString :: "int \<Rightarrow> event_mask \<Rightarrow> string" where
  "eventsToString fd ev =
     decimal fd @ '': ''
     @ (if has_any ev POLLIN then ''IN '' else [])
     @ (if has_any ev POLLPRI then ''PRI '' else [])
     @ (if has_any ev POLLOUT then ''OUT '' else [])
     @ (if has_any ev POLLHUP then ''HUP '' else [])
     @ (if has_any ev POLLRDHUP then ''RDHUP '' else [])
     @ (if has_any ev POLLERR then ''ERR '' else [])
     @ (if has_any ev POLLNVAL then ''NVAL '' else [])"

definition reventsToString :: "'k channel \<Rightarrow> string" where
  "reventsToString ch = eventsToString (ch_fd ch) (ch_revents ch)"

end
