(* ===== verification/ChannelProps.thy ===== *)
theory ChannelProps
  imports Channel
begin

section \<open>The interest list of epoll follows the channels\<close>

text \<open>
  The kernel's view of \<open>epoll_ctl\<close>, the invariant that ties the index and the mask of every channel to the
  registry of the poller and to the kernel's interest list, the operations on channels as the steps of a
  machine that keeps it, and what polling and dispatching do. The properties state that every call of
  \<open>epoll_ctl\<close> succeeds and the interest list is always the one the channels describe, when operations
  return and when their assertions fail, and which callbacks run in which order.
\<close>

subsection \<open>The interest list of the kernel\<close>

text \<open>
  \<open>epoll_ctl(2)\<close>: adding a descriptor that is registered fails with \<open>EEXIST\<close>, changing or removing
  one that is not fails with \<open>ENOENT\<close>. The interest list maps a descriptor to its events and the
  pointer stored with it.
\<close>

type_synonym interest = "int \<rightharpoonup> event_mask \<times> addr"

fun kernel_ctl :: "ctl_call \<Rightarrow> interest \<Rightarrow> interest option" where
  "kernel_ctl (Ctl CTL_ADD fd ev a) m = (if m fd = None then Some (m(fd \<mapsto> (ev, a))) else None)"
| "kernel_ctl (Ctl CTL_MOD fd ev a) m = (if m fd \<noteq> None then Some (m(fd \<mapsto> (ev, a))) else None)"
| "kernel_ctl (Ctl CTL_DEL fd ev a) m = (if m fd \<noteq> None then Some (m(fd := None)) else None)"

text \<open>The interest list the members of the channels describe.\<close>

definition wanted :: "('k, 'z) reactor_scheme \<Rightarrow> interest" where
  "wanted w fd = do {
     a \<leftarrow> rx_channels w fd;
     ch \<leftarrow> rx_chans w a;
     if ch_index ch = kAdded then Some (ch_events ch, a) else None
   }"

subsection \<open>The invariant of the registry\<close>

definition chan_ok :: "('k, 'z) reactor_scheme \<Rightarrow> addr \<Rightarrow> 'k channel \<Rightarrow> bool" where
  "chan_ok w a ch \<longleftrightarrow>
     ch_index ch \<in> {kNew, kAdded, kDeleted}
     \<and> (ch_index ch \<noteq> kNew \<longleftrightarrow> rx_channels w (ch_fd ch) = Some a)
     \<and> (ch_addedToLoop ch \<longleftrightarrow> ch_index ch \<noteq> kNew)
     \<and> (ch_index ch \<noteq> kAdded \<longrightarrow> isNoneEvent ch)
     \<and> ch_loop ch = rx_loop w"

definition registry_ok :: "('k, 'z) reactor_scheme \<Rightarrow> bool" where
  "registry_ok w \<longleftrightarrow>
     (\<forall>a ch. rx_chans w a = Some ch \<longrightarrow> chan_ok w a ch)
     \<and> (\<forall>fd a. rx_channels w fd = Some a \<longrightarrow> (\<exists>ch. rx_chans w a = Some ch \<and> ch_fd ch = fd))
     \<and> run_all kernel_ctl (rx_ctl w) Map.empty = Some (wanted w)"

lemma index_distinct [simp]:
  "kNew \<noteq> kAdded" "kAdded \<noteq> kNew" "kNew \<noteq> kDeleted" "kDeleted \<noteq> kNew" "kAdded \<noteq> kDeleted" "kDeleted \<noteq> kAdded"
  by (simp_all add: kNew_def kAdded_def kDeleted_def)

lemma registry_okI:
  assumes "\<And>a ch. rx_chans w a = Some ch \<Longrightarrow> chan_ok w a ch"
    and "\<And>fd a. rx_channels w fd = Some a \<Longrightarrow> \<exists>ch. rx_chans w a = Some ch \<and> ch_fd ch = fd"
    and "run_all kernel_ctl (rx_ctl w) Map.empty = Some (wanted w)"
  shows "registry_ok w"
  using assms by (simp add: registry_ok_def)

lemma registry_okD:
  assumes "registry_ok w" and "rx_chans w a = Some ch"
  shows "chan_ok w a ch"
  using assms by (simp add: registry_ok_def)

lemma registry_ok_registered:
  assumes "registry_ok w" and "rx_channels w fd = Some a"
  obtains ch where "rx_chans w a = Some ch" and "ch_fd ch = fd" and "chan_ok w a ch"
  using assms by (fastforce simp: registry_ok_def)

lemma registry_ok_fd:
  "registry_ok w \<Longrightarrow> rx_chans w a = Some ch \<Longrightarrow> rx_channels w fd = Some a \<Longrightarrow> fd = ch_fd ch"
  by (erule registry_ok_registered, assumption) simp

lemma registry_ok_new: "registry_ok (reactor_new loop)"
  by (simp add: registry_ok_def reactor_new_def wanted_def fun_eq_iff)

lemma kernel_snoc:
  "run_all kernel_ctl cs Map.empty = Some m \<Longrightarrow>
    run_all kernel_ctl (cs @ [c]) Map.empty = kernel_ctl c m"
  by (cases "kernel_ctl c m") (simp_all add: run_all_append)

text \<open>
  The two ways in which an operation changes the registry: the channel at \<open>a\<close> becomes \<open>ch'\<close> and one
  call of \<open>epoll_ctl\<close> is made.
\<close>

definition commit ::
    "addr \<Rightarrow> 'k channel \<Rightarrow> ctl_op option \<Rightarrow> addr option \<Rightarrow> ('k, 'z) reactor_scheme \<Rightarrow> ('k, 'z) reactor_scheme" where
  "commit a ch' op entry w = w\<lparr>rx_chans := (rx_chans w)(a \<mapsto> ch'),
     rx_channels := (rx_channels w)(ch_fd ch' := entry),
     rx_ctl := rx_ctl w @ (case op of Some c \<Rightarrow> [Ctl c (ch_fd ch') (ch_events ch') a] | None \<Rightarrow> [])\<rparr>"

lemma registry_ok_commit:
  assumes ok: "registry_ok w" and ch: "rx_chans w a = Some ch" "ch_fd ch' = ch_fd ch"
    and free: "rx_channels w (ch_fd ch) = None \<or> rx_channels w (ch_fd ch) = Some a"
    and ch': "chan_ok (commit a ch' op entry w) a ch'" and entry: "entry = None \<or> entry = Some a"
    and ctl: "(case op of
        None \<Rightarrow> ch_index ch \<noteq> kAdded \<and> ch_index ch' \<noteq> kAdded
      | Some CTL_ADD \<Rightarrow> ch_index ch \<noteq> kAdded \<and> ch_index ch' = kAdded
      | Some CTL_MOD \<Rightarrow> ch_index ch = kAdded \<and> ch_index ch' = kAdded
      | Some CTL_DEL \<Rightarrow> ch_index ch = kAdded \<and> ch_index ch' \<noteq> kAdded)"
  shows "registry_ok (commit a ch' op entry w)"
proof -
  let ?w = "commit a ch' op entry w" and ?fd = "ch_fd ch"
  have chk: "chan_ok w a ch"
    by (rule registry_okD [OF ok ch(1)])
  have other: "chan_ok ?w b c" if "b \<noteq> a" "rx_chans w b = Some c" for b c
  proof -
    have "chan_ok w b c"
      by (rule registry_okD [OF ok that(2)])
    moreover have "rx_channels w ?fd \<noteq> Some b"
      using free that by auto
    ultimately show ?thesis
      using that ch(2) entry by (auto simp: chan_ok_def commit_def)
  qed
  have "\<exists>c. rx_chans ?w b = Some c \<and> ch_fd c = fd" if "rx_channels ?w fd = Some b" for fd b
  proof (cases "fd = ?fd")
    case True
    then show ?thesis
      using that ch(2) entry by (auto simp: commit_def)
  next
    case False
    then have "rx_channels w fd = Some b" "b \<noteq> a"
      using that ch(2) registry_ok_fd [OF ok ch(1), of fd] by (auto simp: commit_def)
    then show ?thesis
      using ok by (auto simp: commit_def registry_ok_def)
  qed
  moreover have "wanted ?w fd = wanted w fd" if "fd \<noteq> ?fd" for fd
  proof -
    have "rx_channels w fd \<noteq> Some a"
      using that registry_ok_fd [OF ok ch(1)] by auto
    then show ?thesis
      using that ch(2) by (auto simp: wanted_def commit_def split: bind_splits)
  qed
  then have same: "wanted ?w = (wanted w)(?fd := wanted ?w ?fd)"
    by (auto simp: fun_eq_iff)
  have at: "wanted w ?fd = (if ch_index ch = kAdded then Some (ch_events ch, a) else None)"
    using chk ch(1) free by (auto simp: wanted_def chan_ok_def)
  have at': "wanted ?w ?fd = (if ch_index ch' = kAdded then Some (ch_events ch', a) else None)"
    using ch' ch(2) entry by (auto simp: wanted_def chan_ok_def commit_def)
  have run: "run_all kernel_ctl (rx_ctl w) Map.empty = Some (wanted w)"
    using ok by (simp add: registry_ok_def)
  have "run_all kernel_ctl (rx_ctl ?w) Map.empty = Some (wanted ?w)"
  proof (cases op)
    case None
    then have "wanted ?w = wanted w"
      using same at at' ctl by (simp add: fun_upd_idem)
    with None run show ?thesis
      by (simp add: commit_def)
  next
    case (Some c)
    then show ?thesis
      using kernel_snoc [OF run] same at at' ctl ch(2)
      by (cases c) (simp_all add: commit_def)
  qed
  ultimately show ?thesis
    using other ch' by (auto simp: registry_ok_def commit_def)
qed

subsection \<open>The operations\<close>

lemma commit_defs:
  "rx_chans (commit a ch' op e w) = (rx_chans w)(a \<mapsto> ch')"
  "rx_channels (commit a ch' op e w) = (rx_channels w)(ch_fd ch' := e)"
  "rx_loop (commit a ch' op e w) = rx_loop w"
  by (simp_all add: commit_def)

lemma set_events_eq:
  fixes f :: "event_mask \<Rightarrow> event_mask"
  assumes "rx_chans w a = Some ch" and "ch_loop ch = rx_loop w"
  defines "ch1 \<equiv> ch\<lparr>ch_events := f (ch_events ch), ch_addedToLoop := True\<rparr>"
  shows "set_events f a w =
    (if ch_index ch = kNew
     then if rx_channels w (ch_fd ch) = None
          then Some (commit a (ch1\<lparr>ch_index := kAdded\<rparr>) (Some CTL_ADD) (Some a) w) else None
     else if rx_channels w (ch_fd ch) \<noteq> Some a then None
     else if ch_index ch = kDeleted
     then Some (commit a (ch1\<lparr>ch_index := kAdded\<rparr>) (Some CTL_ADD) (Some a) w)
     else if ch_index ch \<noteq> kAdded then None
     else if f (ch_events ch) = kNoneEvent
     then Some (commit a (ch1\<lparr>ch_index := kDeleted\<rparr>) (Some CTL_DEL) (Some a) w)
     else Some (commit a ch1 (Some CTL_MOD) (Some a) w))"
  using assms(1,2) unfolding ch1_def
  by (auto simp: set_events_def modify_chan_def Channel_update_def EventLoop_updateChannel_def
      EPollPoller_updateChannel_def EPollPoller_update_def set_index_def set_chan_def isNoneEvent_def
      commit_def fun_upd_idem Let_def)

lemma Channel_remove_eq:
  assumes "rx_chans w a = Some ch" and "ch_loop ch = rx_loop w"
  shows "Channel_remove a w =
    (if isNoneEvent ch \<and> rx_channels w (ch_fd ch) = Some a \<and> (ch_index ch = kAdded \<or> ch_index ch = kDeleted)
        \<and> (rx_eventHandling w \<longrightarrow> rx_currentActive w = Some a \<or> a \<notin> set (rx_activeChannels w))
     then Some (commit a (ch\<lparr>ch_addedToLoop := False, ch_index := kNew\<rparr>)
            (if ch_index ch = kAdded then Some CTL_DEL else None) None w)
     else None)"
  using assms
  by (auto simp: Channel_remove_def modify_chan_def EventLoop_removeChannel_def
      EPollPoller_removeChannel_def EPollPoller_update_def set_index_def set_chan_def isNoneEvent_def
      commit_def Let_def)

text \<open>Changing other members of a channel does not concern the registry.\<close>

definition keeps_registration :: "('k channel \<Rightarrow> 'k channel) \<Rightarrow> bool" where
  "keeps_registration f \<longleftrightarrow> (\<forall>ch. ch_fd (f ch) = ch_fd ch \<and> ch_events (f ch) = ch_events ch
     \<and> ch_index (f ch) = ch_index ch \<and> ch_addedToLoop (f ch) = ch_addedToLoop ch
     \<and> ch_loop (f ch) = ch_loop ch)"

lemma registry_ok_modify:
  assumes "registry_ok w" and "keeps_registration f" and "modify_chan f a w = Some w'"
  shows "registry_ok w'"
proof -
  obtain ch where ch: "rx_chans w a = Some ch" "w' = set_chan a (f ch) w"
    using assms(3) by (auto simp: modify_chan_def bind_eq_Some_conv)
  have f: "ch_fd (f ch) = ch_fd ch" "ch_events (f ch) = ch_events ch" "ch_index (f ch) = ch_index ch"
    "ch_addedToLoop (f ch) = ch_addedToLoop ch" "ch_loop (f ch) = ch_loop ch"
    using assms(2) by (auto simp: keeps_registration_def)
  have "wanted w' = wanted w"
    using ch f by (auto simp: wanted_def set_chan_def fun_eq_iff split: bind_splits)
  moreover have "chan_ok w' b c \<longleftrightarrow> chan_ok w b c" for b c
    using ch by (simp add: chan_ok_def set_chan_def)
  moreover have "chan_ok w a (f ch) \<longleftrightarrow> chan_ok w a ch"
    using f by (simp add: chan_ok_def isNoneEvent_def)
  ultimately show ?thesis
  proof (intro registry_okI)
    fix b c
    assume "rx_chans w' b = Some c" and k: "\<And>b c. chan_ok w' b c = chan_ok w b c"
      "chan_ok w a (f ch) = chan_ok w a ch"
    then show "chan_ok w' b c"
      using ch registry_okD [OF assms(1)] by (cases "b = a") (auto simp: set_chan_def)
  next
    fix fd b
    assume "rx_channels w' fd = Some b"
    then have "rx_channels w fd = Some b"
      using ch by (simp add: set_chan_def)
    then obtain c where "rx_chans w b = Some c" "ch_fd c = fd"
      by (rule registry_ok_registered [OF assms(1)])
    then show "\<exists>c. rx_chans w' b = Some c \<and> ch_fd c = fd"
      using ch f by (cases "b = a") (auto simp: set_chan_def)
  next
    assume "wanted w' = wanted w"
    then show "run_all kernel_ctl (rx_ctl w') Map.empty = Some (wanted w')"
      using assms(1) ch by (simp add: registry_ok_def set_chan_def)
  qed
qed

lemma registry_ok_set_events:
  assumes "registry_ok w" and "set_events f a w = Some w'"
  shows "registry_ok w'"
proof -
  obtain ch where ch: "rx_chans w a = Some ch"
    using assms(2) by (auto simp: set_events_def modify_chan_def bind_eq_Some_conv)
  have ok: "chan_ok w a ch"
    by (rule registry_okD [OF assms(1) ch])
  then have "ch_loop ch = rx_loop w"
    by (simp add: chan_ok_def)
  note w' = assms(2) [unfolded set_events_eq [OF ch this]]
  show ?thesis
    using w' ok
    by (auto split: if_splits
        intro!: registry_ok_commit [OF assms(1) ch] simp: chan_ok_def commit_defs isNoneEvent_def)
qed

lemma registry_ok_remove:
  assumes "registry_ok w" and "Channel_remove a w = Some w'"
  shows "registry_ok w'"
proof -
  obtain ch where ch: "rx_chans w a = Some ch"
    using assms(2) by (auto simp: Channel_remove_def bind_eq_Some_conv)
  have ok: "chan_ok w a ch"
    by (rule registry_okD [OF assms(1) ch])
  then have "ch_loop ch = rx_loop w"
    by (simp add: chan_ok_def)
  note w' = assms(2) [unfolded Channel_remove_eq [OF ch this]]
  show ?thesis
    using w' ok
    by (auto split: if_splits
        intro!: registry_ok_commit [OF assms(1) ch] simp: chan_ok_def commit_defs isNoneEvent_def)
qed

lemma registry_ok_Channel_new:
  assumes "registry_ok w" and "Channel_new a fd w = Some w'"
  shows "registry_ok w'"
proof -
  have a: "rx_chans w a = None" and w': "w' = set_chan a (channel_init (rx_loop w) fd) w"
    using assms(2) by (simp_all add: Channel_new_def split: if_splits)
  have na: "rx_channels w d \<noteq> Some a" for d
    using registry_ok_registered [OF assms(1), of d a] a by auto
  then have "wanted w' = wanted w"
    by (auto simp: w' wanted_def set_chan_def fun_eq_iff split: bind_splits)
  then show ?thesis
    using assms(1) na
    by (auto simp: registry_ok_def w' set_chan_def chan_ok_def channel_init_def kNew_def kAdded_def
        isNoneEvent_def kNoneEvent_def)
qed

lemma registry_ok_Channel_destroy:
  assumes "registry_ok w" and "Channel_destroy a w = Some w'"
  shows "registry_ok w'"
proof -
  obtain ch where ch: "rx_chans w a = Some ch" "rx_channels w (ch_fd ch) \<noteq> Some a"
    and w': "w' = w\<lparr>rx_chans := (rx_chans w)(a := None)\<rparr>"
    using assms(2)
    by (auto simp: Channel_destroy_def EventLoop_hasChannel_def Poller_hasChannel_def
        bind_eq_Some_conv split: if_splits)
  have na: "rx_channels w d \<noteq> Some a" for d
    using ch registry_ok_fd [OF assms(1) ch(1)] by auto
  then have "wanted w' = wanted w"
    by (auto simp: w' wanted_def fun_eq_iff split: bind_splits)
  then show ?thesis
    using assms(1) na by (intro registry_okI) (auto simp: w' chan_ok_def registry_ok_def split: if_splits)
qed

subsection \<open>Sequences of operations\<close>

datatype 'k chan_op =
    Op_new addr int
  | Op_destroy addr
  | Op_enableReading addr
  | Op_disableReading addr
  | Op_enableWriting addr
  | Op_disableWriting addr
  | Op_disableAll addr
  | Op_remove addr
  | Op_setReadCallback addr 'k
  | Op_setWriteCallback addr 'k
  | Op_setCloseCallback addr 'k
  | Op_setErrorCallback addr 'k
  | Op_tie addr nat
  | Op_doNotLogHup addr

fun chan_step :: "'k chan_op \<Rightarrow> ('k, 'z) reactor_scheme \<Rightarrow> ('k, 'z) reactor_scheme option" where
  "chan_step (Op_new a fd) w = Channel_new a fd w"
| "chan_step (Op_destroy a) w = Channel_destroy a w"
| "chan_step (Op_enableReading a) w = enableReading a w"
| "chan_step (Op_disableReading a) w = disableReading a w"
| "chan_step (Op_enableWriting a) w = enableWriting a w"
| "chan_step (Op_disableWriting a) w = disableWriting a w"
| "chan_step (Op_disableAll a) w = disableAll a w"
| "chan_step (Op_remove a) w = Channel_remove a w"
| "chan_step (Op_setReadCallback a k) w = setReadCallback k a w"
| "chan_step (Op_setWriteCallback a k) w = setWriteCallback k a w"
| "chan_step (Op_setCloseCallback a k) w = setCloseCallback k a w"
| "chan_step (Op_setErrorCallback a k) w = setErrorCallback k a w"
| "chan_step (Op_tie a obj) w = tie obj a w"
| "chan_step (Op_doNotLogHup a) w = doNotLogHup a w"

text \<open>When an operation is sure to return: the contract of the header files.\<close>

definition can_register :: "addr \<Rightarrow> ('k, 'z) reactor_scheme \<Rightarrow> bool" where
  "can_register a w = (case rx_chans w a of None \<Rightarrow> False
     | Some ch \<Rightarrow> rx_channels w (ch_fd ch) = None \<or> rx_channels w (ch_fd ch) = Some a)"

definition can_remove :: "addr \<Rightarrow> ('k, 'z) reactor_scheme \<Rightarrow> bool" where
  "can_remove a w = (case rx_chans w a of None \<Rightarrow> False
     | Some ch \<Rightarrow> ch_index ch \<noteq> kNew \<and> isNoneEvent ch
         \<and> (rx_eventHandling w \<longrightarrow> rx_currentActive w = Some a \<or> a \<notin> set (rx_activeChannels w)))"

fun chan_ready :: "'k chan_op \<Rightarrow> ('k, 'z) reactor_scheme \<Rightarrow> bool" where
  "chan_ready (Op_new a fd) w \<longleftrightarrow> rx_chans w a = None"
| "chan_ready (Op_destroy a) w \<longleftrightarrow>
     (case rx_chans w a of None \<Rightarrow> False | Some ch \<Rightarrow> ch_index ch = kNew \<and> \<not> ch_eventHandling ch)"
| "chan_ready (Op_enableReading a) w \<longleftrightarrow> can_register a w"
| "chan_ready (Op_disableReading a) w \<longleftrightarrow> can_register a w"
| "chan_ready (Op_enableWriting a) w \<longleftrightarrow> can_register a w"
| "chan_ready (Op_disableWriting a) w \<longleftrightarrow> can_register a w"
| "chan_ready (Op_disableAll a) w \<longleftrightarrow> can_register a w"
| "chan_ready (Op_remove a) w \<longleftrightarrow> can_remove a w"
| "chan_ready (Op_setReadCallback a k) w \<longleftrightarrow> rx_chans w a \<noteq> None"
| "chan_ready (Op_setWriteCallback a k) w \<longleftrightarrow> rx_chans w a \<noteq> None"
| "chan_ready (Op_setCloseCallback a k) w \<longleftrightarrow> rx_chans w a \<noteq> None"
| "chan_ready (Op_setErrorCallback a k) w \<longleftrightarrow> rx_chans w a \<noteq> None"
| "chan_ready (Op_tie a obj) w \<longleftrightarrow> rx_chans w a \<noteq> None"
| "chan_ready (Op_doNotLogHup a) w \<longleftrightarrow> rx_chans w a \<noteq> None"

lemmas mask_ops = enableReading_def disableReading_def enableWriting_def disableWriting_def disableAll_def
lemmas setter_ops = setReadCallback_def setWriteCallback_def setCloseCallback_def setErrorCallback_def
  tie_def doNotLogHup_def

lemma keeps_setters [simp]:
  "keeps_registration (ch_readCallback_update g)" "keeps_registration (ch_writeCallback_update g)"
  "keeps_registration (ch_closeCallback_update g)" "keeps_registration (ch_errorCallback_update g)"
  "keeps_registration (ch_logHup_update h)" "keeps_registration (ch_revents_update r)"
  "keeps_registration (ch_eventHandling_update h)"
  "keeps_registration (\<lambda>ch. ch\<lparr>ch_tie := t, ch_tied := b\<rparr>)"
  by (simp_all add: keeps_registration_def)

lemma set_events_returns:
  assumes "registry_ok w" and "can_register a w"
  shows "\<exists>w'. set_events f a w = Some w'"
proof -
  obtain ch where ch: "rx_chans w a = Some ch"
    "rx_channels w (ch_fd ch) = None \<or> rx_channels w (ch_fd ch) = Some a"
    using assms(2) by (auto simp: can_register_def split: option.splits)
  have "chan_ok w a ch"
    by (rule registry_okD [OF assms(1) ch(1)])
  then show ?thesis
    using ch by (auto simp: set_events_eq chan_ok_def)
qed

interpretation reg: live_machine
  "chan_step :: 'k chan_op \<Rightarrow> ('k, 'z) reactor_scheme \<Rightarrow> ('k, 'z) reactor_scheme option"
  registry_ok chan_ready
proof
  fix e :: "'k chan_op" and w w' :: "('k, 'z) reactor_scheme"
  assume ok: "registry_ok w"
  show "chan_step e w = Some w' \<Longrightarrow> registry_ok w'"
    using registry_ok_Channel_new [OF ok] registry_ok_Channel_destroy [OF ok]
      registry_ok_set_events [OF ok] registry_ok_remove [OF ok]
    by (cases e) (auto simp: mask_ops setter_ops intro: registry_ok_modify [OF ok, rotated])
  show "chan_ready e w \<Longrightarrow> \<exists>w'. chan_step e w = Some w'"
  proof (cases e)
    case (Op_destroy a)
    assume "chan_ready e w"
    then obtain ch where ch: "rx_chans w a = Some ch" "ch_index ch = kNew" "\<not> ch_eventHandling ch"
      using Op_destroy by (auto split: option.splits)
    then have "chan_ok w a ch"
      by (intro registry_okD [OF ok])
    then show ?thesis
      using ch Op_destroy
      by (simp add: Channel_destroy_def EventLoop_hasChannel_def Poller_hasChannel_def chan_ok_def)
  next
    case (Op_remove a)
    assume "chan_ready e w"
    then obtain ch where ch: "rx_chans w a = Some ch" "ch_index ch \<noteq> kNew" "isNoneEvent ch"
      "rx_eventHandling w \<longrightarrow> rx_currentActive w = Some a \<or> a \<notin> set (rx_activeChannels w)"
      using Op_remove by (auto simp: can_remove_def split: option.splits)
    then have "chan_ok w a ch"
      by (intro registry_okD [OF ok])
    then show ?thesis
      using ch Op_remove by (auto simp: Channel_remove_eq chan_ok_def)
  qed (use set_events_returns [OF ok] in
      \<open>auto simp: mask_ops setter_ops Channel_new_def modify_chan_def\<close>)
qed

subsection \<open>Frame\<close>

text \<open>The operations on channels leave the members of the components that extend the reactor alone.\<close>

lemma chan_frame:
  "Channel_new a fd w = Some w' \<Longrightarrow> reactor.more w' = reactor.more w"
  "Channel_destroy a w = Some w' \<Longrightarrow> reactor.more w' = reactor.more w"
  "modify_chan f a w = Some w' \<Longrightarrow> reactor.more w' = reactor.more w"
  by (auto simp: Channel_new_def Channel_destroy_def modify_chan_def set_chan_def
      split: if_splits elim!: bind_SomeE)

lemma updateChannel_frame:
  "EventLoop_updateChannel a w = Some w' \<Longrightarrow> reactor.more w' = reactor.more w"
  "EventLoop_removeChannel a w = Some w' \<Longrightarrow> reactor.more w' = reactor.more w"
  by (auto simp: EventLoop_updateChannel_def EPollPoller_updateChannel_def EventLoop_removeChannel_def
      EPollPoller_removeChannel_def EPollPoller_update_def set_index_def set_chan_def Let_def
      split: if_splits elim!: bind_SomeE)

lemma set_events_frame:
  "set_events f a w = Some w' \<Longrightarrow> reactor.more w' = reactor.more w"
  "Channel_remove a w = Some w' \<Longrightarrow> reactor.more w' = reactor.more w"
  by (auto simp: set_events_def Channel_update_def Channel_remove_def
      split: if_splits elim!: bind_SomeE dest!: updateChannel_frame chan_frame(3))

subsection \<open>Polling\<close>

lemma fill_loop_ok:
  assumes "registry_ok w" and "\<And>ev a. (ev, a) \<in> set evs \<Longrightarrow> \<exists>fd. rx_channels w fd = Some a"
  shows "\<exists>w'. fill_loop evs w = Some w' \<and> registry_ok w' \<and> rx_channels w' = rx_channels w
    \<and> rx_ctl w' = rx_ctl w \<and> rx_events_size w' = rx_events_size w
    \<and> rx_activeChannels w' = rx_activeChannels w @ map snd evs
    \<and> (\<forall>a. map_option ch_revents (rx_chans w' a)
          = (case map_of (rev (map (\<lambda>(ev, a). (a, ev)) evs)) a of
               Some ev \<Rightarrow> Some ev | None \<Rightarrow> map_option ch_revents (rx_chans w a)))"
  using assms
proof (induction evs arbitrary: w)
  case (Cons e evs)
  obtain ev a where e: "e = (ev, a)"
    by (cases e)
  obtain fd where "rx_channels w fd = Some a"
    using Cons.prems(2) e by auto
  then obtain ch where ch: "rx_chans w a = Some ch" "rx_channels w (ch_fd ch) = Some a"
    using registry_ok_registered [OF Cons.prems(1)] by metis
  define w1 where "w1 = set_chan a (ch\<lparr>ch_revents := ev\<rparr>) w"
  define w2 where "w2 = w1\<lparr>rx_activeChannels := rx_activeChannels w1 @ [a]\<rparr>"
  have "modify_chan (\<lambda>c. c\<lparr>ch_revents := ev\<rparr>) a w = Some w1"
    using ch by (simp add: modify_chan_def w1_def)
  then have "registry_ok w1"
    by (rule registry_ok_modify [OF Cons.prems(1), rotated]) simp
  then have "registry_ok w2"
    by (simp add: w2_def registry_ok_def chan_ok_def wanted_def [abs_def])
  moreover have "rx_channels w2 = rx_channels w"
    by (simp add: w2_def w1_def set_chan_def)
  ultimately obtain w' where w': "fill_loop evs w2 = Some w'" "registry_ok w'"
    "rx_channels w' = rx_channels w2" "rx_ctl w' = rx_ctl w2" "rx_events_size w' = rx_events_size w2"
    "rx_activeChannels w' = rx_activeChannels w2 @ map snd evs"
    "\<forall>b. map_option ch_revents (rx_chans w' b)
          = (case map_of (rev (map (\<lambda>(ev, a). (a, ev)) evs)) b of
               Some ev \<Rightarrow> Some ev | None \<Rightarrow> map_option ch_revents (rx_chans w2 b))"
    using Cons.IH [of w2] Cons.prems(2) by auto
  have "fill_loop (e # evs) w = Some w'"
    using w'(1) ch e by (simp add: w1_def w2_def Let_def)
  moreover have "rx_activeChannels w' = rx_activeChannels w @ map snd (e # evs)"
    using w'(6) e by (simp add: w2_def w1_def set_chan_def)
  moreover have "map_option ch_revents (rx_chans w2 b)
      = (if b = a then Some ev else map_option ch_revents (rx_chans w b))" for b
    by (simp add: w2_def w1_def set_chan_def)
  ultimately show ?case
    using w' e
    by (intro exI [of _ w']) (auto simp: w2_def w1_def set_chan_def map_add_def split: option.split)
qed simp

subsection \<open>Dispatch\<close>

text \<open>A client that only records which callbacks run.\<close>

record 'k traced = "'k reactor" +
  calls :: "'k list"

definition trace_run :: "'k \<Rightarrow> Timestamp \<Rightarrow> 'k traced \<Rightarrow> 'k traced option" where
  "trace_run k t w = Some (w\<lparr>calls := calls w @ [k]\<rparr>)"

definition due :: "bool \<Rightarrow> 'k option \<Rightarrow> 'k list" where
  "due b cb = (if b then (case cb of Some k \<Rightarrow> [k] | None \<Rightarrow> []) else [])"

lemma if_then_call_traced:
  assumes "rx_chans w a = Some ch"
  shows "if_then_call trace_run t P cb a w
    = Some (w\<lparr>calls := calls w @ due (P (ch_revents ch)) (cb ch)\<rparr>)"
  using assms by (auto simp: if_then_call_def trace_run_def due_def split: option.split)

subsection \<open>Properties\<close>

text \<open>
  C16: The interest list of the kernel always is what the channels ask for. After any series of
  operations on channels, in any order, starting with none: no call of \<open>epoll_ctl\<close> has failed, the
  interest list holds exactly the descriptors of the channels with index \<open>kAdded\<close>, each with the
  current mask of its channel and its address; a channel is in the poller's map if and only if its
  index is not \<open>kNew\<close>, that is, if and only if it counts as added to the loop; and a channel that is not
  in the interest list asks for no event.
\<close>

theorem epoll_follows_channels:
  assumes "run_all chan_step ops (reactor_new loop) = Some w"
  shows "run_all kernel_ctl (rx_ctl w) Map.empty = Some (wanted w)
    \<and> (\<forall>a ch. rx_chans w a = Some ch \<longrightarrow>
          (ch_index ch \<noteq> kNew \<longleftrightarrow> rx_channels w (ch_fd ch) = Some a)
        \<and> (ch_addedToLoop ch \<longleftrightarrow> ch_index ch \<noteq> kNew)
        \<and> (ch_index ch \<noteq> kAdded \<longrightarrow> ch_events ch = 0)
        \<and> (wanted w (ch_fd ch) = Some (ch_events ch, a) \<longleftrightarrow> ch_index ch = kAdded))"
proof -
  have ok: "registry_ok w"
    using reg.run_inv [OF registry_ok_new assms] .
  have "chan_ok w a ch \<and> (wanted w (ch_fd ch) = Some (ch_events ch, a) \<longleftrightarrow> ch_index ch = kAdded)"
    if "rx_chans w a = Some ch" for a ch
    using that registry_okD [OF ok that]
    by (auto simp: wanted_def chan_ok_def bind_eq_Some_conv split: if_splits)
  then show ?thesis
    using ok by (simp add: registry_ok_def chan_ok_def isNoneEvent_def kNoneEvent_def)
qed

lemma epoll_follows_channels_witness:
  "\<exists>w. run_all chan_step [Op_new 1 7, Op_enableReading 1, Op_disableAll 1, Op_enableWriting 1]
        (reactor_new 0 :: nat reactor) = Some w
     \<and> run_all kernel_ctl (rx_ctl w) Map.empty = Some (wanted w) \<and> wanted w 7 = Some (POLLOUT, 1)"
proof -
  let ?ops = "[Op_new 1 7, Op_enableReading 1, Op_disableAll 1, Op_enableWriting 1] :: nat chan_op list"
  obtain w where w: "run_all chan_step ?ops (reactor_new 0 :: nat reactor) = Some w"
    "wanted w 7 = Some (POLLOUT, 1)"
    by (simp add: reactor_new_def Channel_new_def set_chan_def channel_init_def mask_ops set_events_def
        modify_chan_def Channel_update_def EventLoop_updateChannel_def EPollPoller_updateChannel_def
        EPollPoller_update_def set_index_def kNew_def kAdded_def kDeleted_def isNoneEvent_def kNoneEvent_def
        kReadEvent_def kWriteEvent_def poll_masks Let_def wanted_def)
  from epoll_follows_channels [OF w(1)] w show ?thesis
    by blast
qed

text \<open>
  C17: When an operation on a channel returns and when it aborts, in every state that satisfies the
  invariant of the registry. Changing the mask of a live channel returns if and only if no other channel
  is registered for its descriptor, and then sets exactly the new mask and registers it; removing returns
  if and only if the channel is registered, asks for no event and is not waiting among the active
  channels for its turn; destroying returns if and only if it is neither registered nor handling an event.
\<close>

theorem channel_operations_return:
  assumes "registry_ok w" and "rx_chans w a = Some ch"
  shows "((\<exists>w'. set_events f a w = Some w'
            \<and> map_option ch_events (rx_chans w' a) = Some (f (ch_events ch))
            \<and> rx_channels w' (ch_fd ch) = Some a)
          \<longleftrightarrow> rx_channels w (ch_fd ch) \<in> {None, Some a})
    \<and> (Channel_remove a w \<noteq> None \<longleftrightarrow>
          rx_channels w (ch_fd ch) = Some a \<and> ch_events ch = 0
          \<and> (rx_eventHandling w \<longrightarrow> rx_currentActive w = Some a \<or> a \<notin> set (rx_activeChannels w)))
    \<and> (Channel_destroy a w \<noteq> None \<longleftrightarrow>
          rx_channels w (ch_fd ch) \<noteq> Some a \<and> \<not> ch_eventHandling ch)"
proof -
  have c: "chan_ok w a ch"
    by (rule registry_okD [OF assms])
  then have loop: "ch_loop ch = rx_loop w"
    by (simp add: chan_ok_def)
  show ?thesis
    using c assms(2)
    by (auto simp: set_events_eq [OF assms(2) loop] Channel_remove_eq [OF assms(2) loop] chan_ok_def
        Channel_destroy_def EventLoop_hasChannel_def Poller_hasChannel_def commit_defs isNoneEvent_def
        kNoneEvent_def)
qed

text \<open>A loop with one channel, at address 1 for descriptor 7, that is registered for reading.\<close>

definition sample_channel :: "nat channel" where
  "sample_channel = (channel_init 0 7)\<lparr>ch_events := kReadEvent, ch_index := kAdded, ch_addedToLoop := True,
     ch_readCallback := Some 10, ch_writeCallback := Some 11, ch_closeCallback := Some 12,
     ch_errorCallback := Some 13\<rparr>"

definition sample_reactor :: "nat reactor" where
  "sample_reactor = (reactor_new 0)\<lparr>rx_chans := [1 \<mapsto> sample_channel], rx_channels := [7 \<mapsto> 1],
     rx_ctl := [Ctl CTL_ADD 7 kReadEvent 1]\<rparr>"

lemma sample_reactor_ok: "registry_ok sample_reactor"
  by (rule registry_okI)
    (auto simp: sample_reactor_def reactor_new_def sample_channel_def channel_init_def chan_ok_def
      wanted_def fun_eq_iff split: if_splits)

lemma channel_operations_return_witness:
  "registry_ok sample_reactor \<and> Channel_remove 1 sample_reactor = None
   \<and> (\<exists>w'. set_events (\<lambda>ev. ev OR kWriteEvent) 1 sample_reactor = Some w')"
proof -
  have ch: "rx_chans sample_reactor 1 = Some sample_channel"
    "rx_channels sample_reactor (ch_fd sample_channel) = Some 1" "ch_events sample_channel \<noteq> 0"
    by (simp_all add: sample_reactor_def sample_channel_def channel_init_def kReadEvent_def poll_masks)
  show ?thesis
    using channel_operations_return [OF sample_reactor_ok ch(1), of "\<lambda>ev. ev OR kWriteEvent"] ch
      sample_reactor_ok by auto
qed

text \<open>
  C18: Polling reports exactly what the kernel returns. When \<open>epoll_wait\<close> returns at most as many events
  as asked for, each with a pointer of the interest list, \<open>poll\<close> passes all assertions, appends the
  channels to the active ones in the order of the events and stores in each channel the events the kernel
  reported for it; nothing else of the registry changes. The event list doubles when it was full. An
  error or a timeout changes nothing.
\<close>

theorem poll_reports_events:
  assumes "registry_ok w" and "length evs \<le> rx_events_size w"
    and "\<forall>(ev, a) \<in> set evs. \<exists>fd m. wanted w fd = Some (m, a)"
  shows "EPollPoller_poll (Inl e) w = Some w
    \<and> (\<exists>w'. EPollPoller_poll (Inr evs) w = Some w'
        \<and> registry_ok w' \<and> rx_channels w' = rx_channels w \<and> rx_ctl w' = rx_ctl w
        \<and> rx_activeChannels w' = rx_activeChannels w @ map snd evs
        \<and> (distinct (map snd evs) \<longrightarrow>
             (\<forall>(ev, a) \<in> set evs. map_option ch_revents (rx_chans w' a) = Some ev))
        \<and> rx_events_size w' = (if evs \<noteq> [] \<and> length evs = rx_events_size w
                              then 2 * rx_events_size w else rx_events_size w))"
proof -
  have reg: "\<exists>fd. rx_channels w fd = Some a" if "(ev, a) \<in> set evs" for ev a
    using assms(3) that by (fastforce simp: wanted_def bind_eq_Some_conv split: if_splits)
  obtain w1 where w1: "fill_loop evs w = Some w1" "registry_ok w1" "rx_channels w1 = rx_channels w"
    "rx_ctl w1 = rx_ctl w" "rx_events_size w1 = rx_events_size w"
    "rx_activeChannels w1 = rx_activeChannels w @ map snd evs"
    "\<And>a. map_option ch_revents (rx_chans w1 a)
          = (case map_of (rev (map (\<lambda>(ev, a). (a, ev)) evs)) a of
               Some ev \<Rightarrow> Some ev | None \<Rightarrow> map_option ch_revents (rx_chans w a))"
    using fill_loop_ok [OF assms(1), of evs] reg by blast
  define w' where "w' = (if evs \<noteq> [] \<and> length evs = rx_events_size w
    then w1\<lparr>rx_events_size := rx_events_size w1 * 2\<rparr> else w1)"
  have "EPollPoller_poll (Inr evs) w = Some w'"
    using w1(1,5) assms(2)
    by (cases evs) (simp_all add: EPollPoller_poll_def fillActiveChannels_def w'_def)
  moreover have "registry_ok w'"
    using w1(2) by (simp add: w'_def registry_ok_def chan_ok_def wanted_def [abs_def])
  moreover have "map_option ch_revents (rx_chans w' a) = Some ev"
    if "distinct (map snd evs)" "(ev, a) \<in> set evs" for ev a
  proof -
    have "distinct (map fst (rev (map (\<lambda>(ev, a). (a, ev)) evs)))"
      using that(1) by (simp add: rev_map [symmetric] comp_def case_prod_unfold)
    moreover have "(a, ev) \<in> set (rev (map (\<lambda>(ev, a). (a, ev)) evs))"
      using that(2) by force
    ultimately have "map_of (rev (map (\<lambda>(ev, a). (a, ev)) evs)) a = Some ev"
      by (rule map_of_is_SomeI)
    then show ?thesis
      using w1(7) [of a] by (simp add: w'_def)
  qed
  ultimately show ?thesis
    using w1(3-6) by (auto simp: EPollPoller_poll_def w'_def)
qed

lemma poll_reports_events_witness:
  "wanted sample_reactor 7 = Some (kReadEvent, 1)
   \<and> (\<exists>w'. EPollPoller_poll (Inr [(POLLIN, 1)]) sample_reactor = Some w'
        \<and> rx_activeChannels w' = [1] \<and> map_option ch_revents (rx_chans w' 1) = Some POLLIN)"
proof -
  have s: "wanted sample_reactor 7 = Some (kReadEvent, 1)" "rx_events_size sample_reactor = 16"
    "rx_activeChannels sample_reactor = []"
    by (simp_all add: wanted_def sample_reactor_def sample_channel_def channel_init_def reactor_new_def
        kInitEventListSize_def)
  have "length [(POLLIN, 1)] \<le> rx_events_size sample_reactor"
    "\<forall>(ev, a) \<in> set [(POLLIN, 1)]. \<exists>fd m. wanted sample_reactor fd = Some (m, a)"
    using s by auto
  from poll_reports_events [OF sample_reactor_ok this, of 0] s show ?thesis
    by auto
qed

text \<open>
  C19: The order of the callbacks of a channel. Handling an event runs the close callback exactly when
  the peer hung up and there is nothing to read, the error callback exactly on an error or an invalid
  descriptor, the read callback exactly when there is something to read, urgent or not, or the peer shut
  down its side, and the write callback exactly when writing is possible; in this order, each at most
  once and only if it is set. A channel tied to an owner runs none of them once the owner is gone.
\<close>

theorem dispatch_order:
  assumes "rx_chans w a = Some ch"
  defines "ev \<equiv> ch_revents ch"
  shows "map_option calls (handleEvent trace_run t a w) =
    Some (calls w @
      (if ch_tied ch \<and> (case ch_tie ch of Some obj \<Rightarrow> \<not> rx_alive w obj | None \<Rightarrow> True) then []
       else due (has_any ev POLLHUP \<and> \<not> has_any ev POLLIN) (ch_closeCallback ch)
          @ due (has_any ev POLLERR \<or> has_any ev POLLNVAL) (ch_errorCallback ch)
          @ due (has_any ev POLLIN \<or> has_any ev POLLPRI \<or> has_any ev POLLRDHUP) (ch_readCallback ch)
          @ due (has_any ev POLLOUT) (ch_writeCallback ch)))"
proof -
  have or: "has_any e (m OR n) \<longleftrightarrow> has_any e m \<or> has_any e n" for e m n
    by (simp add: has_any_def bit.conj_disj_distrib or_eq_0_iff)
  have "map_option calls (handleEventWithGuard trace_run t a w) =
    Some (calls w @ due (has_any ev POLLHUP \<and> \<not> has_any ev POLLIN) (ch_closeCallback ch)
          @ due (has_any ev POLLERR \<or> has_any ev POLLNVAL) (ch_errorCallback ch)
          @ due (has_any ev POLLIN \<or> has_any ev POLLPRI \<or> has_any ev POLLRDHUP) (ch_readCallback ch)
          @ due (has_any ev POLLOUT) (ch_writeCallback ch))"
    using assms(1)
    by (simp add: handleEventWithGuard_def modify_chan_def set_chan_def if_then_call_traced or ev_def)
  then show ?thesis
    using assms(1) by (auto simp: handleEvent_def split: option.split)
qed

lemma dispatch_order_witness:
  "map_option calls (handleEvent trace_run Timestamp_invalid 1
      (reactor.extend (sample_reactor\<lparr>rx_chans := [1 \<mapsto> sample_channel\<lparr>ch_revents := POLLIN OR POLLOUT\<rparr>]\<rparr>)
        \<lparr>calls = []\<rparr>)) = Some [10, 11]"
proof -
  let ?w = "reactor.extend (sample_reactor\<lparr>rx_chans := [1 \<mapsto> sample_channel\<lparr>ch_revents := POLLIN OR POLLOUT\<rparr>]\<rparr>)
        \<lparr>calls = []\<rparr>"
  have "rx_chans ?w 1 = Some (sample_channel\<lparr>ch_revents := POLLIN OR POLLOUT\<rparr>)" "calls ?w = []"
    by (simp_all add: reactor.defs)
  from dispatch_order [OF this(1)] this(2) show ?thesis
    by (simp add: sample_channel_def channel_init_def due_def has_any_def poll_masks)
qed

text \<open>
  A flaw: disabling a channel twice puts its descriptor back into the interest list. \<open>disableAll\<close> on a
  registered channel takes the descriptor out of the interest list; a second \<open>disableAll\<close> adds it again,
  with an empty mask, for which epoll still reports errors and hang-ups.
\<close>

theorem disableAll_twice_readds:
  assumes "registry_ok w" and "rx_chans w a = Some ch" and "ch_index ch = kAdded"
  shows "\<exists>w1 w2. disableAll a w = Some w1 \<and> wanted w1 (ch_fd ch) = None
    \<and> disableAll a w1 = Some w2 \<and> wanted w2 (ch_fd ch) = Some (0, a)
    \<and> rx_ctl w2 = rx_ctl w @ [Ctl CTL_DEL (ch_fd ch) 0 a, Ctl CTL_ADD (ch_fd ch) 0 a]"
proof -
  have c: "chan_ok w a ch"
    by (rule registry_okD [OF assms(1,2)])
  then have loop: "ch_loop ch = rx_loop w" and r: "rx_channels w (ch_fd ch) = Some a"
    using assms(3) by (simp_all add: chan_ok_def)
  define ch1 where "ch1 = ch\<lparr>ch_events := kNoneEvent, ch_addedToLoop := True, ch_index := kDeleted\<rparr>"
  define w1 where "w1 = commit a ch1 (Some CTL_DEL) (Some a) w"
  have d1: "disableAll a w = Some w1"
    using assms(3) r by (simp add: disableAll_def set_events_eq [OF assms(2) loop] w1_def ch1_def)
  have ch1: "rx_chans w1 a = Some ch1" "ch_loop ch1 = rx_loop w1"
    using loop by (simp_all add: w1_def commit_defs ch1_def)
  have "disableAll a w1 = Some (commit a (ch1\<lparr>ch_index := kAdded\<rparr>) (Some CTL_ADD) (Some a) w1)"
    unfolding disableAll_def set_events_eq [OF ch1] using r
    by (simp add: ch1_def w1_def commit_defs)
  with d1 show ?thesis
    by (simp add: w1_def ch1_def commit_def wanted_def kNoneEvent_def)
qed

lemma disableAll_twice_readds_witness:
  "ch_index sample_channel = kAdded
   \<and> (\<exists>w1 w2. disableAll 1 sample_reactor = Some w1 \<and> disableAll 1 w1 = Some w2
        \<and> wanted w2 7 = Some (0, 1))"
proof -
  have "rx_chans sample_reactor 1 = Some sample_channel" "ch_index sample_channel = kAdded"
    "ch_fd sample_channel = 7"
    by (simp_all add: sample_reactor_def sample_channel_def channel_init_def)
  from disableAll_twice_readds [OF sample_reactor_ok this(1,2)] this show ?thesis
    by auto
qed

end
