(* ===== verification/Atomic.thy ===== *)
theory Atomic
  imports Prelude "HOL-Library.Word"
begin

section \<open>Atomic counters: \<open>base/atomic.h\<close>\<close>

text \<open>
  The template \<open>AtomicIntegerT\<close> at any width. The number of timers created so far and the sequence
  numbers drawn from it use the 64-bit instance.
\<close>

unbundle bit_operations_syntax

text \<open>
  The template is instantiated at 32 and 64 bits. The builtins \<open>__sync_fetch_and_add\<close> and so on wrap
  around; the sum in \<open>addAndGet\<close> is a signed sum, undefined when it leaves the range. An operation takes
  the current value and returns its result and the new value.
\<close>

definition atomic_init :: "'w::len word" where
  "atomic_init = 0"

definition atomic_get :: "'w::len word \<Rightarrow> 'w word \<times> 'w word" where
  "atomic_get v = (if v = 0 then (v, 0) else (v, v))"

definition getAndAdd :: "'w::len word \<Rightarrow> 'w word \<Rightarrow> 'w word \<times> 'w word" where
  "getAndAdd x v = (v, v + x)"

definition addAndGet :: "'w::len word \<Rightarrow> 'w word \<Rightarrow> ('w word \<times> 'w word) option" where
  "addAndGet x v = (case getAndAdd x v of (old, new) \<Rightarrow> do {
     assert_that (sint (old + x) = sint old + sint x);
     Some (old + x, new) })"

definition incrementAndGet :: "'w::len word \<Rightarrow> ('w word \<times> 'w word) option" where
  "incrementAndGet = addAndGet 1"

definition decrementAndGet :: "'w::len word \<Rightarrow> ('w word \<times> 'w word) option" where
  "decrementAndGet = addAndGet (- 1)"

definition atomic_add :: "'w::len word \<Rightarrow> 'w word \<Rightarrow> 'w word" where
  "atomic_add x v = snd (getAndAdd x v)"

definition atomic_increment :: "'w::len word \<Rightarrow> 'w word option" where
  "atomic_increment v = map_option snd (incrementAndGet v)"

definition atomic_decrement :: "'w::len word \<Rightarrow> 'w word option" where
  "atomic_decrement v = map_option snd (decrementAndGet v)"

definition getAndSet :: "'w::len word \<Rightarrow> 'w word \<Rightarrow> 'w word \<times> 'w word" where
  "getAndSet newValue v = (v, newValue)"

lemma incrementAndGet_Some:
  assumes "incrementAndGet v = Some (r, v')"
  shows "r = v'" and "sint v' = sint v + sint (1 :: 'w::len word)" and "v' = v + (1 :: 'w word)"
  using assms by (auto simp: incrementAndGet_def addAndGet_def getAndAdd_def split: if_splits)

lemma incrementAndGet_returns:
  fixes v :: "64 word"
  assumes "sint v < 2 ^ 63 - 1"
  shows "incrementAndGet v = Some (v + 1, v + 1)" and "sint (v + 1) = sint v + 1"
proof -
  have "- (2 ^ 63) \<le> sint v"
    using sint_greater_eq [of v] by simp
  then have "take_bit 64 (sint v + 1 + 2 ^ 63) = sint v + 1 + 2 ^ 63"
    using assms by (simp add: take_bit_eq_mod)
  then have "signed_take_bit 63 (sint v + 1) = sint v + 1"
    by (simp add: signed_take_bit_eq_take_bit_shift)
  then show s: "sint (v + 1) = sint v + 1"
    by (simp add: sint_word_ariths)
  then show "incrementAndGet v = Some (v + 1, v + 1)"
    by (simp add: incrementAndGet_def addAndGet_def getAndAdd_def)
qed

end
