(* ===== verification/TimerQueue.thy ===== *)
theory TimerQueue
  imports ChannelProps Atomic "HOL-Library.Product_Lexorder"
begin

section \<open>Timers: \<open>net/timer.*\<close>, \<open>net/timer_id.h\<close>, \<open>net/timer_queue.*\<close>\<close>

text \<open>
  The timer objects live in a store, as the channels do; the queue extends the state of the reactor by
  its members. Every reading of the clock is an argument, the system calls on the timer descriptor are
  recorded in \<open>timerfd_calls\<close>. \<open>double\<close> values are rationals, rounded by the argument \<open>rnd\<close>.
  \<open>addTimer\<close> and \<open>cancel\<close>, which go through the event loop, are in the theory \<open>EventLoop\<close>.
\<close>

subsection \<open>Ordered sets\<close>

text \<open>
  \<open>std::set\<close>: a strictly ascending list. \<open>std::pair\<close> is ordered by its first component, then by its
  second one; \<open>Timestamp\<close> by the microseconds.
\<close>

instantiation Timestamp_ext :: (linorder) linorder
begin

definition less_eq_Timestamp_ext :: "'a Timestamp_scheme \<Rightarrow> 'a Timestamp_scheme \<Rightarrow> bool" where
  "less_eq_Timestamp_ext s t \<longleftrightarrow> microSecondsSinceEpoch s < microSecondsSinceEpoch t
     \<or> microSecondsSinceEpoch s = microSecondsSinceEpoch t \<and> Timestamp.more s \<le> Timestamp.more t"

definition less_Timestamp_ext :: "'a Timestamp_scheme \<Rightarrow> 'a Timestamp_scheme \<Rightarrow> bool" where
  "less_Timestamp_ext s t \<longleftrightarrow> microSecondsSinceEpoch s < microSecondsSinceEpoch t
     \<or> microSecondsSinceEpoch s = microSecondsSinceEpoch t \<and> Timestamp.more s < Timestamp.more t"

instance
  by standard
    (auto simp: less_eq_Timestamp_ext_def less_Timestamp_ext_def intro: Timestamp.equality)

end

lemma Timestamp_less_iff: "Timestamp_less s t \<longleftrightarrow> s < t"
  by (simp add: Timestamp_less_def less_Timestamp_ext_def)

lemma Timestamp_le_iff: "s \<le> t \<longleftrightarrow> microSecondsSinceEpoch s \<le> microSecondsSinceEpoch t"
  for s t :: Timestamp
  by (auto simp: less_eq_Timestamp_ext_def)

definition set_insert :: "'a::linorder \<Rightarrow> 'a list \<Rightarrow> 'a list \<times> bool" where
  "set_insert x xs = (if x \<in> set xs then (xs, False) else (insort x xs, True))"

definition set_erase :: "'a::linorder \<Rightarrow> 'a list \<Rightarrow> 'a list \<times> nat" where
  "set_erase x xs = (if x \<in> set xs then (remove1 x xs, 1) else (xs, 0))"

definition set_before :: "'a::linorder \<Rightarrow> 'a list \<Rightarrow> 'a list" where
  "set_before key xs = takeWhile (\<lambda>x. x < key) xs"

definition set_lower_bound :: "'a::linorder \<Rightarrow> 'a list \<Rightarrow> 'a list" where
  "set_lower_bound key xs = dropWhile (\<lambda>x. x < key) xs"

subsection \<open>\<open>Timer\<close> and \<open>TimerId\<close>\<close>

record 'k timer =
  tm_callback :: 'k
  tm_expiration :: Timestamp
  tm_interval :: rat
  tm_repeat :: bool
  tm_sequence :: int

record TimerId =
  id_timer :: addr
  id_sequence :: int

definition TimerId_default :: TimerId where
  "TimerId_default = \<lparr>id_timer = 0, id_sequence = 0\<rparr>"

definition Timer_init :: "'k \<Rightarrow> Timestamp \<Rightarrow> rat \<Rightarrow> int \<Rightarrow> 'k timer" where
  "Timer_init cb when interval sequence =
     \<lparr>tm_callback = cb, tm_expiration = when, tm_interval = interval, tm_repeat = (interval > 0),
      tm_sequence = sequence\<rparr>"

definition Timer_restart :: "(rat \<Rightarrow> rat) \<Rightarrow> Timestamp \<Rightarrow> 'k timer \<Rightarrow> 'k timer option" where
  "Timer_restart rnd now tm =
     (if tm_repeat tm
      then do { t \<leftarrow> addTime rnd now (tm_interval tm); Some (tm\<lparr>tm_expiration := t\<rparr>) }
      else Some (tm\<lparr>tm_expiration := Timestamp_invalid\<rparr>))"

subsection \<open>State\<close>

type_synonym Entry = "Timestamp \<times> addr"
type_synonym ActiveTimer = "addr \<times> int"

text \<open>
  The system calls on the timer descriptor: \<open>timerfd_settime\<close> with the seconds and nanoseconds of
  \<open>it_value\<close> and the time at which they were computed, and \<open>read\<close>.
\<close>

datatype timerfd_call = Settime Timestamp int int | ReadTimerfd

record 'k timer_queue = "'k reactor" +
  timerfd :: int
  timerfdChannel :: addr
  timer_objs :: "addr \<rightharpoonup> 'k timer"
  timers :: "Entry list"
  activeTimers :: "ActiveTimer list"
  callingExpiredTimers :: bool
  cancelingTimers :: "ActiveTimer list"
  numCreated :: "64 word"
  timerfd_calls :: "timerfd_call list"

definition UINTPTR_MAX :: nat where
  "UINTPTR_MAX = 2 ^ 64 - 1"

subsection \<open>The timer descriptor\<close>

definition howMuchTimeFromNow :: "Timestamp \<Rightarrow> Timestamp \<Rightarrow> (int \<times> int) option" where
  "howMuchTimeFromNow now when = do {
     microseconds \<leftarrow> ck64 (microSecondsSinceEpoch when - microSecondsSinceEpoch now);
     let microseconds = (if microseconds < 100 then 100 else microseconds);
     Some (cdiv microseconds kMicroSecondsPerSecond, cmod microseconds kMicroSecondsPerSecond * 1000)
   }"

definition readTimerfd :: "('k, 'z) timer_queue_scheme \<Rightarrow> ('k, 'z) timer_queue_scheme" where
  "readTimerfd w = w\<lparr>timerfd_calls := timerfd_calls w @ [ReadTimerfd]\<rparr>"

definition resetTimerfd ::
    "Timestamp \<Rightarrow> Timestamp \<Rightarrow> ('k, 'z) timer_queue_scheme \<Rightarrow> ('k, 'z) timer_queue_scheme option" where
  "resetTimerfd now expiration w = do {
     (sec, nsec) \<leftarrow> howMuchTimeFromNow now expiration;
     Some (w\<lparr>timerfd_calls := timerfd_calls w @ [Settime now sec nsec]\<rparr>)
   }"

subsection \<open>\<open>TimerQueue\<close>\<close>

text \<open>\<open>new Timer\<close> at the address \<open>a\<close> where no object lives, and \<open>delete\<close>.\<close>

definition Timer_new ::
    "addr \<Rightarrow> 'k \<Rightarrow> Timestamp \<Rightarrow> rat \<Rightarrow> ('k, 'z) timer_queue_scheme \<Rightarrow> ('k, 'z) timer_queue_scheme option" where
  "Timer_new a cb when interval w = do {
     assert_that (timer_objs w a = None \<and> a < UINTPTR_MAX);
     (sequence, n) \<leftarrow> incrementAndGet (numCreated w);
     Some (w\<lparr>numCreated := n,
             timer_objs := (timer_objs w)(a \<mapsto> Timer_init cb when interval (sint sequence))\<rparr>)
   }"

definition Timer_delete :: "addr \<Rightarrow> ('k, 'z) timer_queue_scheme \<Rightarrow> ('k, 'z) timer_queue_scheme option" where
  "Timer_delete a w = do {
     _ \<leftarrow> timer_objs w a;
     Some (w\<lparr>timer_objs := (timer_objs w)(a := None)\<rparr>)
   }"

text \<open>The constructor: descriptor and address of the channel, and the callback bound to \<open>handleRead\<close>.\<close>

definition TimerQueue_new ::
    "int \<Rightarrow> addr \<Rightarrow> 'k \<Rightarrow> ('k, 'z) timer_queue_scheme \<Rightarrow> ('k, 'z) timer_queue_scheme option" where
  "TimerQueue_new fd ch cb w = do {
     w1 \<leftarrow> Channel_new ch fd (w\<lparr>timerfd := fd, timerfdChannel := ch, timers := [], activeTimers := [],
                               callingExpiredTimers := False, cancelingTimers := []\<rparr>);
     w2 \<leftarrow> setReadCallback cb ch w1;
     enableReading ch w2
   }"

text \<open>The destructor; the member \<open>timerfdChannel_\<close> is destroyed after its body.\<close>

definition TimerQueue_destroy :: "('k, 'z) timer_queue_scheme \<Rightarrow> ('k, 'z) timer_queue_scheme option" where
  "TimerQueue_destroy w = do {
     w1 \<leftarrow> disableAll (timerfdChannel w) w;
     w2 \<leftarrow> Channel_remove (timerfdChannel w) w1;
     w3 \<leftarrow> run_all (\<lambda>entry. Timer_delete (snd entry)) (timers w) w2;
     Channel_destroy (timerfdChannel w) w3
   }"

definition TimerQueue_insert ::
    "addr \<Rightarrow> ('k, 'z) timer_queue_scheme \<Rightarrow> (bool \<times> ('k, 'z) timer_queue_scheme) option" where
  "TimerQueue_insert a w = do {
     assert_that (length (timers w) = length (activeTimers w));
     tm \<leftarrow> timer_objs w a;
     let when = tm_expiration tm;
     let earliestChanged = (case timers w of [] \<Rightarrow> True | entry # _ \<Rightarrow> Timestamp_less when (fst entry));
     let (ts, fresh) = set_insert (when, a) (timers w);
     assert_that fresh;
     let (acts, fresh) = set_insert (a, tm_sequence tm) (activeTimers w);
     assert_that fresh;
     let w1 = w\<lparr>timers := ts, activeTimers := acts\<rparr>;
     assert_that (length (timers w1) = length (activeTimers w1));
     Some (earliestChanged, w1)
   }"

definition addTimerInLoop ::
    "Timestamp \<Rightarrow> addr \<Rightarrow> ('k, 'z) timer_queue_scheme \<Rightarrow> ('k, 'z) timer_queue_scheme option" where
  "addTimerInLoop now a w = do {
     (earliestChanged, w1) \<leftarrow> TimerQueue_insert a w;
     if earliestChanged
     then do { tm \<leftarrow> timer_objs w1 a; resetTimerfd now (tm_expiration tm) w1 }
     else Some w1
   }"

definition cancelInLoop ::
    "TimerId \<Rightarrow> ('k, 'z) timer_queue_scheme \<Rightarrow> ('k, 'z) timer_queue_scheme option" where
  "cancelInLoop timerId w = do {
     assert_that (length (timers w) = length (activeTimers w));
     let timer = (id_timer timerId, id_sequence timerId);
     w1 \<leftarrow> (if timer \<in> set (activeTimers w)
        then do {
          tm \<leftarrow> timer_objs w (fst timer);
          let (ts, n) = set_erase (tm_expiration tm, fst timer) (timers w);
          assert_that (n = 1);
          w2 \<leftarrow> Timer_delete (fst timer) (w\<lparr>timers := ts\<rparr>);
          Some (w2\<lparr>activeTimers := fst (set_erase timer (activeTimers w2))\<rparr>) }
        else if callingExpiredTimers w
        then Some (w\<lparr>cancelingTimers := fst (set_insert timer (cancelingTimers w))\<rparr>)
        else Some w);
     assert_that (length (timers w1) = length (activeTimers w1));
     Some w1
   }"

text \<open>\<open>erase_expired\<close> is the loop of \<open>getExpired\<close> over the expired entries.\<close>

fun erase_expired ::
    "Entry list \<Rightarrow> ('k, 'z) timer_queue_scheme \<Rightarrow> ('k, 'z) timer_queue_scheme option" where
  "erase_expired [] w = Some w"
| "erase_expired (entry # rest) w = do {
     tm \<leftarrow> timer_objs w (snd entry);
     let (acts, n) = set_erase (snd entry, tm_sequence tm) (activeTimers w);
     assert_that (n = 1);
     erase_expired rest (w\<lparr>activeTimers := acts\<rparr>)
   }"

definition getExpired ::
    "Timestamp \<Rightarrow> ('k, 'z) timer_queue_scheme \<Rightarrow> (Entry list \<times> ('k, 'z) timer_queue_scheme) option" where
  "getExpired now w = do {
     assert_that (length (timers w) = length (activeTimers w));
     let sentry = (now, UINTPTR_MAX);
     let rest = set_lower_bound sentry (timers w);
     assert_that (case rest of [] \<Rightarrow> True | entry # _ \<Rightarrow> Timestamp_less now (fst entry));
     let expired = set_before sentry (timers w);
     w1 \<leftarrow> erase_expired expired (w\<lparr>timers := rest\<rparr>);
     assert_that (length (timers w1) = length (activeTimers w1));
     Some (expired, w1)
   }"

text \<open>\<open>reset_loop\<close> is the loop of \<open>reset\<close>; the second reading of the clock is that of \<open>resetTimerfd\<close>.\<close>

fun reset_loop ::
    "(rat \<Rightarrow> rat) \<Rightarrow> Timestamp \<Rightarrow> Entry list \<Rightarrow> ('k, 'z) timer_queue_scheme
      \<Rightarrow> ('k, 'z) timer_queue_scheme option" where
  "reset_loop rnd now [] w = Some w"
| "reset_loop rnd now (entry # rest) w = do {
     tm \<leftarrow> timer_objs w (snd entry);
     w1 \<leftarrow> (if tm_repeat tm \<and> (snd entry, tm_sequence tm) \<notin> set (cancelingTimers w)
        then do {
          tm1 \<leftarrow> Timer_restart rnd now tm;
          (_, w2) \<leftarrow> TimerQueue_insert (snd entry) (w\<lparr>timer_objs := (timer_objs w)(snd entry \<mapsto> tm1)\<rparr>);
          Some w2 }
        else Timer_delete (snd entry) w);
     reset_loop rnd now rest w1
   }"

definition TimerQueue_reset ::
    "(rat \<Rightarrow> rat) \<Rightarrow> Entry list \<Rightarrow> Timestamp \<Rightarrow> Timestamp \<Rightarrow> ('k, 'z) timer_queue_scheme
      \<Rightarrow> ('k, 'z) timer_queue_scheme option" where
  "TimerQueue_reset rnd expired now now2 w = do {
     w1 \<leftarrow> reset_loop rnd now expired w;
     nextExpire \<leftarrow> (case timers w1 of [] \<Rightarrow> Some Timestamp_invalid
        | entry # _ \<Rightarrow> do { tm \<leftarrow> timer_objs w1 (snd entry); Some (tm_expiration tm) });
     if Timestamp_valid nextExpire then resetTimerfd now2 nextExpire w1 else Some w1
   }"

text \<open>\<open>run\<close> executes a callback; the callbacks run in the loop thread and may add and cancel timers.\<close>

fun run_expired ::
    "('k \<Rightarrow> ('k, 'z) timer_queue_scheme \<Rightarrow> ('k, 'z) timer_queue_scheme option) \<Rightarrow> Entry list
      \<Rightarrow> ('k, 'z) timer_queue_scheme \<Rightarrow> ('k, 'z) timer_queue_scheme option" where
  "run_expired run [] w = Some w"
| "run_expired run (entry # rest) w = do {
     tm \<leftarrow> timer_objs w (snd entry);
     w1 \<leftarrow> run (tm_callback tm) w;
     run_expired run rest w1
   }"

definition TimerQueue_handleRead ::
    "(rat \<Rightarrow> rat) \<Rightarrow> ('k \<Rightarrow> ('k, 'z) timer_queue_scheme \<Rightarrow> ('k, 'z) timer_queue_scheme option)
      \<Rightarrow> Timestamp \<Rightarrow> Timestamp \<Rightarrow> ('k, 'z) timer_queue_scheme \<Rightarrow> ('k, 'z) timer_queue_scheme option" where
  "TimerQueue_handleRead rnd run now now2 w = do {
     (expired, w1) \<leftarrow> getExpired now (readTimerfd w);
     w2 \<leftarrow> run_expired run expired (w1\<lparr>callingExpiredTimers := True, cancelingTimers := []\<rparr>);
     TimerQueue_reset rnd expired now now2 (w2\<lparr>callingExpiredTimers := False\<rparr>)
   }"

end
