(* ===== verification/TimerQueueInv.thy ===== *)
theory TimerQueueInv
  imports TimerQueue
begin

section \<open>The invariant of the timer queue\<close>

text \<open>
  Both sets of the queue are determined by the timer objects that exist, except those in transit: created
  but not inserted yet, or taken out while the expired callbacks run. Every operation is computed in terms
  of that invariant, together with what it does to the timer descriptor; callbacks that add and cancel
  timers keep it.
\<close>

subsection \<open>The invariant\<close>

text \<open>
  Both sets hold exactly the live timers that are not in transit. \<open>X\<close> is the set of the timers in
  transit: created but not yet inserted, or expired and taken out while the callbacks run.
\<close>

definition schedule :: "addr set \<Rightarrow> (addr \<rightharpoonup> 'k timer) \<Rightarrow> Entry set" where
  "schedule X objs = {(tm_expiration tm, a) |a tm. objs a = Some tm \<and> a \<notin> X}"

definition actives :: "addr set \<Rightarrow> (addr \<rightharpoonup> 'k timer) \<Rightarrow> ActiveTimer set" where
  "actives X objs = {(a, tm_sequence tm) |a tm. objs a = Some tm \<and> a \<notin> X}"

definition objs_ok :: "addr set \<Rightarrow> ('k, 'z) timer_queue_scheme \<Rightarrow> bool" where
  "objs_ok X w \<longleftrightarrow> finite (dom (timer_objs w)) \<and> X \<subseteq> dom (timer_objs w)
     \<and> (\<forall>a tm. timer_objs w a = Some tm \<longrightarrow> a < UINTPTR_MAX
        \<and> tm_sequence tm \<le> sint (numCreated w) \<and> (tm_repeat tm \<longrightarrow> 0 < tm_interval tm))"

definition tq_ok :: "addr set \<Rightarrow> ('k, 'z) timer_queue_scheme \<Rightarrow> bool" where
  "tq_ok X w \<longleftrightarrow> objs_ok X w
     \<and> timers w = sorted_list_of_set (schedule X (timer_objs w))
     \<and> activeTimers w = sorted_list_of_set (actives X (timer_objs w))"

lemma tq_okD:
  assumes "tq_ok X w"
  shows "objs_ok X w" and "timers w = sorted_list_of_set (schedule X (timer_objs w))"
    and "activeTimers w = sorted_list_of_set (actives X (timer_objs w))"
  using assms by (simp_all add: tq_ok_def)

lemma schedule_mem: "(t, a) \<in> schedule X objs \<longleftrightarrow> (\<exists>tm. objs a = Some tm \<and> tm_expiration tm = t \<and> a \<notin> X)"
  by (auto simp: schedule_def)

lemma actives_mem: "(a, s) \<in> actives X objs \<longleftrightarrow> (\<exists>tm. objs a = Some tm \<and> tm_sequence tm = s \<and> a \<notin> X)"
  by (auto simp: actives_def)

lemma schedule_image: "schedule X objs = (\<lambda>a. (tm_expiration (the (objs a)), a)) ` (dom objs - X)"
  by (force simp: schedule_def image_iff)

lemma actives_image: "actives X objs = (\<lambda>a. (a, tm_sequence (the (objs a)))) ` (dom objs - X)"
  by (force simp: actives_def image_iff)

lemma finite_schedule [simp]: "finite (dom objs) \<Longrightarrow> finite (schedule X objs)"
  by (simp add: schedule_image)

lemma finite_actives [simp]: "finite (dom objs) \<Longrightarrow> finite (actives X objs)"
  by (simp add: actives_image)

lemma card_schedule: "card (schedule X objs) = card (dom objs - X)"
  unfolding schedule_image by (rule card_image) (simp add: inj_on_def)

lemma card_actives: "card (actives X objs) = card (dom objs - X)"
  unfolding actives_image by (rule card_image) (simp add: inj_on_def)

lemma same_size: "tq_ok X w \<Longrightarrow> length (timers w) = length (activeTimers w)"
  by (simp add: tq_ok_def objs_ok_def card_schedule card_actives)

lemma set_timers: "tq_ok X w \<Longrightarrow> set (timers w) = schedule X (timer_objs w)"
  by (simp add: tq_ok_def objs_ok_def)

lemma set_activeTimers: "tq_ok X w \<Longrightarrow> set (activeTimers w) = actives X (timer_objs w)"
  by (simp add: tq_ok_def objs_ok_def)

lemma sorted_timers: "tq_ok X w \<Longrightarrow> sorted (timers w)"
  by (simp add: tq_ok_def)

lemma distinct_timers: "tq_ok X w \<Longrightarrow> distinct (timers w)"
  by (simp add: tq_ok_def)

lemma distinct_timer_addrs:
  assumes "tq_ok X w"
  shows "distinct (map snd (timers w))"
  using distinct_timers [OF assms] set_timers [OF assms]
  by (auto simp: distinct_map inj_on_def schedule_mem)

lemma schedule_enter:
  "objs a = Some tm \<Longrightarrow> a \<in> X \<Longrightarrow> schedule (X - {a}) objs = insert (tm_expiration tm, a) (schedule X objs)"
  by (auto simp: schedule_def)

lemma actives_enter:
  "objs a = Some tm \<Longrightarrow> a \<in> X \<Longrightarrow> actives (X - {a}) objs = insert (a, tm_sequence tm) (actives X objs)"
  by (auto simp: actives_def)

lemma actives_leave:
  "objs a = Some tm \<Longrightarrow> a \<notin> X \<Longrightarrow> actives (insert a X) objs = actives X objs - {(a, tm_sequence tm)}"
  by (auto simp: actives_def)

lemma upd_None_eq_Some: "(m(a := None)) b = Some v \<longleftrightarrow> b \<noteq> a \<and> m b = Some v"
  by simp

lemma schedule_delete:
  "objs a = Some tm \<Longrightarrow> schedule X (objs(a := None)) = schedule X objs - {(tm_expiration tm, a)}"
  by (rule set_eqI) (auto simp: schedule_mem upd_None_eq_Some simp del: fun_upd_apply)

lemma actives_delete:
  "objs a = Some tm \<Longrightarrow> actives X (objs(a := None)) = actives X objs - {(a, tm_sequence tm)}"
  by (rule set_eqI) (auto simp: actives_mem upd_None_eq_Some simp del: fun_upd_apply)

lemma schedule_transit: "a \<in> X \<Longrightarrow> schedule X (objs(a := v)) = schedule X objs"
  by (auto simp: schedule_def)

lemma actives_transit: "a \<in> X \<Longrightarrow> actives X (objs(a := v)) = actives X objs"
  by (auto simp: actives_def)

lemma transit_gone: "objs a = None \<Longrightarrow> schedule (X - {a}) objs = schedule X objs \<and> actives (X - {a}) objs = actives X objs"
  by (auto simp: schedule_def actives_def)

lemma objs_ok_delete:
  assumes "objs_ok X w" and "a \<notin> X"
  shows "objs_ok X (w\<lparr>timer_objs := (timer_objs w)(a := None)\<rparr>)"
  using assms by (auto simp: objs_ok_def)

subsection \<open>The operations in terms of the invariant\<close>

lemma tq_insert_eq:
  assumes ok: "tq_ok X w" and a: "a \<in> X" "timer_objs w a = Some tm"
  defines "w1 \<equiv> w\<lparr>timers := insort (tm_expiration tm, a) (timers w),
                   activeTimers := insort (a, tm_sequence tm) (activeTimers w)\<rparr>"
  shows "TimerQueue_insert a w
      = Some ((case timers w of [] \<Rightarrow> True | e # _ \<Rightarrow> tm_expiration tm < fst e), w1)"
    and "tq_ok (X - {a}) w1"
proof -
  have fin: "finite (dom (timer_objs w))"
    using ok by (simp add: tq_ok_def objs_ok_def)
  have new: "(tm_expiration tm, a) \<notin> set (timers w)" "(a, tm_sequence tm) \<notin> set (activeTimers w)"
    using a set_timers [OF ok] set_activeTimers [OF ok] by (auto simp: schedule_mem actives_mem)
  then show "TimerQueue_insert a w
      = Some ((case timers w of [] \<Rightarrow> True | e # _ \<Rightarrow> tm_expiration tm < fst e), w1)"
    using a same_size [OF ok]
    by (simp add: TimerQueue_insert_def set_insert_def w1_def Timestamp_less_iff Let_def split: list.split)
  have "(tm_expiration tm, a) \<notin> schedule X (timer_objs w)" "(a, tm_sequence tm) \<notin> actives X (timer_objs w)"
    using a by (auto simp: schedule_mem actives_mem)
  then show "tq_ok (X - {a}) w1"
    using ok a fin
    by (auto simp: tq_ok_def w1_def objs_ok_def schedule_enter actives_enter sorted_list_of_set_insert)
qed

definition cancelled :: "TimerId \<Rightarrow> addr set \<Rightarrow> ('k, 'z) timer_queue_scheme \<Rightarrow> ('k, 'z) timer_queue_scheme" where
  "cancelled timerId X w =
     (case timer_objs w (id_timer timerId) of
        Some tm \<Rightarrow>
          if tm_sequence tm = id_sequence timerId \<and> id_timer timerId \<notin> X
          then w\<lparr>timers := remove1 (tm_expiration tm, id_timer timerId) (timers w),
                 activeTimers := remove1 (id_timer timerId, id_sequence timerId) (activeTimers w),
                 timer_objs := (timer_objs w)(id_timer timerId := None)\<rparr>
          else if callingExpiredTimers w
          then w\<lparr>cancelingTimers := fst (set_insert (id_timer timerId, id_sequence timerId) (cancelingTimers w))\<rparr>
          else w
      | None \<Rightarrow>
          if callingExpiredTimers w
          then w\<lparr>cancelingTimers := fst (set_insert (id_timer timerId, id_sequence timerId) (cancelingTimers w))\<rparr>
          else w)"

lemma cancelled_hit:
  assumes "timer_objs w (id_timer timerId) = Some tm" and "tm_sequence tm = id_sequence timerId"
    and "id_timer timerId \<notin> X"
  shows "cancelled timerId X w = w\<lparr>timers := remove1 (tm_expiration tm, id_timer timerId) (timers w),
                 activeTimers := remove1 (id_timer timerId, id_sequence timerId) (activeTimers w),
                 timer_objs := (timer_objs w)(id_timer timerId := None)\<rparr>"
  using assms by (simp add: cancelled_def)

lemma cancelled_miss:
  assumes "(id_timer timerId, id_sequence timerId) \<notin> actives X (timer_objs w)"
  shows "cancelled timerId X w = (if callingExpiredTimers w
    then w\<lparr>cancelingTimers := fst (set_insert (id_timer timerId, id_sequence timerId) (cancelingTimers w))\<rparr>
    else w)"
proof (cases "timer_objs w (id_timer timerId)")
  case (Some tm)
  then have "\<not> (tm_sequence tm = id_sequence timerId \<and> id_timer timerId \<notin> X)"
    using assms by (auto simp: actives_mem)
  then show ?thesis
    unfolding cancelled_def Some option.case by (simp only: if_False)
qed (simp add: cancelled_def)

lemma tq_cancel_eq:
  assumes ok: "tq_ok X w"
  shows "cancelInLoop timerId w = Some (cancelled timerId X w)"
    and "tq_ok X (cancelled timerId X w)"
proof -
  let ?a = "id_timer timerId" and ?s = "id_sequence timerId"
  have fin: "finite (dom (timer_objs w))"
    using ok by (simp add: tq_ok_def objs_ok_def)
  have "tq_ok X (cancelled timerId X w) \<and> cancelInLoop timerId w = Some (cancelled timerId X w)"
  proof (cases "(?a, ?s) \<in> actives X (timer_objs w)")
    case True
    then obtain tm where tm: "timer_objs w ?a = Some tm" "tm_sequence tm = ?s" "?a \<notin> X"
      by (auto simp: actives_mem)
    let ?w1 = "w\<lparr>timers := remove1 (tm_expiration tm, ?a) (timers w),
      activeTimers := remove1 (?a, ?s) (activeTimers w), timer_objs := (timer_objs w)(?a := None)\<rparr>"
    have "objs_ok X (w\<lparr>timer_objs := (timer_objs w)(?a := None)\<rparr>)"
      using ok tm(3) by (intro objs_ok_delete) (simp_all add: tq_ok_def)
    then have "objs_ok X ?w1"
      unfolding objs_ok_def by simp
    moreover have "sorted_list_of_set (schedule X ((timer_objs w)(?a := None))) = timers ?w1"
      "sorted_list_of_set (actives X ((timer_objs w)(?a := None))) = activeTimers ?w1"
      unfolding schedule_delete [of "timer_objs w" ?a, OF tm(1)] actives_delete [of "timer_objs w" ?a, OF tm(1)]
      using tq_okD(2,3) [OF ok] fin tm(2) by (simp_all add: sorted_list_of_set_remove)
    ultimately have ok1: "tq_ok X ?w1"
      unfolding tq_ok_def by simp
    have "(tm_expiration tm, ?a) \<in> set (timers w)" "(?a, ?s) \<in> set (activeTimers w)"
      using tm set_timers [OF ok] set_activeTimers [OF ok] by (simp_all add: schedule_mem actives_mem)
    then have "cancelInLoop timerId w = Some ?w1"
      using tm(1) same_size [OF ok] same_size [OF ok1]
      by (simp add: cancelInLoop_def set_erase_def Timer_delete_def Let_def)
    with ok1 show ?thesis
      unfolding cancelled_hit [OF tm] by simp
  next
    case False
    then have "(?a, ?s) \<notin> set (activeTimers w)"
      using set_activeTimers [OF ok] by simp
    then show ?thesis
      unfolding cancelled_miss [OF False] using ok same_size [OF ok]
      by (simp add: cancelInLoop_def Let_def tq_ok_def objs_ok_def)
  qed
  then show "cancelInLoop timerId w = Some (cancelled timerId X w)" "tq_ok X (cancelled timerId X w)"
    by simp_all
qed

lemma tq_Timer_new:
  assumes ok: "tq_ok X w" and new: "Timer_new a cb when interval w = Some w1"
  shows "tq_ok (insert a X) w1" and "a \<notin> dom (timer_objs w)"
    and "timer_objs w1 = (timer_objs w)(a \<mapsto> Timer_init cb when interval (sint (numCreated w1)))"
    and "w1 = w\<lparr>timer_objs := timer_objs w1, numCreated := numCreated w1\<rparr>"
    and "sint (numCreated w1) = sint (numCreated w) + 1"
proof -
  obtain s n where s: "incrementAndGet (numCreated w) = Some (s, n)" and a: "timer_objs w a = None" "a < UINTPTR_MAX"
    and w1: "w1 = w\<lparr>numCreated := n, timer_objs := (timer_objs w)(a \<mapsto> Timer_init cb when interval (sint s))\<rparr>"
    using new by (auto simp: Timer_new_def bind_eq_Some_conv split: prod.splits if_splits)
  have n: "s = n" "sint n = sint (numCreated w) + 1"
    using incrementAndGet_Some [OF s] by simp_all
  have same: "schedule (insert a X) ((timer_objs w)(a \<mapsto> v)) = schedule X (timer_objs w)"
    "actives (insert a X) ((timer_objs w)(a \<mapsto> v)) = actives X (timer_objs w)" for v
    using a(1) by (auto simp: set_eq_iff schedule_mem actives_mem)
  show "tq_ok (insert a X) w1"
  proof -
    have "tm_sequence tm \<le> sint n" if "timer_objs w b = Some tm" for b tm
      using ok n(2) that by (force simp: tq_ok_def objs_ok_def)
    then have "objs_ok (insert a X) w1"
      using ok a n by (auto simp: tq_ok_def objs_ok_def w1 Timer_init_def)
    with ok same show ?thesis
      by (simp add: tq_ok_def w1)
  qed
  show "a \<notin> dom (timer_objs w)" "sint (numCreated w1) = sint (numCreated w) + 1"
    "timer_objs w1 = (timer_objs w)(a \<mapsto> Timer_init cb when interval (sint (numCreated w1)))"
    "w1 = w\<lparr>timer_objs := timer_objs w1, numCreated := numCreated w1\<rparr>"
    using a n by (simp_all add: w1 domIff)
qed

lemma erase_expired_eq:
  assumes "finite (dom (timer_objs w))" and "distinct (map snd es)" and "snd ` set es \<subseteq> dom (timer_objs w) - X"
    and "activeTimers w = sorted_list_of_set (actives X (timer_objs w))"
  shows "erase_expired es w
    = Some (w\<lparr>activeTimers := sorted_list_of_set (actives (X \<union> snd ` set es) (timer_objs w))\<rparr>)"
  using assms
proof (induction es arbitrary: X w)
  case (Cons e es)
  obtain tm where tm: "timer_objs w (snd e) = Some tm" "snd e \<notin> X"
    using Cons.prems(3) by auto
  let ?w1 = "w\<lparr>activeTimers := sorted_list_of_set (actives (insert (snd e) X) (timer_objs w))\<rparr>"
  have "(snd e, tm_sequence tm) \<in> set (activeTimers w)"
    using tm Cons.prems(1,4) by (simp add: actives_mem)
  moreover have "sorted_list_of_set (actives (insert (snd e) X) (timer_objs w))
      = remove1 (snd e, tm_sequence tm) (activeTimers w)"
    unfolding actives_leave [of "timer_objs w", OF tm] using Cons.prems(1,4)
    by (simp add: sorted_list_of_set_remove)
  ultimately have "erase_expired (e # es) w = erase_expired es ?w1"
    using tm by (simp add: set_erase_def Let_def)
  also have "\<dots> = Some (?w1\<lparr>activeTimers :=
      sorted_list_of_set (actives (insert (snd e) X \<union> snd ` set es) (timer_objs ?w1))\<rparr>)"
    using Cons.prems by (intro Cons.IH) (auto simp: image_iff)
  finally show ?case
    by simp
qed simp

lemma takeWhile_sorted:
  assumes "sorted xs" and "\<And>x y. x \<le> y \<Longrightarrow> P y \<Longrightarrow> P x"
  shows "takeWhile P xs = filter P xs" and "dropWhile P xs = filter (\<lambda>x. \<not> P x) xs"
proof -
  have "takeWhile P xs = filter P xs \<and> dropWhile P xs = filter (\<lambda>x. \<not> P x) xs"
    using assms(1)
  proof (induction xs)
    case (Cons x xs)
    have "filter P xs = [] \<and> filter (\<lambda>y. \<not> P y) xs = xs" if "\<not> P x"
      using that Cons.prems assms(2) by (auto simp: filter_empty_conv filter_id_conv)
    with Cons show ?case
      by simp
  qed simp
  then show "takeWhile P xs = filter P xs" "dropWhile P xs = filter (\<lambda>x. \<not> P x) xs"
    by simp_all
qed

text \<open>The entries that have expired at time \<open>now\<close>.\<close>

definition due_entries :: "Timestamp \<Rightarrow> Entry list \<Rightarrow> Entry list" where
  "due_entries now es = filter (\<lambda>e. fst e \<le> now) es"

definition expire :: "Timestamp \<Rightarrow> addr set \<Rightarrow> ('k, 'z) timer_queue_scheme \<Rightarrow> ('k, 'z) timer_queue_scheme" where
  "expire now X w = w\<lparr>timers := filter (\<lambda>e. now < fst e) (timers w),
     activeTimers := sorted_list_of_set (actives (X \<union> snd ` set (due_entries now (timers w))) (timer_objs w))\<rparr>"

lemma getExpired_eq:
  assumes ok: "tq_ok X w"
  shows "getExpired now w = Some (due_entries now (timers w), expire now X w)"
    and "tq_ok (X \<union> snd ` set (due_entries now (timers w))) (expire now X w)"
proof -
  let ?es = "due_entries now (timers w)" and ?rest = "filter (\<lambda>e. now < fst e) (timers w)"
  have fin: "finite (dom (timer_objs w))"
    using ok by (simp add: tq_ok_def objs_ok_def)
  have less: "e < (now, UINTPTR_MAX) \<longleftrightarrow> fst e \<le> now" if "e \<in> set (timers w)" for e
  proof -
    have "snd e < UINTPTR_MAX"
      using that tq_okD(1) [OF ok] unfolding set_timers [OF ok] by (cases e) (auto simp: schedule_mem objs_ok_def)
    then show ?thesis
      by (cases e) (auto simp: less_prod_def le_less)
  qed
  have split: "set_before (now, UINTPTR_MAX) (timers w) = ?es"
    "set_lower_bound (now, UINTPTR_MAX) (timers w) = ?rest"
    unfolding set_before_def set_lower_bound_def due_entries_def
    using less takeWhile_sorted [OF sorted_timers [OF ok], of "\<lambda>e. e < (now, UINTPTR_MAX)"]
    by (auto intro!: filter_cong simp: not_le [symmetric])
  have sub: "snd ` set ?es \<subseteq> dom (timer_objs w) - X"
    using set_timers [OF ok] by (auto simp: due_entries_def schedule_mem)
  have "schedule (X \<union> snd ` set ?es) (timer_objs w) = {e \<in> schedule X (timer_objs w). now < fst e}"
  proof (rule set_eqI)
    fix e :: Entry
    obtain t a where e: "e = (t, a)"
      by (cases e)
    have "a \<in> snd ` set ?es \<longleftrightarrow> t \<le> now" if "(t, a) \<in> schedule X (timer_objs w)"
      using that unfolding due_entries_def set_filter set_timers [OF ok] by (auto simp: schedule_mem image_iff)
    then show "e \<in> schedule (X \<union> snd ` set ?es) (timer_objs w) \<longleftrightarrow>
        e \<in> {e \<in> schedule X (timer_objs w). now < fst e}"
      unfolding e by (auto simp: schedule_mem not_le)
  qed
  moreover have "sorted_list_of_set {e \<in> schedule X (timer_objs w). now < fst e} = ?rest"
    using set_timers [OF ok] sorted_timers [OF ok] distinct_timers [OF ok]
    by (intro sorted_distinct_set_unique) (simp_all add: fin sorted_wrt_filter)
  ultimately have rest: "?rest = sorted_list_of_set (schedule (X \<union> snd ` set ?es) (timer_objs w))"
    by simp
  have "objs_ok (X \<union> snd ` set ?es) (expire now X w)"
    using tq_okD(1) [OF ok] sub by (auto simp: objs_ok_def expire_def)
  then show ok1: "tq_ok (X \<union> snd ` set ?es) (expire now X w)"
    unfolding tq_ok_def using rest by (simp add: expire_def)
  have "erase_expired ?es (w\<lparr>timers := ?rest\<rparr>) = Some (expire now X w)"
    using distinct_timer_addrs [OF ok] sub fin tq_okD(3) [OF ok]
    by (subst erase_expired_eq [where X = X])
      (simp_all add: expire_def due_entries_def distinct_map_filter)
  moreover have "case ?rest of [] \<Rightarrow> True | e # _ \<Rightarrow> Timestamp_less now (fst e)"
    by (auto simp: Timestamp_less_iff split: list.split dest!: filter_eq_ConsD)
  ultimately show "getExpired now w = Some (?es, expire now X w)"
    unfolding getExpired_def using split same_size [OF ok] same_size [OF ok1] by (simp add: Let_def)
qed

text \<open>What \<open>reset\<close> makes of an expired timer: a new deadline, or nothing.\<close>

definition renewed :: "(rat \<Rightarrow> rat) \<Rightarrow> Timestamp \<Rightarrow> ActiveTimer set \<Rightarrow> addr \<Rightarrow> 'k timer \<Rightarrow> 'k timer option" where
  "renewed rnd now canc a tm =
     (if tm_repeat tm \<and> (a, tm_sequence tm) \<notin> canc then Timer_restart rnd now tm else None)"

definition renew_objs ::
    "(rat \<Rightarrow> rat) \<Rightarrow> Timestamp \<Rightarrow> ActiveTimer set \<Rightarrow> addr set \<Rightarrow> (addr \<rightharpoonup> 'k timer) \<Rightarrow> addr \<rightharpoonup> 'k timer" where
  "renew_objs rnd now canc A objs = (\<lambda>a. if a \<in> A then objs a \<bind> renewed rnd now canc a else objs a)"

lemma Timer_restart_same:
  assumes "Timer_restart rnd now tm = Some tm1"
  shows "tm_sequence tm1 = tm_sequence tm" and "tm_repeat tm1 = tm_repeat tm"
    and "tm_interval tm1 = tm_interval tm" and "tm_callback tm1 = tm_callback tm"
  using assms by (auto simp: Timer_restart_def bind_eq_Some_conv split: if_splits)

lemma tq_ok_transit:
  assumes ok: "tq_ok X w" and "a \<in> X" and "tm_sequence tm1 \<le> sint (numCreated w)"
    and "tm_repeat tm1 \<longrightarrow> 0 < tm_interval tm1"
  shows "tq_ok X (w\<lparr>timer_objs := (timer_objs w)(a \<mapsto> tm1)\<rparr>)"
  using assms by (auto simp: tq_ok_def objs_ok_def schedule_transit actives_transit)

lemma tq_ok_drop:
  assumes ok: "tq_ok X w" and a: "a \<in> X"
  shows "tq_ok (X - {a}) (w\<lparr>timer_objs := (timer_objs w)(a := None)\<rparr>)"
proof -
  have "schedule (X - {a}) ((timer_objs w)(a := None)) = schedule X (timer_objs w)"
    "actives (X - {a}) ((timer_objs w)(a := None)) = actives X (timer_objs w)"
    using a transit_gone [of "(timer_objs w)(a := None)" a X]
    by (simp_all add: schedule_transit actives_transit)
  with ok show ?thesis
    by (auto simp: tq_ok_def objs_ok_def)
qed

text \<open>The fields the loop of \<open>reset\<close> changes.\<close>

definition queue_only :: "('k, 'z) timer_queue_scheme \<Rightarrow> ('k, 'z) timer_queue_scheme \<Rightarrow> bool" where
  "queue_only w w' \<longleftrightarrow> (\<exists>ts acts objs. w' = w\<lparr>timers := ts, activeTimers := acts, timer_objs := objs\<rparr>)"

lemma queue_onlyI:
  "w' = w\<lparr>timers := timers w', activeTimers := activeTimers w', timer_objs := timer_objs w'\<rparr> \<Longrightarrow> queue_only w w'"
  unfolding queue_only_def by (intro exI)

lemma queue_only_trans:
  assumes "queue_only w w1" and "queue_only w1 w2"
  shows "queue_only w w2"
proof -
  obtain ts acts objs where 1: "w1 = w\<lparr>timers := ts, activeTimers := acts, timer_objs := objs\<rparr>"
    using assms(1) by (auto simp: queue_only_def)
  obtain ts acts objs where 2: "w2 = w1\<lparr>timers := ts, activeTimers := acts, timer_objs := objs\<rparr>"
    using assms(2) by (auto simp: queue_only_def)
  show ?thesis
    by (rule queue_onlyI) (simp add: 1 2)
qed

lemma queue_only_refl: "queue_only w w"
  by (rule queue_onlyI) simp

definition restart_fails ::
    "(rat \<Rightarrow> rat) \<Rightarrow> Timestamp \<Rightarrow> ActiveTimer set \<Rightarrow> (addr \<rightharpoonup> 'k timer) \<Rightarrow> addr \<Rightarrow> bool" where
  "restart_fails rnd now canc objs a = (case objs a of None \<Rightarrow> False
     | Some tm \<Rightarrow> tm_repeat tm \<and> (a, tm_sequence tm) \<notin> canc \<and> Timer_restart rnd now tm = None)"

definition put_back ::
    "addr \<Rightarrow> 'k timer option \<Rightarrow> ('k, 'z) timer_queue_scheme \<Rightarrow> ('k, 'z) timer_queue_scheme" where
  "put_back a r w = (case r of None \<Rightarrow> w\<lparr>timer_objs := (timer_objs w)(a := None)\<rparr>
     | Some tm1 \<Rightarrow> w\<lparr>timer_objs := (timer_objs w)(a \<mapsto> tm1),
            timers := insort (tm_expiration tm1, a) (timers w),
            activeTimers := insort (a, tm_sequence tm1) (activeTimers w)\<rparr>)"

lemma put_back_fields:
  "timer_objs (put_back a r w) = (timer_objs w)(a := r)"
  "cancelingTimers (put_back a r w) = cancelingTimers w"
  "queue_only w (put_back a r w)"
  by (cases r; simp add: put_back_def queue_onlyI)+

lemma reset_loop_Cons:
  fixes rnd :: "rat \<Rightarrow> rat" and now :: Timestamp
  assumes ok: "tq_ok X w" and a: "a \<in> X" "timer_objs w a = Some tm"
  defines "r \<equiv> renewed rnd now (set (cancelingTimers w)) a tm"
  shows "reset_loop rnd now ((t, a) # es) w =
      (if restart_fails rnd now (set (cancelingTimers w)) (timer_objs w) a then None
       else reset_loop rnd now es (put_back a r w))"
    and "tq_ok (X - {a}) (put_back a r w)"
proof -
  have r: "r = (if tm_repeat tm \<and> (a, tm_sequence tm) \<notin> set (cancelingTimers w)
    then Timer_restart rnd now tm else None)"
    by (simp add: r_def renewed_def)
  have "tq_ok (X - {a}) (put_back a r w) \<and> reset_loop rnd now ((t, a) # es) w =
      (if restart_fails rnd now (set (cancelingTimers w)) (timer_objs w) a then None
       else reset_loop rnd now es (put_back a r w))"
  proof (cases r)
    case None
    have "tq_ok (X - {a}) (put_back a r w)"
      unfolding None put_back_def option.case by (rule tq_ok_drop [OF ok a(1)])
    with None r show ?thesis
      using a(2)
      by (cases "tm_repeat tm \<and> (a, tm_sequence tm) \<notin> set (cancelingTimers w)")
        (auto simp: restart_fails_def put_back_def Timer_delete_def)
  next
    case (Some tm1)
    then have c: "tm_repeat tm" "(a, tm_sequence tm) \<notin> set (cancelingTimers w)"
      and restart: "Timer_restart rnd now tm = Some tm1"
      using r by (simp_all split: if_splits)
    let ?w1 = "w\<lparr>timer_objs := (timer_objs w)(a \<mapsto> tm1)\<rparr>"
    have "tm_sequence tm1 \<le> sint (numCreated w)" "tm_repeat tm1 \<longrightarrow> 0 < tm_interval tm1"
      using Timer_restart_same [OF restart] a(2) ok by (simp_all add: tq_ok_def objs_ok_def)
    then have ok1: "tq_ok X ?w1"
      by (rule tq_ok_transit [OF ok a(1)])
    have tm1: "timer_objs ?w1 a = Some tm1"
      by simp
    show ?thesis
      using tq_insert_eq [OF ok1 a(1) tm1] a(2) c restart
      by (simp add: put_back_def Some restart_fails_def)
  qed
  then show "reset_loop rnd now ((t, a) # es) w =
      (if restart_fails rnd now (set (cancelingTimers w)) (timer_objs w) a then None
       else reset_loop rnd now es (put_back a r w))" "tq_ok (X - {a}) (put_back a r w)"
    by blast+
qed

lemma reset_loop_eq:
  assumes "tq_ok X w" and "distinct (map snd es)" and "snd ` set es \<subseteq> X"
  shows "if \<exists>a \<in> snd ` set es. restart_fails rnd now (set (cancelingTimers w)) (timer_objs w) a
    then reset_loop rnd now es w = None
    else \<exists>w'. reset_loop rnd now es w = Some w' \<and> tq_ok (X - snd ` set es) w' \<and> queue_only w w'
      \<and> timer_objs w' = renew_objs rnd now (set (cancelingTimers w)) (snd ` set es) (timer_objs w)"
  using assms
proof (induction es arbitrary: X w)
  case Nil
  then show ?case
    by (simp add: renew_objs_def queue_only_refl)
next
  case (Cons e es)
  obtain t a where e: "e = (t, a)"
    by (cases e)
  have a: "a \<in> X" "a \<notin> snd ` set es" "distinct (map snd es)" "snd ` set es \<subseteq> X - {a}"
    using Cons.prems(2,3) e by auto
  obtain tm where tm: "timer_objs w a = Some tm"
    using Cons.prems(1) a(1) by (auto simp: tq_ok_def objs_ok_def)
  let ?canc = "set (cancelingTimers w)"
  let ?w1 = "put_back a (renewed rnd now ?canc a tm) w"
  have loop: "reset_loop rnd now (e # es) w =
      (if restart_fails rnd now ?canc (timer_objs w) a then None else reset_loop rnd now es ?w1)"
    unfolding e by (rule reset_loop_Cons [OF Cons.prems(1) a(1) tm])
  have fails: "(\<exists>b \<in> snd ` set es. restart_fails rnd now ?canc ((timer_objs w)(a := renewed rnd now ?canc a tm)) b)
      \<longleftrightarrow> (\<exists>b \<in> snd ` set es. restart_fails rnd now ?canc (timer_objs w) b)"
    using a(2) by (intro bex_cong refl) (auto simp: restart_fails_def)
  have renew: "renew_objs rnd now ?canc (snd ` set es) ((timer_objs w)(a := renewed rnd now ?canc a tm))
      = renew_objs rnd now ?canc (snd ` set (e # es)) (timer_objs w)"
    using a(2) tm by (auto simp: renew_objs_def e fun_eq_iff)
  have diff: "X - {a} - snd ` set es = X - snd ` set (e # es)"
    by (auto simp: e)
  have all: "(\<exists>b \<in> snd ` set (e # es). P b) \<longleftrightarrow> P a \<or> (\<exists>b \<in> snd ` set es. P b)" for P
    by (simp add: e)
  note IH = Cons.IH [OF reset_loop_Cons(2) [OF Cons.prems(1) a(1) tm] a(3,4), of rnd now,
      unfolded put_back_fields fails renew diff]
  show ?case
  proof (cases "\<exists>b \<in> snd ` set es. restart_fails rnd now ?canc (timer_objs w) b")
    case True
    with IH have "reset_loop rnd now es ?w1 = None"
      by (simp only: if_True)
    with True show ?thesis
      unfolding all loop by simp
  next
    case False
    with IH obtain w' where w': "reset_loop rnd now es ?w1 = Some w'" "tq_ok (X - snd ` set (e # es)) w'"
      "queue_only ?w1 w'" "timer_objs w' = renew_objs rnd now ?canc (snd ` set (e # es)) (timer_objs w)"
      by (auto simp only: if_False)
    have "queue_only w w'"
      by (rule queue_only_trans [OF put_back_fields(3) w'(3)])
    with False w' show ?thesis
      unfolding all loop by simp
  qed
qed

subsection \<open>The timer descriptor\<close>

text \<open>The time at which the descriptor becomes readable after a call of \<open>timerfd_settime\<close>.\<close>

definition deadline :: "Timestamp \<Rightarrow> int \<Rightarrow> int \<Rightarrow> int" where
  "deadline now sec nsec = microSecondsSinceEpoch now + sec * 1000000 + nsec div 1000"

text \<open>
  The last call on the descriptor armed it, with a time the kernel accepts and does not take for disarming,
  for a deadline no later than \<open>t\<close>, or 100 microseconds from the call when \<open>t\<close> was over.
\<close>

definition armed_for :: "Timestamp \<Rightarrow> timerfd_call list \<Rightarrow> bool" where
  "armed_for t cs \<longleftrightarrow> (\<exists>pre now sec nsec. cs = pre @ [Settime now sec nsec]
     \<and> 0 \<le> sec \<and> 0 \<le> nsec \<and> nsec < 1000000000 \<and> 0 < sec + nsec
     \<and> deadline now sec nsec \<le> max (microSecondsSinceEpoch t) (microSecondsSinceEpoch now + 100))"

lemma armed_for_mono: "armed_for s cs \<Longrightarrow> s \<le> t \<Longrightarrow> armed_for t cs"
  by (force simp: armed_for_def Timestamp_le_iff)

lemma howMuchTimeFromNow_eq:
  assumes "howMuchTimeFromNow now when = Some (sec, nsec)"
  shows "0 \<le> sec" and "0 \<le> nsec" and "nsec < 1000000000" and "0 < sec + nsec"
    and "deadline now sec nsec = max (microSecondsSinceEpoch when) (microSecondsSinceEpoch now + 100)"
proof -
  define d where "d = max 100 (microSecondsSinceEpoch when - microSecondsSinceEpoch now)"
  have d: "sec = d div 1000000" "nsec = d mod 1000000 * 1000" "100 \<le> d"
    using assms by (auto simp: howMuchTimeFromNow_def bind_eq_Some_conv ck64_eq_Some Let_def d_def max_def
        cdiv_nonneg cmod_nonneg kMicroSecondsPerSecond_def split: if_splits)
  have m: "0 \<le> d mod 1000000" "d mod 1000000 < 1000000" "0 \<le> d div 1000000"
    using d(3) by simp_all
  show "0 \<le> sec" "0 \<le> nsec" "nsec < 1000000000"
    using d m by simp_all
  have "d div 1000000 \<noteq> 0 \<or> d mod 1000000 \<noteq> 0"
    using d(3) by (metis add.right_neutral div_mult_mod_eq mult_zero_left not_numeral_le_zero)
  then show "0 < sec + nsec"
    unfolding d(1,2) using m by linarith
  have "sec * 1000000 + nsec div 1000 = d"
    using d by simp
  then show "deadline now sec nsec = max (microSecondsSinceEpoch when) (microSecondsSinceEpoch now + 100)"
    by (simp add: deadline_def d_def)
qed

lemma resetTimerfd_armed:
  assumes "resetTimerfd now t w = Some w'"
  obtains sec nsec where "w' = w\<lparr>timerfd_calls := timerfd_calls w @ [Settime now sec nsec]\<rparr>"
    and "armed_for t (timerfd_calls w')"
proof -
  obtain sec nsec where s: "howMuchTimeFromNow now t = Some (sec, nsec)"
    and w': "w' = w\<lparr>timerfd_calls := timerfd_calls w @ [Settime now sec nsec]\<rparr>"
    using assms by (auto simp: resetTimerfd_def bind_eq_Some_conv)
  show thesis
    by (rule that [OF w']) (use howMuchTimeFromNow_eq [OF s] in \<open>simp add: armed_for_def w'\<close>)
qed

text \<open>The descriptor is armed for the first entry, provided its time satisfies \<open>P\<close>.\<close>

definition armed_below :: "(Timestamp \<Rightarrow> bool) \<Rightarrow> ('k, 'z) timer_queue_scheme \<Rightarrow> bool" where
  "armed_below P w \<longleftrightarrow> (timers w \<noteq> [] \<longrightarrow> P (fst (hd (timers w)))
     \<longrightarrow> armed_for (fst (hd (timers w))) (timerfd_calls w))"

definition down :: "(Timestamp \<Rightarrow> bool) \<Rightarrow> bool" where
  "down P \<longleftrightarrow> (\<forall>s t. s \<le> t \<longrightarrow> P t \<longrightarrow> P s)"

lemma addTimerInLoop_ok:
  assumes ok: "tq_ok X w" and a: "a \<in> X" and armed: "armed_below P w"
    and add: "addTimerInLoop now a w = Some w'"
  shows "tq_ok (X - {a}) w'" and "armed_below P w'"
    and "\<exists>ts acts cs. w' = w\<lparr>timers := ts, activeTimers := acts, timerfd_calls := cs\<rparr>"
proof -
  obtain tm where tm: "timer_objs w a = Some tm"
    using ok a by (auto simp: tq_ok_def objs_ok_def)
  define w1 where "w1 = w\<lparr>timers := insort (tm_expiration tm, a) (timers w),
                          activeTimers := insort (a, tm_sequence tm) (activeTimers w)\<rparr>"
  define changed where "changed = (case timers w of [] \<Rightarrow> True | e # _ \<Rightarrow> tm_expiration tm < fst e)"
  have ins: "TimerQueue_insert a w = Some (changed, w1)" and ok1: "tq_ok (X - {a}) w1"
    using tq_insert_eq [OF ok a tm] by (simp_all add: w1_def changed_def)
  show "tq_ok (X - {a}) w'" "armed_below P w'"
    "\<exists>ts acts cs. w' = w\<lparr>timers := ts, activeTimers := acts, timerfd_calls := cs\<rparr>"
  proof (atomize (full), cases changed)
    case True
    then have "resetTimerfd now (tm_expiration tm) w1 = Some w'"
      using add ins tm by (simp add: addTimerInLoop_def w1_def)
    then obtain sec nsec where w': "w' = w1\<lparr>timerfd_calls := timerfd_calls w1 @ [Settime now sec nsec]\<rparr>"
      and armed': "armed_for (tm_expiration tm) (timerfd_calls w')"
      by (rule resetTimerfd_armed)
    have "timers w' = (tm_expiration tm, a) # timers w"
      using True by (cases "timers w") (auto simp: w' w1_def changed_def less_eq_prod_def)
    then have "armed_below P w'"
      using armed' by (simp add: armed_below_def)
    moreover have "tq_ok (X - {a}) w'"
      using ok1 by (simp add: w' tq_ok_def objs_ok_def)
    ultimately show "tq_ok (X - {a}) w' \<and> armed_below P w' \<and>
        (\<exists>ts acts cs. w' = w\<lparr>timers := ts, activeTimers := acts, timerfd_calls := cs\<rparr>)"
      by (auto simp: w' w1_def)
  next
    case False
    then have w': "w' = w1"
      using add ins by (simp add: addTimerInLoop_def)
    obtain e es where es: "timers w = e # es" "fst e \<le> tm_expiration tm"
      using False by (auto simp: changed_def not_less split: list.splits)
    have "fst (hd (timers w')) = fst e" "timers w' \<noteq> []" "timerfd_calls w' = timerfd_calls w"
      using es by (cases e; auto simp: w' w1_def less_eq_prod_def)+
    then have "armed_below P w'"
      using armed es by (simp add: armed_below_def)
    then show "tq_ok (X - {a}) w' \<and> armed_below P w' \<and>
        (\<exists>ts acts cs. w' = w\<lparr>timers := ts, activeTimers := acts, timerfd_calls := cs\<rparr>)"
      using ok1 unfolding w' by (intro conjI exI [of _ "timers w1"] exI [of _ "activeTimers w1"]
          exI [of _ "timerfd_calls w1"]) (simp_all add: w1_def)
  qed
qed

lemma armed_cancelled:
  assumes ok: "tq_ok X w" and armed: "armed_below P w" and P: "down P"
  shows "armed_below P (cancelled timerId X w)"
proof (cases "(id_timer timerId, id_sequence timerId) \<in> actives X (timer_objs w)")
  case True
  then obtain tm where tm: "timer_objs w (id_timer timerId) = Some tm" "tm_sequence tm = id_sequence timerId"
    "id_timer timerId \<notin> X"
    by (auto simp: actives_mem)
  have "fst (hd (timers w)) \<le> fst e" if "remove1 (tm_expiration tm, id_timer timerId) (timers w) = e # es" for e es
  proof -
    have "e \<in> set (timers w)"
      using that notin_set_remove1 [of e "timers w"] by (metis list.set_intros(1))
    then have "hd (timers w) \<le> e"
      using sorted_timers [OF ok] by (cases "timers w") auto
    then show ?thesis
      by (auto simp: less_eq_prod_def)
  qed
  then show ?thesis
    unfolding cancelled_hit [OF tm] using armed P
    by (cases "remove1 (tm_expiration tm, id_timer timerId) (timers w)")
      (auto simp: armed_below_def down_def intro: armed_for_mono)
next
  case False
  then show ?thesis
    using armed by (simp add: cancelled_miss armed_below_def)
qed

subsection \<open>Callbacks that use the queue\<close>

text \<open>
  What the callbacks of a program may do with the queue from the loop thread: \<open>addTimer\<close>, which creates
  the timer and inserts it, and \<open>cancel\<close>. \<open>prog\<close> gives the actions of each callback; the callbacks
  that ran are recorded in \<open>fired\<close>.
\<close>

datatype 'k timer_action =
    Act_add addr 'k Timestamp rat Timestamp
  | Act_cancel TimerId

record 'k timer_world = "'k timer_queue" +
  fired :: "'k list"

fun timer_act :: "'k timer_action \<Rightarrow> ('k, 'z) timer_queue_scheme \<Rightarrow> ('k, 'z) timer_queue_scheme option" where
  "timer_act (Act_add a cb when interval now) w =
     do { w1 \<leftarrow> Timer_new a cb when interval w; addTimerInLoop now a w1 }"
| "timer_act (Act_cancel timerId) w = cancelInLoop timerId w"

definition callback_run ::
    "('k \<Rightarrow> 'k timer_action list) \<Rightarrow> 'k \<Rightarrow> 'k timer_world \<Rightarrow> 'k timer_world option" where
  "callback_run prog k w = run_all timer_act (prog k) (w\<lparr>fired := fired w @ [k]\<rparr>)"

text \<open>What holds after actions while the timers \<open>X\<close> are in transit.\<close>

definition follows ::
    "addr set \<Rightarrow> (Timestamp \<Rightarrow> bool) \<Rightarrow> 'k timer_world \<Rightarrow> 'k timer_world \<Rightarrow> bool" where
  "follows X P w w' \<longleftrightarrow> tq_ok X w' \<and> armed_below P w' \<and> callingExpiredTimers w' = callingExpiredTimers w
     \<and> sint (numCreated w) \<le> sint (numCreated w')
     \<and> (\<forall>a \<in> X. timer_objs w' a = timer_objs w a)"

lemma follows_trans: "follows X P w w1 \<Longrightarrow> follows X P w1 w2 \<Longrightarrow> follows X P w w2"
  by (auto simp: follows_def)

lemma follows_refl: "tq_ok X w \<Longrightarrow> armed_below P w \<Longrightarrow> follows X P w w"
  by (simp add: follows_def)

lemma timer_act_follows:
  fixes w w' :: "'k timer_world"
  assumes ok: "tq_ok X w" and armed: "armed_below P w" and P: "down P" and act: "timer_act act w = Some w'"
  shows "follows X P w w'" and "fired w' = fired w"
    and "callingExpiredTimers w \<Longrightarrow> a \<in> X \<Longrightarrow>
      (a, s) \<in> set (cancelingTimers w') \<longleftrightarrow>
        (a, s) \<in> set (cancelingTimers w) \<or> act = Act_cancel \<lparr>id_timer = a, id_sequence = s\<rparr>"
proof -
  have "follows X P w w' \<and> fired w' = fired w
    \<and> (callingExpiredTimers w \<longrightarrow> (\<forall>a \<in> X. (a, s) \<in> set (cancelingTimers w') \<longleftrightarrow>
        (a, s) \<in> set (cancelingTimers w) \<or> act = Act_cancel \<lparr>id_timer = a, id_sequence = s\<rparr>))"
  proof (cases act)
    case (Act_add b cb t interval now)
    then obtain w1 where w1: "Timer_new b cb t interval w = Some w1" "addTimerInLoop now b w1 = Some w'"
      using act by (auto elim: bind_SomeE)
    note new = tq_Timer_new [OF ok w1(1)]
    have b: "b \<notin> X"
      using new(2) ok by (auto simp: tq_ok_def objs_ok_def)
    obtain n where w1_eq: "w1 = w\<lparr>timer_objs := timer_objs w1, numCreated := n\<rparr>" "sint n = sint (numCreated w) + 1"
      using new(4,5) by blast
    have "armed_below P w1"
      using armed by (subst w1_eq) (simp add: armed_below_def)
    from addTimerInLoop_ok [OF new(1) _ this w1(2)] obtain ts acts cs where
      ok': "tq_ok (insert b X - {b}) w'" "armed_below P w'"
      and w': "w' = w1\<lparr>timers := ts, activeTimers := acts, timerfd_calls := cs\<rparr>"
      by auto
    have same: "callingExpiredTimers w1 = callingExpiredTimers w" "cancelingTimers w1 = cancelingTimers w"
      "fired w1 = fired w" "numCreated w1 = n"
      by (subst w1_eq, simp)+
    have "timer_objs w1 a = timer_objs w a" if "a \<in> X" for a
      using that b new(3) by auto
    moreover have "insert b X - {b} = X"
      using b by simp
    ultimately show ?thesis
      using ok' same w1_eq(2) Act_add by (simp add: follows_def w')
  next
    case (Act_cancel timerId)
    then have w': "w' = cancelled timerId X w"
      using act tq_cancel_eq(1) [OF ok] by simp
    have ok': "tq_ok X w'" "armed_below P w'"
      using tq_cancel_eq(2) [OF ok] armed_cancelled [OF ok armed P] w' by simp_all
    show ?thesis
    proof (cases "(id_timer timerId, id_sequence timerId) \<in> actives X (timer_objs w)")
      case True
      then obtain tm where tm: "timer_objs w (id_timer timerId) = Some tm"
        "tm_sequence tm = id_sequence timerId" "id_timer timerId \<notin> X"
        by (auto simp: actives_mem)
      show ?thesis
        using ok' tm(3) Act_cancel unfolding w' cancelled_hit [OF tm] by (auto simp: follows_def)
    next
      case False
      show ?thesis
        using ok' Act_cancel unfolding w' cancelled_miss [OF False]
        by (cases timerId) (auto simp: follows_def set_insert_def set_insort_key)
    qed
  qed
  then show "follows X P w w'" "fired w' = fired w"
    "callingExpiredTimers w \<Longrightarrow> a \<in> X \<Longrightarrow>
      (a, s) \<in> set (cancelingTimers w') \<longleftrightarrow>
        (a, s) \<in> set (cancelingTimers w) \<or> act = Act_cancel \<lparr>id_timer = a, id_sequence = s\<rparr>"
    by blast+
qed

lemma timer_acts_follow:
  fixes w w' :: "'k timer_world"
  assumes "tq_ok X w" and "armed_below P w" and "down P" and "run_all timer_act acts w = Some w'"
  shows "follows X P w w'" and "fired w' = fired w"
    and "callingExpiredTimers w \<Longrightarrow> a \<in> X \<Longrightarrow>
      (a, s) \<in> set (cancelingTimers w') \<longleftrightarrow>
        (a, s) \<in> set (cancelingTimers w) \<or> Act_cancel \<lparr>id_timer = a, id_sequence = s\<rparr> \<in> set acts"
proof -
  have "follows X P w w' \<and> fired w' = fired w
    \<and> (callingExpiredTimers w \<longrightarrow> (\<forall>a \<in> X. (a, s) \<in> set (cancelingTimers w') \<longleftrightarrow>
        (a, s) \<in> set (cancelingTimers w) \<or> Act_cancel \<lparr>id_timer = a, id_sequence = s\<rparr> \<in> set acts))"
    using assms
  proof (induction acts arbitrary: w)
    case Nil
    then show ?case
      by (simp add: follows_refl)
  next
    case (Cons act acts)
    then obtain w1 where w1: "timer_act act w = Some w1" "run_all timer_act acts w1 = Some w'"
      by (auto elim: bind_SomeE)
    note first = timer_act_follows [OF Cons.prems(1-3) w1(1)]
    have "tq_ok X w1" "armed_below P w1" "callingExpiredTimers w1 = callingExpiredTimers w"
      using first(1) by (simp_all add: follows_def)
    with Cons.IH [OF this(1,2) Cons.prems(3) w1(2)] first show ?case
      by (auto intro: follows_trans)
  qed
  then show "follows X P w w'" "fired w' = fired w"
    "callingExpiredTimers w \<Longrightarrow> a \<in> X \<Longrightarrow>
      (a, s) \<in> set (cancelingTimers w') \<longleftrightarrow>
        (a, s) \<in> set (cancelingTimers w) \<or> Act_cancel \<lparr>id_timer = a, id_sequence = s\<rparr> \<in> set acts"
    by blast+
qed

text \<open>The callbacks of the entries \<open>es\<close>, and the actions of the callbacks \<open>ks\<close>.\<close>

definition callbacks_of :: "(addr \<rightharpoonup> 'k timer) \<Rightarrow> Entry list \<Rightarrow> 'k list" where
  "callbacks_of objs es = map (\<lambda>e. tm_callback (the (objs (snd e)))) es"

definition actions_of :: "('k \<Rightarrow> 'k timer_action list) \<Rightarrow> 'k list \<Rightarrow> 'k timer_action list" where
  "actions_of prog ks = concat (map prog ks)"

lemma run_expired_follow:
  assumes "tq_ok X w" and "armed_below P w" and "down P" and "snd ` set es \<subseteq> X"
    and "run_expired (callback_run prog) es w = Some w'"
  shows "follows X P w w'" and "fired w' = fired w @ callbacks_of (timer_objs w) es"
    and "callingExpiredTimers w \<Longrightarrow> a \<in> X \<Longrightarrow>
      (a, s) \<in> set (cancelingTimers w') \<longleftrightarrow> (a, s) \<in> set (cancelingTimers w)
        \<or> Act_cancel \<lparr>id_timer = a, id_sequence = s\<rparr> \<in> set (actions_of prog (callbacks_of (timer_objs w) es))"
proof -
  have "follows X P w w' \<and> fired w' = fired w @ callbacks_of (timer_objs w) es
    \<and> (callingExpiredTimers w \<longrightarrow> (\<forall>a \<in> X. (a, s) \<in> set (cancelingTimers w') \<longleftrightarrow>
        (a, s) \<in> set (cancelingTimers w)
        \<or> Act_cancel \<lparr>id_timer = a, id_sequence = s\<rparr> \<in> set (actions_of prog (callbacks_of (timer_objs w) es))))"
    using assms
  proof (induction es arbitrary: w)
    case Nil
    then show ?case
      by (simp add: callbacks_of_def actions_of_def follows_refl)
  next
    case (Cons e es)
    obtain tm where tm: "timer_objs w (snd e) = Some tm"
      using Cons.prems(1,4) by (auto simp: tq_ok_def objs_ok_def)
    let ?k = "tm_callback tm"
    let ?v = "w\<lparr>fired := fired w @ [?k]\<rparr>"
    have "callback_run prog ?k w \<bind> run_expired (callback_run prog) es = Some w'"
      using Cons.prems(5) tm by simp
    then obtain w1 where w1: "run_all timer_act (prog ?k) ?v = Some w1"
      "run_expired (callback_run prog) es w1 = Some w'"
      by (auto simp: callback_run_def [of _ "?k"] elim: bind_SomeE)
    have "tq_ok X ?v" "armed_below P ?v"
      using Cons.prems(1,2) by (simp_all add: tq_ok_def objs_ok_def armed_below_def)
    note first = timer_acts_follow [OF this Cons.prems(3) w1(1)]
    have w1': "tq_ok X w1" "armed_below P w1" "fired w1 = fired w @ [?k]" "follows X P w w1"
      "callingExpiredTimers w1 = callingExpiredTimers w" "\<And>a. a \<in> X \<Longrightarrow> timer_objs w1 a = timer_objs w a"
      using first(1,2) by (simp_all add: follows_def)
    have cbs: "callbacks_of (timer_objs w1) es = callbacks_of (timer_objs w) es"
      using Cons.prems(4) w1'(6) by (auto simp: callbacks_of_def)
    have "callbacks_of (timer_objs w) (e # es) = ?k # callbacks_of (timer_objs w) es"
      using tm by (simp add: callbacks_of_def)
    moreover have "follows X P w w'"
      using Cons.IH [OF w1'(1,2) Cons.prems(3) _ w1(2)] Cons.prems(4) w1'(4) follows_trans by auto
    moreover have "(a, s) \<in> set (cancelingTimers w1) \<longleftrightarrow> (a, s) \<in> set (cancelingTimers w)
        \<or> Act_cancel \<lparr>id_timer = a, id_sequence = s\<rparr> \<in> set (prog ?k)"
      if "callingExpiredTimers w" "a \<in> X" for a
      using first(3) that by simp
    ultimately show ?case
      using Cons.IH [OF w1'(1,2) Cons.prems(3) _ w1(2)] Cons.prems(4) w1'(3,5)
      unfolding cbs by (simp add: actions_of_def disj_assoc)
  qed
  then show "follows X P w w'" "fired w' = fired w @ callbacks_of (timer_objs w) es"
    "callingExpiredTimers w \<Longrightarrow> a \<in> X \<Longrightarrow>
      (a, s) \<in> set (cancelingTimers w') \<longleftrightarrow> (a, s) \<in> set (cancelingTimers w)
        \<or> Act_cancel \<lparr>id_timer = a, id_sequence = s\<rparr> \<in> set (actions_of prog (callbacks_of (timer_objs w) es))"
    by blast+
qed

text \<open>The timers that exist, by address and sequence number. A number is never used again.\<close>

definition live :: "('k, 'z) timer_queue_scheme \<Rightarrow> ActiveTimer set" where
  "live w = actives {} (timer_objs w)"

lemma timer_act_live:
  fixes w w' :: "'k timer_world"
  assumes ok: "tq_ok X w" and act: "timer_act act w = Some w'"
  shows "live w' \<subseteq> live w \<union> {(a, s). sint (numCreated w) < s}"
proof (cases act)
  case (Act_add b cb t interval now)
  then obtain w1 where w1: "Timer_new b cb t interval w = Some w1" "addTimerInLoop now b w1 = Some w'"
    using act by (auto elim: bind_SomeE)
  note new = tq_Timer_new [OF ok w1(1)]
  have "armed_below (\<lambda>_. False) w1"
    by (simp add: armed_below_def)
  from addTimerInLoop_ok(3) [OF new(1) _ this w1(2)] have "timer_objs w' = timer_objs w1"
    by auto
  then show ?thesis
    using new(3,5) by (auto simp: live_def actives_def Timer_init_def split: if_splits)
next
  case (Act_cancel timerId)
  then have w': "w' = cancelled timerId X w"
    using act tq_cancel_eq(1) [OF ok] by simp
  then show ?thesis
    by (auto simp: cancelled_def live_def actives_def split: option.splits if_splits)
qed

lemma timer_acts_live:
  fixes w w' :: "'k timer_world"
  assumes "tq_ok X w" and "run_all timer_act acts w = Some w'"
  shows "live w' \<subseteq> live w \<union> {(a, s). sint (numCreated w) < s}"
  using assms
proof (induction acts arbitrary: w)
  case (Cons act acts)
  then obtain w1 where w1: "timer_act act w = Some w1" "run_all timer_act acts w1 = Some w'"
    by (auto elim: bind_SomeE)
  have "follows X (\<lambda>_. False) w w1"
    by (rule timer_act_follows [OF Cons.prems(1) _ _ w1(1)]) (simp_all add: armed_below_def down_def)
  then have "tq_ok X w1" "sint (numCreated w) \<le> sint (numCreated w1)"
    by (simp_all add: follows_def)
  with Cons.IH [OF _ w1(2)] timer_act_live [OF Cons.prems(1) w1(1)] show ?case
    by force
qed simp

lemma run_expired_live:
  assumes "tq_ok X w" and "snd ` set es \<subseteq> X" and "run_expired (callback_run prog) es w = Some w'"
  shows "live w' \<subseteq> live w \<union> {(a, s). sint (numCreated w) < s}"
  using assms
proof (induction es arbitrary: w)
  case (Cons e es)
  obtain tm where tm: "timer_objs w (snd e) = Some tm"
    using Cons.prems(1,2) by (auto simp: tq_ok_def objs_ok_def)
  let ?k = "tm_callback tm"
  let ?v = "w\<lparr>fired := fired w @ [?k]\<rparr>"
  have "callback_run prog ?k w \<bind> run_expired (callback_run prog) es = Some w'"
    using Cons.prems(3) tm by simp
  then obtain w1 where w1: "run_all timer_act (prog ?k) ?v = Some w1"
    "run_expired (callback_run prog) es w1 = Some w'"
    by (auto simp: callback_run_def [of _ "?k"] elim: bind_SomeE)
  have ok: "tq_ok X ?v"
    using Cons.prems(1) by (simp add: tq_ok_def objs_ok_def)
  have "follows X (\<lambda>_. False) ?v w1"
    by (rule timer_acts_follow [OF ok _ _ w1(1)]) (simp_all add: armed_below_def down_def)
  then have "tq_ok X w1" "sint (numCreated w) \<le> sint (numCreated w1)"
    by (simp_all add: follows_def)
  moreover have "live ?v = live w"
    by (simp add: live_def)
  ultimately show ?case
    using Cons.IH [OF _ _ w1(2)] Cons.prems(2) timer_acts_live [OF ok w1(1)] by force
qed simp

lemma live_renewed:
  assumes "timer_objs w' = renew_objs rnd now canc A (timer_objs w)"
  shows "live w' \<subseteq> live w"
  using assms
  by (auto simp: live_def actives_def renew_objs_def renewed_def bind_eq_Some_conv
      dest!: Timer_restart_same(1) split: if_splits)

end
