(* ===== verification/TimerQueueProps.thy ===== *)
theory TimerQueueProps
  imports TimerQueueInv
begin

section \<open>Properties of the timer queue\<close>

text \<open>
  The handling of expired timers, the queue as a machine driven by the events of the loop thread, and the
  properties: the sets agree and no assertion fails, exactly the expired timers run, a cancelled timer never
  runs again, and the timer descriptor is always armed for the first timer.
\<close>

subsection \<open>Handling the expired timers\<close>

text \<open>Rounding does not turn a non-negative number into a negative one.\<close>

definition rounds :: "(rat \<Rightarrow> rat) \<Rightarrow> bool" where
  "rounds rnd \<longleftrightarrow> (\<forall>x \<ge> 0. 0 \<le> rnd x)"

lemma restart_later:
  assumes "rounds rnd" and "Timer_restart rnd now tm = Some tm1" and "tm_repeat tm" and "0 < tm_interval tm"
  shows "now \<le> tm_expiration tm1"
proof -
  obtain d where d: "double_to_int64 (rnd (tm_interval tm * of_int kMicroSecondsPerSecond)) = Some d"
    and t: "microSecondsSinceEpoch (tm_expiration tm1) = microSecondsSinceEpoch now + d"
    using assms(2,3)
    by (auto simp: Timer_restart_def addTime_def bind_eq_Some_conv ck64_eq_Some Timestamp_of_def)
  have "0 \<le> rnd (tm_interval tm * of_int kMicroSecondsPerSecond)"
    using assms(1,4) by (simp add: rounds_def kMicroSecondsPerSecond_def)
  then have "0 \<le> d"
    using d by (auto simp: double_to_int64_def ck64_eq_Some)
  then show ?thesis
    using t by (simp add: Timestamp_le_iff)
qed

definition cancels :: "'k timer_action list \<Rightarrow> ActiveTimer set" where
  "cancels acts = {(a, s). Act_cancel \<lparr>id_timer = a, id_sequence = s\<rparr> \<in> set acts}"

lemma reset_armed:
  assumes ok: "tq_ok A w" and A: "\<And>a. a \<in> A \<Longrightarrow> \<exists>tm. timer_objs w a = Some tm"
    and armed: "armed_below (\<lambda>t. t \<le> now) w" and now: "Timestamp_valid now" and rnd: "rounds rnd"
    and w1: "tq_ok {} w1" "queue_only w w1" "timer_objs w1 = renew_objs rnd now canc A (timer_objs w)"
    and not_valid: "\<not> Timestamp_valid (fst (hd (timers w1)))"
  shows "armed_below (\<lambda>_. True) w1"
  unfolding armed_below_def
proof (intro impI)
  assume ne: "timers w1 \<noteq> []"
  obtain t a where hd: "hd (timers w1) = (t, a)"
    by (cases "hd (timers w1)")
  have "(t, a) \<in> set (timers w1)"
    using ne hd by (metis hd_in_set)
  then obtain tm where tm: "timer_objs w1 a = Some tm" "tm_expiration tm = t"
    unfolding set_timers [OF w1(1)] by (auto simp: schedule_mem)
  have t: "t < now"
    using not_valid now hd by (simp add: Timestamp_valid_def less_Timestamp_ext_def)
  have "a \<notin> A"
  proof
    assume "a \<in> A"
    then obtain tm0 where tm0: "timer_objs w a = Some tm0" "renewed rnd now canc a tm0 = Some tm"
      using tm(1) w1(3) A by (fastforce simp: renew_objs_def)
    then have "now \<le> t"
      using restart_later [OF rnd, of now tm0 tm] tm(2) ok
      by (auto simp: renewed_def tq_ok_def objs_ok_def split: if_splits)
    with t show False
      by simp
  qed
  then have "(t, a) \<in> set (timers w)"
    using tm w1(3) unfolding set_timers [OF ok] by (simp add: schedule_mem renew_objs_def)
  then have le: "hd (timers w) \<le> (t, a)" "timers w \<noteq> []"
    using sorted_timers [OF ok] by (cases "timers w"; auto)+
  then have "fst (hd (timers w)) \<le> t"
    by (auto simp: less_eq_prod_def)
  moreover have "timerfd_calls w1 = timerfd_calls w"
    using w1(2) by (auto simp: queue_only_def)
  ultimately show "armed_for (fst (hd (timers w1))) (timerfd_calls w1)"
    using armed le(2) t hd armed_for_mono unfolding armed_below_def by fastforce
qed

lemma reset_tail:
  assumes ok: "tq_ok {} w3" and tail: "do {
      nextExpire \<leftarrow> (case timers w3 of [] \<Rightarrow> Some Timestamp_invalid
        | entry # _ \<Rightarrow> do { tm \<leftarrow> timer_objs w3 (snd entry); Some (tm_expiration tm) });
      if Timestamp_valid nextExpire then resetTimerfd now2 nextExpire w3 else Some w3 } = Some w'"
    and armed: "\<not> Timestamp_valid (fst (hd (timers w3))) \<Longrightarrow> armed_below (\<lambda>_. True) w3"
  shows "\<exists>cs. w' = w3\<lparr>timerfd_calls := cs\<rparr>" and "armed_below (\<lambda>_. True) w'"
proof -
  have "(\<exists>cs. w' = w3\<lparr>timerfd_calls := cs\<rparr>) \<and> armed_below (\<lambda>_. True) w'"
  proof (cases "timers w3")
    case Nil
    then have "w' = w3"
      using tail by (simp add: Timestamp_valid_def Timestamp_invalid_def)
    then show ?thesis
      using Nil by (auto simp: armed_below_def intro: exI [of _ "timerfd_calls w3"])
  next
    case (Cons e rest)
    then have "e \<in> schedule {} (timer_objs w3)"
      using set_timers [OF ok] by auto
    then have "timer_objs w3 (snd e) \<bind> (\<lambda>tm. Some (tm_expiration tm)) = Some (fst e)"
      by (cases e) (auto simp: schedule_mem)
    then have tail': "(if Timestamp_valid (fst e) then resetTimerfd now2 (fst e) w3 else Some w3) = Some w'"
      using tail Cons by simp
    show ?thesis
    proof (cases "Timestamp_valid (fst e)")
      case True
      then have "resetTimerfd now2 (fst e) w3 = Some w'"
        using tail' by simp
      then show ?thesis
        by (rule resetTimerfd_armed) (auto simp: armed_below_def Cons)
    next
      case False
      then show ?thesis
        using tail' armed Cons by (auto intro: exI [of _ "timerfd_calls w3"])
    qed
  qed
  then show "\<exists>cs. w' = w3\<lparr>timerfd_calls := cs\<rparr>" "armed_below (\<lambda>_. True) w'"
    by blast+
qed

lemma tq_ok_frame:
  assumes "timers w' = timers w" "activeTimers w' = activeTimers w" "timer_objs w' = timer_objs w"
    "numCreated w' = numCreated w"
  shows "tq_ok X w' \<longleftrightarrow> tq_ok X w"
  unfolding tq_ok_def objs_ok_def assms ..

lemma handleRead_ok:
  assumes ok: "tq_ok {} w" and now: "Timestamp_valid now" and rnd: "rounds rnd"
    and run: "TimerQueue_handleRead rnd (callback_run prog) now now2 w = Some w'"
  defines "es \<equiv> due_entries now (timers w)"
  defines "ks \<equiv> callbacks_of (timer_objs w) es"
  shows "tq_ok {} w'" and "armed_below (\<lambda>_. True) w'" and "\<not> callingExpiredTimers w'"
    and "fired w' = fired w @ ks" and "sint (numCreated w) \<le> sint (numCreated w')"
    and "live w' \<subseteq> live w \<union> {(a, s). sint (numCreated w) < s}"
    and "\<And>a. a \<in> snd ` set es \<Longrightarrow>
      timer_objs w' a = timer_objs w a \<bind> renewed rnd now (cancels (actions_of prog ks)) a"
proof -
  let ?A = "snd ` set es"
  have ok0: "tq_ok {} (readTimerfd w)"
    using ok by (simp add: readTimerfd_def tq_ok_def objs_ok_def)
  have same0: "timers (readTimerfd w) = timers w" "timer_objs (readTimerfd w) = timer_objs w"
    by (simp_all add: readTimerfd_def)
  define w1 where "w1 = (expire now {} (readTimerfd w))\<lparr>callingExpiredTimers := True, cancelingTimers := []\<rparr>"
  note get = getExpired_eq [OF ok0, of now, unfolded same0, folded es_def]
  have ok1: "tq_ok ?A w1"
    using get(2) tq_ok_frame [of w1 "expire now {} (readTimerfd w)"] by (simp add: w1_def)
  have w1: "timer_objs w1 = timer_objs w" "fired w1 = fired w" "cancelingTimers w1 = []"
    "callingExpiredTimers w1" "numCreated w1 = numCreated w" "timers w1 = filter (\<lambda>e. now < fst e) (timers w)"
    by (simp_all add: w1_def expire_def readTimerfd_def)
  obtain w2 where w2: "run_expired (callback_run prog) es w1 = Some w2"
    and reset: "TimerQueue_reset rnd es now now2 (w2\<lparr>callingExpiredTimers := False\<rparr>) = Some w'"
    using run get(1) by (auto simp: TimerQueue_handleRead_def w1_def elim: bind_SomeE)
  have armed1: "armed_below (\<lambda>t. t \<le> now) w1"
    using list.set_sel(1) [of "timers w1"] w1(6) by (auto simp: armed_below_def)
  have "down (\<lambda>t. t \<le> now)"
    by (auto simp: down_def)
  note exp = run_expired_follow [OF ok1 armed1 this order_refl w2, unfolded w1, folded ks_def]
  let ?w2 = "w2\<lparr>callingExpiredTimers := False\<rparr>"
  have ok2: "tq_ok ?A ?w2" "armed_below (\<lambda>t. t \<le> now) ?w2"
    "\<And>a. a \<in> ?A \<Longrightarrow> timer_objs ?w2 a = timer_objs w a" "sint (numCreated w) \<le> sint (numCreated w2)"
    using exp(1) tq_ok_frame [of ?w2 w2] unfolding follows_def w1 by (auto simp: armed_below_def)
  have dist: "distinct (map snd es)"
    using distinct_timer_addrs [OF ok] by (simp add: es_def due_entries_def distinct_map_filter)
  obtain w3 where loop: "reset_loop rnd now es ?w2 = Some w3"
    using reset by (auto simp: TimerQueue_reset_def elim: bind_SomeE)
  from reset_loop_eq [OF ok2(1) dist order_refl, of rnd now]
  have w3: "tq_ok {} w3" "queue_only ?w2 w3"
    "timer_objs w3 = renew_objs rnd now (set (cancelingTimers ?w2)) ?A (timer_objs ?w2)"
    using loop by (auto split: if_splits)
  have same3: "fired w3 = fired w2" "\<not> callingExpiredTimers w3" "numCreated w3 = numCreated w2"
    using w3(2) by (auto simp: queue_only_def)
  have "armed_below (\<lambda>_. True) w3" if "\<not> Timestamp_valid (fst (hd (timers w3)))"
    by (rule reset_armed [OF ok2(1) _ ok2(2) now rnd w3 that])
      (use ok2(1) in \<open>auto simp: tq_ok_def objs_ok_def\<close>)
  from reset_tail [OF w3(1) _ this, of now2 w'] obtain cs where w': "w' = w3\<lparr>timerfd_calls := cs\<rparr>"
    and armed': "armed_below (\<lambda>_. True) w'"
    using reset loop by (auto simp: TimerQueue_reset_def)
  then show "tq_ok {} w'" "armed_below (\<lambda>_. True) w'" "\<not> callingExpiredTimers w'"
    "fired w' = fired w @ ks" "sint (numCreated w) \<le> sint (numCreated w')"
    using tq_ok_frame [of w' w3] w3(1) same3 exp(2) ok2(4) by simp_all
  have "live w' \<subseteq> live w2"
    using live_renewed [OF w3(3)] by (simp add: live_def w')
  then show "live w' \<subseteq> live w \<union> {(a, s). sint (numCreated w) < s}"
    using run_expired_live [OF ok1 order_refl w2] w1(1,5) by (auto simp: live_def)
  fix a
  assume a: "a \<in> ?A"
  have "(a, s) \<in> set (cancelingTimers w2) \<longleftrightarrow> (a, s) \<in> cancels (actions_of prog ks)" for s
    using exp(3) [OF _ a] w1 by (simp add: cancels_def)
  then have "renewed rnd now (set (cancelingTimers w2)) a tm = renewed rnd now (cancels (actions_of prog ks)) a tm"
    for tm :: "'a timer"
    by (simp add: renewed_def)
  then show "timer_objs w' a = timer_objs w a \<bind> renewed rnd now (cancels (actions_of prog ks)) a"
    using a ok2(3) w3(3) by (auto simp: w' renew_objs_def split: bind_splits)
qed

lemma timer_frame:
  assumes "reactor.more w' = reactor.more w"
  shows "timers w' = timers w" and "activeTimers w' = activeTimers w" and "timer_objs w' = timer_objs w"
    and "callingExpiredTimers w' = callingExpiredTimers w" and "numCreated w' = numCreated w"
  using assms by (cases w; cases w'; simp)+

lemma TimerQueue_new_empty:
  assumes "TimerQueue_new fd ch cb w0 = Some w" and "timer_objs w0 = Map.empty"
  shows "tq_ok {} w" and "timers w = []" and "\<not> callingExpiredTimers w"
proof -
  have "reactor.more w = reactor.more (w0\<lparr>timerfd := fd, timerfdChannel := ch, timers := [],
      activeTimers := [], callingExpiredTimers := False, cancelingTimers := []\<rparr>)"
    using assms(1)
    by (auto simp: TimerQueue_new_def setReadCallback_def enableReading_def elim!: bind_SomeE
        dest!: chan_frame set_events_frame)
  from timer_frame [OF this] show "tq_ok {} w" "timers w = []" "\<not> callingExpiredTimers w"
    using assms(2) by (simp_all add: tq_ok_def objs_ok_def schedule_def actives_def)
qed

subsection \<open>The queue as a machine\<close>

text \<open>The events of the loop thread: an action of the program, or the timer descriptor becoming readable.\<close>

datatype 'k timer_event = Do "'k timer_action" | Expire Timestamp Timestamp

fun timer_step ::
    "(rat \<Rightarrow> rat) \<Rightarrow> ('k \<Rightarrow> 'k timer_action list) \<Rightarrow> 'k timer_event \<Rightarrow> 'k timer_world \<Rightarrow> 'k timer_world option" where
  "timer_step rnd prog (Do act) w = timer_act act w"
| "timer_step rnd prog (Expire now now2) w = do {
     assert_that (Timestamp_valid now);
     TimerQueue_handleRead rnd (callback_run prog) now now2 w
   }"

definition timer_inv :: "(rat \<Rightarrow> rat) \<Rightarrow> 'k timer_world \<Rightarrow> bool" where
  "timer_inv rnd w \<longleftrightarrow> rounds rnd \<and> tq_ok {} w \<and> armed_below (\<lambda>_. True) w \<and> \<not> callingExpiredTimers w"

interpretation tq: machine "timer_step rnd prog" "timer_inv rnd" for rnd prog
proof
  fix e and w w' :: "'a timer_world"
  assume "timer_inv rnd w" "timer_step rnd prog e w = Some w'"
  then show "timer_inv rnd w'"
  proof (cases e)
    case (Do act)
    with \<open>timer_inv rnd w\<close> \<open>timer_step rnd prog e w = Some w'\<close> show ?thesis
      using timer_act_follows(1) [of "{}" w "\<lambda>_. True" act w']
      by (simp add: timer_inv_def follows_def down_def)
  next
    case (Expire now now2)
    with \<open>timer_inv rnd w\<close> \<open>timer_step rnd prog e w = Some w'\<close> show ?thesis
      using handleRead_ok(1-3) [of w now rnd prog now2 w'] by (simp add: timer_inv_def split: if_splits)
  qed
qed


lemma timer_step_live:
  assumes "timer_inv rnd w" and "timer_step rnd prog e w = Some w'"
  shows "live w' \<subseteq> live w \<union> {(a, s). sint (numCreated w) < s}" and "sint (numCreated w) \<le> sint (numCreated w')"
proof -
  have "live w' \<subseteq> live w \<union> {(a, s). sint (numCreated w) < s} \<and> sint (numCreated w) \<le> sint (numCreated w')"
  proof (cases e)
    case (Do act)
    then show ?thesis
      using assms timer_act_live [of "{}" w act w'] timer_act_follows(1) [of "{}" w "\<lambda>_. True" act w']
      by (auto simp: timer_inv_def follows_def down_def)
  next
    case (Expire now now2)
    then show ?thesis
      using assms handleRead_ok(5,6) [of w now rnd prog now2 w']
      by (auto simp: timer_inv_def split: if_splits)
  qed
  then show "live w' \<subseteq> live w \<union> {(a, s). sint (numCreated w) < s}" "sint (numCreated w) \<le> sint (numCreated w')"
    by blast+
qed

lemma gone_stays_gone:
  assumes "timer_inv rnd w" and "(a, s) \<notin> live w" and "s \<le> sint (numCreated w)"
    and "run_all (timer_step rnd prog) es w = Some w'"
  shows "(a, s) \<notin> live w'"
  using assms
proof (induction es arbitrary: w)
  case (Cons e es)
  then obtain w1 where w1: "timer_step rnd prog e w = Some w1" "run_all (timer_step rnd prog) es w1 = Some w'"
    by (auto elim: bind_SomeE)
  have "timer_inv rnd w1"
    by (rule tq.step_inv [OF Cons.prems(1) w1(1)])
  moreover have "(a, s) \<notin> live w1" "s \<le> sint (numCreated w1)"
    using timer_step_live [OF Cons.prems(1) w1(1)] Cons.prems(2,3) by auto
  ultimately show ?case
    using Cons.IH w1(2) by blast
qed simp

lemma timer_inv_reachable:
  assumes "TimerQueue_new fd ch cb w0 = Some w1" and "timer_objs w0 = Map.empty" and "rounds rnd"
    and "run_all (timer_step rnd prog) es w1 = Some w"
  shows "timer_inv rnd w"
  by (rule tq.run_inv [OF _ assms(4)])
    (use TimerQueue_new_empty [OF assms(1,2)] assms(3) in \<open>simp add: timer_inv_def armed_below_def\<close>)

subsection \<open>An example\<close>

text \<open>
  An example: a repeating timer of half a second at address 100 whose callback 1 does nothing, and a timer
  at address 101 whose callback 2 cancels the first one.
\<close>

definition sample_world :: "nat timer_world" where
  "sample_world = reactor.extend (reactor_new 0)
     \<lparr>timerfd = 0, timerfdChannel = 0, timer_objs = Map.empty, timers = [], activeTimers = [],
      callingExpiredTimers = False, cancelingTimers = [], numCreated = 0, timerfd_calls = [], fired = []\<rparr>"

definition sample_prog :: "nat \<Rightarrow> nat timer_action list" where
  "sample_prog k = (if k = 2 then [Act_cancel \<lparr>id_timer = 100, id_sequence = 1\<rparr>] else [])"

definition sample_events :: "nat timer_event list" where
  "sample_events = [Do (Act_add 100 1 (Timestamp_of 1500000) (1/2) (Timestamp_of 1000000)),
     Do (Act_add 101 2 (Timestamp_of 1200000) 0 (Timestamp_of 1000000))]"

lemma sample_new:
  obtains w where "TimerQueue_new 5 9 0 sample_world = Some w" and "timer_objs w = Map.empty"
    and "timers w = []" and "activeTimers w = []" and "numCreated w = 0" and "fired w = []"
proof -
  have "TimerQueue_new 5 9 0 sample_world \<noteq> None"
    by (simp add: TimerQueue_new_def sample_world_def reactor.extend_def reactor_new_def Channel_new_def
        set_chan_def setReadCallback_def modify_chan_def enableReading_def set_events_eq channel_init_def
        kNew_def)
  then obtain w where w: "TimerQueue_new 5 9 0 sample_world = Some w"
    by auto
  have m: "reactor.more w = reactor.more (sample_world\<lparr>timerfd := 5, timerfdChannel := 9, timers := [],
      activeTimers := [], callingExpiredTimers := False, cancelingTimers := []\<rparr>)"
    using w
    by (auto simp: TimerQueue_new_def setReadCallback_def enableReading_def elim!: bind_SomeE
        dest!: chan_frame set_events_frame)
  show thesis
    by (rule that [OF w]) (use m in \<open>cases w; simp add: sample_world_def reactor.extend_def\<close>)+
qed

lemma sample_runs:
  obtains w1 w where "TimerQueue_new 5 9 0 sample_world = Some w1"
    and "run_all (timer_step (\<lambda>x. x) sample_prog) sample_events w1 = Some w"
    and "timers w = [(Timestamp_of 1200000, 101), (Timestamp_of 1500000, 100)]"
    and "numCreated w = 2" and "fired w = []"
    and "timer_objs w = [100 \<mapsto> Timer_init 1 (Timestamp_of 1500000) (1/2) 1,
                         101 \<mapsto> Timer_init 2 (Timestamp_of 1200000) 0 2]"
proof -
  obtain w1 where w1: "TimerQueue_new 5 9 0 sample_world = Some w1" "timer_objs w1 = Map.empty"
    "timers w1 = []" "activeTimers w1 = []" "numCreated w1 = 0" "fired w1 = []"
    by (rule sample_new)
  define w where "w = the (run_all (timer_step (\<lambda>x. x) sample_prog) sample_events w1)"
  note ev = Timer_new_def w1 UINTPTR_MAX_def incrementAndGet_def addAndGet_def getAndAdd_def
    addTimerInLoop_def TimerQueue_insert_def set_insert_def Timer_init_def resetTimerfd_def
    howMuchTimeFromNow_def Timestamp_of_def ck64_I Timestamp_less_def less_eq_prod_def less_Timestamp_ext_def
    less_eq_Timestamp_ext_def
  have "run_all (timer_step (\<lambda>x. x) sample_prog) sample_events w1 = Some w
    \<and> timers w = [(Timestamp_of 1200000, 101), (Timestamp_of 1500000, 100)]
    \<and> numCreated w = 2 \<and> fired w = [] \<and> timer_objs w = [100 \<mapsto> Timer_init 1 (Timestamp_of 1500000) (1/2) 1,
                         101 \<mapsto> Timer_init 2 (Timestamp_of 1200000) 0 2]"
    unfolding w_def by (simp add: sample_events_def ev Let_def)
  with w1(1) show thesis
    by (intro that) auto
qed

lemma rounds_exact: "rounds (\<lambda>x. x)"
  by (simp add: rounds_def)

lemma sample_no_timers: "timer_objs sample_world = Map.empty"
  by (simp add: sample_world_def reactor.extend_def)

lemma sample_expire:
  assumes "timers w = [(Timestamp_of 1200000, 101), (Timestamp_of 1500000, 100)]" and "fired w = []"
    and "timer_objs w = [100 \<mapsto> Timer_init 1 (Timestamp_of 1500000) (1/2) 1,
                         101 \<mapsto> Timer_init 2 (Timestamp_of 1200000) 0 2]"
    and ok: "tq_ok {} w"
  shows "\<exists>w'. TimerQueue_handleRead (\<lambda>x. x) (callback_run sample_prog) (Timestamp_of 2000000) (Timestamp_of 2000000) w = Some w'"
proof -
  let ?now = "Timestamp_of 2000000"
  have ok0: "tq_ok {} (readTimerfd w)"
    using ok by (simp add: readTimerfd_def tq_ok_def objs_ok_def)
  have acts: "activeTimers (expire ?now {} (readTimerfd w)) = []"
  proof -
    have "timers (expire ?now {} (readTimerfd w)) = []"
      by (simp add: expire_def readTimerfd_def assms(1) Timestamp_of_def less_Timestamp_ext_def)
    then show ?thesis
      using same_size [OF getExpired_eq(2) [OF ok0, of ?now]] by simp
  qed
  show ?thesis
    using getExpired_eq(1) [OF ok0, of ?now] acts
    by (simp add: TimerQueue_handleRead_def due_entries_def Timestamp_le_iff callback_run_def sample_prog_def assms expire_def readTimerfd_def
        Timestamp_of_def less_Timestamp_ext_def Timer_init_def cancelInLoop_def set_insert_def
        TimerQueue_reset_def Timer_delete_def Timestamp_valid_def Timestamp_invalid_def Let_def)
qed

subsection \<open>Properties\<close>

text \<open>
  C20: The two sets of the queue always agree. After any series of events of the loop thread on a new
  queue, where the callbacks may add and cancel timers themselves: \<open>timers_\<close> is in ascending order of
  expiration, and both \<open>timers_\<close> and \<open>activeTimers_\<close> hold exactly the \<open>Timer\<close> objects that exist, so
  no timer is lost or leaked. No assertion of the next operation can fail: cancelling any timer and
  taking out the expired ones return, and so does inserting a new timer.
\<close>

theorem timer_queue_consistent:
  assumes "TimerQueue_new fd ch cb w0 = Some w1" and "timer_objs w0 = Map.empty" and "rounds rnd"
    and "run_all (timer_step rnd prog) es w1 = Some w"
  shows "sorted_wrt (<) (timers w)
    \<and> set (timers w) = {(tm_expiration tm, a) |a tm. timer_objs w a = Some tm}
    \<and> set (activeTimers w) = {(a, tm_sequence tm) |a tm. timer_objs w a = Some tm}
    \<and> length (timers w) = length (activeTimers w)
    \<and> cancelInLoop timerId w \<noteq> None \<and> getExpired now w \<noteq> None
    \<and> (\<forall>w2. Timer_new a cb' when interval w = Some w2 \<longrightarrow> TimerQueue_insert a w2 \<noteq> None)"
proof -
  have ok: "tq_ok {} w"
    using timer_inv_reachable [OF assms] by (simp add: timer_inv_def)
  have "TimerQueue_insert a w2 \<noteq> None" if "Timer_new a cb' when interval w = Some w2" for w2
    using tq_insert_eq(1) [OF tq_Timer_new(1) [OF ok that], of a] tq_Timer_new(3) [OF ok that] by simp
  then show ?thesis
    using set_timers [OF ok] set_activeTimers [OF ok] same_size [OF ok] sorted_timers [OF ok]
      distinct_timers [OF ok] tq_cancel_eq(1) [OF ok, of timerId] getExpired_eq(1) [OF ok, of now]
    by (simp add: schedule_def actives_def strict_sorted_iff)
qed

lemma timer_queue_consistent_witness:
  "\<exists>w1 w. TimerQueue_new 5 9 0 sample_world = Some w1
     \<and> run_all (timer_step (\<lambda>x. x) sample_prog) sample_events w1 = Some w
     \<and> length (timers w) = 2 \<and> length (activeTimers w) = 2 \<and> cancelInLoop TimerId_default w \<noteq> None"
proof -
  obtain w1 w where w: "TimerQueue_new 5 9 0 sample_world = Some w1"
    "run_all (timer_step (\<lambda>x. x) sample_prog) sample_events w1 = Some w"
    "timers w = [(Timestamp_of 1200000, 101), (Timestamp_of 1500000, 100)]"
    by (rule sample_runs)
  have "length (timers w) = length (activeTimers w) \<and> cancelInLoop TimerId_default w \<noteq> None"
    using timer_queue_consistent [OF w(1) sample_no_timers rounds_exact w(2), where timerId = TimerId_default]
    by blast
  moreover have "length (timers w) = 2"
    by (simp add: w(3))
  ultimately show ?thesis
    using w(1,2) by auto
qed

text \<open>
  C21: What happens when the timer descriptor becomes readable. The callbacks of exactly the timers whose
  expiration is not later than the current time run, once each, in the order of their expiration. A repeating
  timer that none of these callbacks cancelled is scheduled again at the current time plus its interval;
  any other expired timer is deleted.
\<close>

theorem expired_timers_run:
  assumes "tq_ok {} w" and "Timestamp_valid now" and "rounds rnd"
    and "TimerQueue_handleRead rnd (callback_run prog) now now2 w = Some w'"
  defines "expired \<equiv> filter (\<lambda>e. fst e \<le> now) (timers w)"
  defines "called \<equiv> map (\<lambda>e. tm_callback (the (timer_objs w (snd e)))) expired"
  shows "fired w' = fired w @ called
    \<and> (\<forall>e \<in> set expired. \<exists>tm. timer_objs w (snd e) = Some tm
        \<and> timer_objs w' (snd e) =
          (if tm_repeat tm \<and> Act_cancel \<lparr>id_timer = snd e, id_sequence = tm_sequence tm\<rparr> \<notin> set (concat (map prog called))
           then map_option (\<lambda>t. tm\<lparr>tm_expiration := t\<rparr>) (addTime rnd now (tm_interval tm)) else None))
    \<and> set (timers w') = {(tm_expiration tm, a) |a tm. timer_objs w' a = Some tm}"
proof -
  note h = handleRead_ok [OF assms(1-4), unfolded due_entries_def callbacks_of_def, folded expired_def,
      folded called_def]
  have "\<exists>tm. timer_objs w (snd e) = Some tm
        \<and> timer_objs w' (snd e) =
          (if tm_repeat tm \<and> Act_cancel \<lparr>id_timer = snd e, id_sequence = tm_sequence tm\<rparr> \<notin> set (concat (map prog called))
           then map_option (\<lambda>t. tm\<lparr>tm_expiration := t\<rparr>) (addTime rnd now (tm_interval tm)) else None)"
    if "e \<in> set expired" for e
  proof -
    have "e \<in> schedule {} (timer_objs w)"
      using that set_timers [OF assms(1)] by (auto simp: expired_def)
    then obtain tm where "timer_objs w (snd e) = Some tm"
      by (auto simp: schedule_def)
    moreover have "snd e \<in> snd ` set expired"
      using that by simp
    ultimately show ?thesis
      using h(7) [of "snd e"]
      by (auto simp: renewed_def cancels_def actions_of_def Timer_restart_def map_option_case
          split: option.split)
  qed
  then show ?thesis
    using h(4) set_timers [OF h(1)] by (simp add: schedule_def)
qed

lemma expired_timers_run_witness:
  "\<exists>w w'. tq_ok {} w \<and> map snd (timers w) = [101, 100]
     \<and> TimerQueue_handleRead (\<lambda>x. x) (callback_run sample_prog) (Timestamp_of 2000000) (Timestamp_of 2000000) w = Some w'
     \<and> fired w' = [2, 1] \<and> timer_objs w' 100 = None"
proof -
  obtain w1 w where w: "TimerQueue_new 5 9 0 sample_world = Some w1"
    "run_all (timer_step (\<lambda>x. x) sample_prog) sample_events w1 = Some w"
    "timers w = [(Timestamp_of 1200000, 101), (Timestamp_of 1500000, 100)]" "fired w = []"
    "timer_objs w = [100 \<mapsto> Timer_init 1 (Timestamp_of 1500000) (1/2) 1,
                     101 \<mapsto> Timer_init 2 (Timestamp_of 1200000) 0 2]"
    by (rule sample_runs)
  have ok: "tq_ok {} w"
    using timer_inv_reachable [OF w(1) sample_no_timers rounds_exact w(2)] by (simp add: timer_inv_def)
  obtain w' where w': "TimerQueue_handleRead (\<lambda>x. x) (callback_run sample_prog) (Timestamp_of 2000000)
      (Timestamp_of 2000000) w = Some w'"
    using sample_expire [OF w(3-5) ok] by auto
  have valid: "Timestamp_valid (Timestamp_of 2000000)"
    by (simp add: Timestamp_valid_def Timestamp_of_def)
  have due: "filter (\<lambda>e. fst e \<le> Timestamp_of 2000000) (timers w) = timers w"
    by (simp add: w(3) Timestamp_le_iff Timestamp_of_def)
  from expired_timers_run [OF ok valid rounds_exact w'] w' ok show ?thesis
    unfolding due by (auto simp: w(3-5) Timer_init_def sample_prog_def)
qed

text \<open>
  C22: A cancelled timer never runs again. Once \<open>cancel\<close> was called for a timer that was created before,
  no later series of events, with whatever timers are created at the same address, brings it back into
  the queue.
\<close>

theorem cancelled_timer_stays_cancelled:
  assumes "timer_inv rnd w" and "id_sequence timerId \<le> sint (numCreated w)"
    and "cancelInLoop timerId w = Some w1" and "run_all (timer_step rnd prog) es w1 = Some w'"
  shows "(id_timer timerId, id_sequence timerId) \<notin> set (activeTimers w')"
proof -
  let ?id = "(id_timer timerId, id_sequence timerId)"
  have ok: "tq_ok {} w"
    using assms(1) by (simp add: timer_inv_def)
  have w1: "w1 = cancelled timerId {} w"
    using tq_cancel_eq(1) [OF ok] assms(3) by simp
  have inv1: "timer_inv rnd w1"
    by (rule tq.step_inv [of rnd w prog "Do (Act_cancel timerId)"]) (use assms(1,3) in simp_all)
  have "?id \<notin> live w1 \<and> numCreated w1 = numCreated w"
  proof (cases "?id \<in> actives {} (timer_objs w)")
    case True
    then obtain tm where "timer_objs w (id_timer timerId) = Some tm" "tm_sequence tm = id_sequence timerId"
      "id_timer timerId \<notin> {}"
      by (auto simp: actives_mem)
    from cancelled_hit [OF this] show ?thesis
      by (simp add: w1 live_def actives_mem)
  next
    case False
    then show ?thesis
      unfolding w1 cancelled_miss [OF False] by (simp add: live_def)
  qed
  then have "?id \<notin> live w'"
    using gone_stays_gone [OF inv1 _ _ assms(4)] assms(2) by simp
  moreover have "tq_ok {} w'"
    using tq.run_inv [OF inv1 assms(4)] by (simp add: timer_inv_def)
  ultimately show ?thesis
    by (simp add: live_def set_activeTimers)
qed

lemma cancelled_timer_stays_cancelled_witness:
  "\<exists>(w :: nat timer_world) w1. timer_inv (\<lambda>x. x) w \<and> (100, 1) \<in> set (activeTimers w)
     \<and> cancelInLoop \<lparr>id_timer = 100, id_sequence = 1\<rparr> w = Some w1 \<and> (100, 1) \<notin> set (activeTimers w1)"
proof -
  obtain w1 w where w: "TimerQueue_new 5 9 0 sample_world = Some w1"
    "run_all (timer_step (\<lambda>x. x) sample_prog) sample_events w1 = Some w" "numCreated w = 2"
    "timer_objs w = [100 \<mapsto> Timer_init 1 (Timestamp_of 1500000) (1/2) 1,
                     101 \<mapsto> Timer_init 2 (Timestamp_of 1200000) 0 2]"
    by (rule sample_runs)
  have inv: "timer_inv (\<lambda>x. x) w"
    by (rule timer_inv_reachable [OF w(1) sample_no_timers rounds_exact w(2)])
  then have ok: "tq_ok {} w"
    by (simp add: timer_inv_def)
  let ?id = "\<lparr>id_timer = 100, id_sequence = 1\<rparr>"
  have "id_sequence ?id \<le> sint (numCreated w)"
    by (simp add: w(3))
  moreover have "run_all (timer_step (\<lambda>x. x) sample_prog) [] (cancelled ?id {} w) = Some (cancelled ?id {} w)"
    by simp
  ultimately have "(id_timer ?id, id_sequence ?id) \<notin> set (activeTimers (cancelled ?id {} w))"
    by (rule cancelled_timer_stays_cancelled [OF inv _ tq_cancel_eq(1) [OF ok]])
  moreover have "(100, 1) \<in> set (activeTimers w)"
    unfolding set_activeTimers [OF ok] by (simp add: actives_mem w(4) Timer_init_def)
  ultimately show ?thesis
    using inv tq_cancel_eq(1) [OF ok, of ?id]
    by (intro exI [of _ w] exI [of _ "cancelled ?id {} w"]) simp
qed

text \<open>
  C23: The timer descriptor is always armed while timers are pending. After any series of events, if the
  queue is not empty then the last system call on the descriptor set it, with a normalised and non-zero
  time, and it becomes readable no later than the expiration of the first timer, or 100 microseconds
  after the call when that time was already over.
\<close>

theorem timerfd_armed:
  assumes "TimerQueue_new fd ch cb w0 = Some w1" and "timer_objs w0 = Map.empty" and "rounds rnd"
    and "run_all (timer_step rnd prog) es w1 = Some w" and "timers w \<noteq> []"
  shows "\<exists>pre now sec nsec. timerfd_calls w = pre @ [Settime now sec nsec]
    \<and> 0 \<le> sec \<and> 0 \<le> nsec \<and> nsec < 1000000000 \<and> 0 < sec + nsec
    \<and> microSecondsSinceEpoch now + sec * 1000000 + nsec div 1000
        \<le> max (microSecondsSinceEpoch (fst (hd (timers w)))) (microSecondsSinceEpoch now + 100)"
  using timer_inv_reachable [OF assms(1-4)] assms(5)
  by (auto simp: timer_inv_def armed_below_def armed_for_def deadline_def)

lemma timerfd_armed_witness:
  "\<exists>w1 w. TimerQueue_new 5 9 0 sample_world = Some w1
     \<and> run_all (timer_step (\<lambda>x. x) sample_prog) sample_events w1 = Some w
     \<and> (\<exists>pre now sec nsec. timerfd_calls w = pre @ [Settime now sec nsec] \<and> 0 < sec + nsec)"
proof -
  obtain w1 w where w: "TimerQueue_new 5 9 0 sample_world = Some w1"
    "run_all (timer_step (\<lambda>x. x) sample_prog) sample_events w1 = Some w"
    "timers w = [(Timestamp_of 1200000, 101), (Timestamp_of 1500000, 100)]"
    by (rule sample_runs)
  then have "timers w \<noteq> []"
    by simp
  from timerfd_armed [OF w(1) sample_no_timers rounds_exact w(2) this] w show ?thesis
    by blast
qed

end
