(* ===== verification/EventLoop.thy ===== *)
theory EventLoop
  imports TimerQueueProps
begin

section \<open>The event loop: \<open>net/event_loop.*\<close>\<close>

text \<open>
  The members of \<open>EventLoop\<close> extend those of the timer queue and the reactor. The operations take the
  number of the calling thread; the ones other threads may call are split into the parts that the mutex
  makes atomic, so that they can be interleaved. \<open>addTimer\<close> and \<open>cancel\<close> of \<open>TimerQueue\<close> are here because
  they run in the loop.
\<close>

subsection \<open>Functors and state\<close>

text \<open>
  A \<open>std::function\<close> of the event loop: one of the members the library binds itself, or a function of the
  client. The client functions are run by an argument of the model.
\<close>

datatype 'u Functor =
    Fn_timerHandleRead
  | Fn_wakeupHandleRead
  | Fn_addTimerInLoop addr
  | Fn_cancelInLoop TimerId
  | Fn_user 'u

text \<open>
  \<open>wakeup_counter\<close> is the counter of the \<open>eventfd\<close> \<open>wakeupFd_\<close>. The readings of the clock are given by
  \<open>clock\<close>: each functor that reads it takes the next pair, for the first and the last of its readings.
\<close>

record 'u event_loop = "'u Functor timer_queue" +
  looping :: bool
  quit :: bool
  callingPendingFunctors :: bool
  iteration :: int
  threadId :: nat
  pollReturnTime :: Timestamp
  wakeupFd :: int
  wakeupChannel :: addr
  pendingFunctors :: "'u Functor list"
  wakeup_counter :: nat
  clock :: "nat \<Rightarrow> Timestamp \<times> Timestamp"
  clock_reads :: nat
  loopInThisThread :: "nat option"

type_synonym ('u, 'z) user_runner =
  "'u \<Rightarrow> Timestamp \<Rightarrow> ('u, 'z) event_loop_scheme \<Rightarrow> ('u, 'z) event_loop_scheme option"

definition read_clock ::
    "('u, 'z) event_loop_scheme \<Rightarrow> (Timestamp \<times> Timestamp) \<times> ('u, 'z) event_loop_scheme" where
  "read_clock w = (clock w (clock_reads w), w\<lparr>clock_reads := Suc (clock_reads w)\<rparr>)"

definition isInLoopThread :: "nat \<Rightarrow> ('u, 'z) event_loop_scheme \<Rightarrow> bool" where
  "isInLoopThread tid w \<longleftrightarrow> threadId w = tid"

subsection \<open>Waking up\<close>

text \<open>
  A write to the \<open>eventfd\<close> adds one to its counter; it fails, and the failure is ignored, when the sum
  would be the largest 64-bit number. Reading sets the counter to zero.
\<close>

definition EVENTFD_MAX :: nat where
  "EVENTFD_MAX = 2 ^ 64 - 2"

definition wakeup :: "('u, 'z) event_loop_scheme \<Rightarrow> ('u, 'z) event_loop_scheme" where
  "wakeup w = (if wakeup_counter w < EVENTFD_MAX
     then w\<lparr>wakeup_counter := Suc (wakeup_counter w)\<rparr> else w)"

definition EventLoop_handleRead :: "('u, 'z) event_loop_scheme \<Rightarrow> ('u, 'z) event_loop_scheme" where
  "EventLoop_handleRead w = w\<lparr>wakeup_counter := 0\<rparr>"

text \<open>
  \<open>quit\<close> sets the flag and then wakes the loop; another thread that calls it may be interrupted between the two.
\<close>

definition set_quit :: "('u, 'z) event_loop_scheme \<Rightarrow> ('u, 'z) event_loop_scheme" where
  "set_quit w = w\<lparr>quit := True\<rparr>"

definition quit_wakeup :: "nat \<Rightarrow> ('u, 'z) event_loop_scheme \<Rightarrow> ('u, 'z) event_loop_scheme" where
  "quit_wakeup tid w = (if \<not> isInLoopThread tid w then wakeup w else w)"

definition EventLoop_quit :: "nat \<Rightarrow> ('u, 'z) event_loop_scheme \<Rightarrow> ('u, 'z) event_loop_scheme" where
  "EventLoop_quit tid w = quit_wakeup tid (set_quit w)"

lemma EventLoop_quit_eq:
  "EventLoop_quit tid w = (let w1 = w\<lparr>quit := True\<rparr> in if \<not> isInLoopThread tid w1 then wakeup w1 else w1)"
  by (simp add: EventLoop_quit_def quit_wakeup_def set_quit_def Let_def)

subsection \<open>Queueing functors\<close>

text \<open>
  \<open>queueInLoop\<close> in two parts, between which other threads may run: the critical section and the wakeup.
\<close>

definition push_functor :: "'u Functor \<Rightarrow> ('u, 'z) event_loop_scheme \<Rightarrow> ('u, 'z) event_loop_scheme" where
  "push_functor cb w = w\<lparr>pendingFunctors := pendingFunctors w @ [cb]\<rparr>"

definition queue_wakeup :: "nat \<Rightarrow> ('u, 'z) event_loop_scheme \<Rightarrow> ('u, 'z) event_loop_scheme" where
  "queue_wakeup tid w = (if \<not> isInLoopThread tid w \<or> callingPendingFunctors w then wakeup w else w)"

definition queueInLoop :: "nat \<Rightarrow> 'u Functor \<Rightarrow> ('u, 'z) event_loop_scheme \<Rightarrow> ('u, 'z) event_loop_scheme" where
  "queueInLoop tid cb w = queue_wakeup tid (push_functor cb w)"

lemma queueInLoop_eq:
  "queueInLoop tid cb w =
     (let w1 = push_functor cb w
      in if \<not> isInLoopThread tid w1 \<or> callingPendingFunctors w1 then wakeup w1 else w1)"
  by (simp add: queueInLoop_def queue_wakeup_def Let_def)

definition queueSize :: "('u, 'z) event_loop_scheme \<Rightarrow> nat" where
  "queueSize w = length (pendingFunctors w)"

text \<open>Running a functor in the loop thread. Timer callbacks are functions of the client.\<close>

definition run_user ::
    "('u, 'z) user_runner \<Rightarrow> 'u Functor \<Rightarrow> ('u, 'z) event_loop_scheme \<Rightarrow> ('u, 'z) event_loop_scheme option" where
  "run_user user cb w = (case cb of Fn_user u \<Rightarrow> user u Timestamp_invalid w | _ \<Rightarrow> None)"

definition run_functor ::
    "(rat \<Rightarrow> rat) \<Rightarrow> ('u, 'z) user_runner \<Rightarrow> 'u Functor \<Rightarrow> Timestamp
      \<Rightarrow> ('u, 'z) event_loop_scheme \<Rightarrow> ('u, 'z) event_loop_scheme option" where
  "run_functor rnd user cb t w = (case cb of
       Fn_timerHandleRead \<Rightarrow>
         (let ((now, now2), w1) = read_clock w in TimerQueue_handleRead rnd (run_user user) now now2 w1)
     | Fn_wakeupHandleRead \<Rightarrow> Some (EventLoop_handleRead w)
     | Fn_addTimerInLoop a \<Rightarrow> (let ((now, _), w1) = read_clock w in addTimerInLoop now a w1)
     | Fn_cancelInLoop timerId \<Rightarrow> cancelInLoop timerId w
     | Fn_user u \<Rightarrow> user u t w)"

definition runInLoop ::
    "(rat \<Rightarrow> rat) \<Rightarrow> ('u, 'z) user_runner \<Rightarrow> nat \<Rightarrow> 'u Functor
      \<Rightarrow> ('u, 'z) event_loop_scheme \<Rightarrow> ('u, 'z) event_loop_scheme option" where
  "runInLoop rnd user tid cb w =
     (if isInLoopThread tid w then run_functor rnd user cb Timestamp_invalid w
      else Some (queueInLoop tid cb w))"

text \<open>\<open>run_pending\<close> is the loop of \<open>doPendingFunctors\<close> over the functors swapped out.\<close>

definition run_pending ::
    "(rat \<Rightarrow> rat) \<Rightarrow> ('u, 'z) user_runner \<Rightarrow> 'u Functor list
      \<Rightarrow> ('u, 'z) event_loop_scheme \<Rightarrow> ('u, 'z) event_loop_scheme option" where
  "run_pending rnd user functors w = run_all (\<lambda>cb. run_functor rnd user cb Timestamp_invalid) functors w"

definition set_calling :: "bool \<Rightarrow> ('u, 'z) event_loop_scheme \<Rightarrow> ('u, 'z) event_loop_scheme" where
  "set_calling b w = w\<lparr>callingPendingFunctors := b\<rparr>"

text \<open>The critical section of \<open>doPendingFunctors\<close>.\<close>

definition swap_functors :: "('u, 'z) event_loop_scheme \<Rightarrow> 'u Functor list \<times> ('u, 'z) event_loop_scheme" where
  "swap_functors w = (pendingFunctors w, w\<lparr>pendingFunctors := []\<rparr>)"

definition doPendingFunctors ::
    "(rat \<Rightarrow> rat) \<Rightarrow> ('u, 'z) user_runner \<Rightarrow> ('u, 'z) event_loop_scheme \<Rightarrow> ('u, 'z) event_loop_scheme option" where
  "doPendingFunctors rnd user w = do {
     let (functors, w1) = swap_functors (set_calling True w);
     w2 \<leftarrow> run_pending rnd user functors w1;
     Some (set_calling False w2)
   }"

lemma doPendingFunctors_eq:
  "doPendingFunctors rnd user w = do {
     let w1 = w\<lparr>callingPendingFunctors := True\<rparr>;
     let functors = pendingFunctors w1;
     w2 \<leftarrow> run_pending rnd user functors (w1\<lparr>pendingFunctors := []\<rparr>);
     Some (w2\<lparr>callingPendingFunctors := False\<rparr>)
   }"
  by (simp add: doPendingFunctors_def swap_functors_def set_calling_def Let_def)

subsection \<open>The loop\<close>

definition handle_active ::
    "(rat \<Rightarrow> rat) \<Rightarrow> ('u, 'z) user_runner \<Rightarrow> addr list
      \<Rightarrow> ('u, 'z) event_loop_scheme \<Rightarrow> ('u, 'z) event_loop_scheme option" where
  "handle_active rnd user channels w =
     run_all (\<lambda>ch w. handleEvent (run_functor rnd user) (pollReturnTime w) ch (w\<lparr>rx_currentActive := Some ch\<rparr>))
       channels w"

text \<open>One iteration, given what \<open>epoll_wait\<close> returns and the time when it does.\<close>

definition loop_body ::
    "(rat \<Rightarrow> rat) \<Rightarrow> ('u, 'z) user_runner \<Rightarrow> (int + (event_mask \<times> addr) list) \<times> Timestamp
      \<Rightarrow> ('u, 'z) event_loop_scheme \<Rightarrow> ('u, 'z) event_loop_scheme option" where
  "loop_body rnd user polled w = do {
     w1 \<leftarrow> EPollPoller_poll (fst polled) (w\<lparr>rx_activeChannels := []\<rparr>);
     i \<leftarrow> ck64 (iteration w1 + 1);
     let w2 = w1\<lparr>pollReturnTime := snd polled, iteration := i, rx_eventHandling := True\<rparr>;
     w3 \<leftarrow> handle_active rnd user (rx_activeChannels w2) w2;
     doPendingFunctors rnd user (w3\<lparr>rx_currentActive := None, rx_eventHandling := False\<rparr>)
   }"

text \<open>The \<open>while\<close> loop, which has not returned as long as the results of \<open>epoll_wait\<close> do not suffice.\<close>

fun loop_while ::
    "(rat \<Rightarrow> rat) \<Rightarrow> ('u, 'z) user_runner \<Rightarrow> ((int + (event_mask \<times> addr) list) \<times> Timestamp) list
      \<Rightarrow> ('u, 'z) event_loop_scheme \<Rightarrow> ('u, 'z) event_loop_scheme option" where
  "loop_while rnd user [] w = (if quit w then Some w else None)"
| "loop_while rnd user (p # ps) w =
     (if quit w then Some w else do { w1 \<leftarrow> loop_body rnd user p w; loop_while rnd user ps w1 })"

definition EventLoop_loop ::
    "(rat \<Rightarrow> rat) \<Rightarrow> ('u, 'z) user_runner \<Rightarrow> ((int + (event_mask \<times> addr) list) \<times> Timestamp) list
      \<Rightarrow> ('u, 'z) event_loop_scheme \<Rightarrow> ('u, 'z) event_loop_scheme option" where
  "EventLoop_loop rnd user polls w = do {
     assert_that (\<not> looping w);
     w1 \<leftarrow> loop_while rnd user polls (w\<lparr>looping := True, quit := False\<rparr>);
     Some (w1\<lparr>looping := False\<rparr>)
   }"

subsection \<open>Timers\<close>

text \<open>
  \<open>addTimer\<close> creates the timer at the address \<open>a\<close>, hands it to the loop and reads its sequence number at the end.
  When another thread calls it, the loop thread may run between the last two: \<open>meanwhile\<close> is what it does.
\<close>

definition addTimer_with ::
    "(('u, 'z) event_loop_scheme \<Rightarrow> ('u, 'z) event_loop_scheme option)
      \<Rightarrow> (rat \<Rightarrow> rat) \<Rightarrow> ('u, 'z) user_runner \<Rightarrow> nat \<Rightarrow> addr \<Rightarrow> 'u Functor \<Rightarrow> Timestamp \<Rightarrow> rat
      \<Rightarrow> ('u, 'z) event_loop_scheme \<Rightarrow> (TimerId \<times> ('u, 'z) event_loop_scheme) option" where
  "addTimer_with meanwhile rnd user tid a cb when interval w = do {
     w1 \<leftarrow> Timer_new a cb when interval w;
     w2 \<leftarrow> runInLoop rnd user tid (Fn_addTimerInLoop a) w1;
     w3 \<leftarrow> meanwhile w2;
     tm \<leftarrow> timer_objs w3 a;
     Some (\<lparr>id_timer = a, id_sequence = tm_sequence tm\<rparr>, w3)
   }"

definition addTimer ::
    "(rat \<Rightarrow> rat) \<Rightarrow> ('u, 'z) user_runner \<Rightarrow> nat \<Rightarrow> addr \<Rightarrow> 'u Functor \<Rightarrow> Timestamp \<Rightarrow> rat
      \<Rightarrow> ('u, 'z) event_loop_scheme \<Rightarrow> (TimerId \<times> ('u, 'z) event_loop_scheme) option" where
  "addTimer = addTimer_with Some"

lemma addTimer_eq:
  "addTimer rnd user tid a cb when interval w = do {
     w1 \<leftarrow> Timer_new a cb when interval w;
     w2 \<leftarrow> runInLoop rnd user tid (Fn_addTimerInLoop a) w1;
     tm \<leftarrow> timer_objs w2 a;
     Some (\<lparr>id_timer = a, id_sequence = tm_sequence tm\<rparr>, w2)
   }"
  by (simp add: addTimer_def addTimer_with_def)

definition TimerQueue_cancel ::
    "(rat \<Rightarrow> rat) \<Rightarrow> ('u, 'z) user_runner \<Rightarrow> nat \<Rightarrow> TimerId
      \<Rightarrow> ('u, 'z) event_loop_scheme \<Rightarrow> ('u, 'z) event_loop_scheme option" where
  "TimerQueue_cancel rnd user tid timerId = runInLoop rnd user tid (Fn_cancelInLoop timerId)"

definition runAt ::
    "(rat \<Rightarrow> rat) \<Rightarrow> ('u, 'z) user_runner \<Rightarrow> nat \<Rightarrow> addr \<Rightarrow> Timestamp \<Rightarrow> 'u Functor
      \<Rightarrow> ('u, 'z) event_loop_scheme \<Rightarrow> (TimerId \<times> ('u, 'z) event_loop_scheme) option" where
  "runAt rnd user tid a time cb w = addTimer rnd user tid a cb time 0 w"

definition runAfter ::
    "(rat \<Rightarrow> rat) \<Rightarrow> ('u, 'z) user_runner \<Rightarrow> nat \<Rightarrow> addr \<Rightarrow> rat \<Rightarrow> 'u Functor
      \<Rightarrow> ('u, 'z) event_loop_scheme \<Rightarrow> (TimerId \<times> ('u, 'z) event_loop_scheme) option" where
  "runAfter rnd user tid a delay cb w = (let ((now, _), w1) = read_clock w in do {
     time \<leftarrow> addTime rnd now delay;
     runAt rnd user tid a time cb w1 })"

definition runEvery ::
    "(rat \<Rightarrow> rat) \<Rightarrow> ('u, 'z) user_runner \<Rightarrow> nat \<Rightarrow> addr \<Rightarrow> rat \<Rightarrow> 'u Functor
      \<Rightarrow> ('u, 'z) event_loop_scheme \<Rightarrow> (TimerId \<times> ('u, 'z) event_loop_scheme) option" where
  "runEvery rnd user tid a interval cb w = (let ((now, _), w1) = read_clock w in do {
     time \<leftarrow> addTime rnd now interval;
     addTimer rnd user tid a cb time interval w1 })"

definition EventLoop_cancel ::
    "(rat \<Rightarrow> rat) \<Rightarrow> ('u, 'z) user_runner \<Rightarrow> nat \<Rightarrow> TimerId
      \<Rightarrow> ('u, 'z) event_loop_scheme \<Rightarrow> ('u, 'z) event_loop_scheme option" where
  "EventLoop_cancel rnd user tid timerId = TimerQueue_cancel rnd user tid timerId"

subsection \<open>Construction and destruction\<close>

text \<open>
  The constructor in the thread \<open>tid\<close>; the poller is new, \<open>tfd\<close> and \<open>efd\<close> are the descriptors of the timer
  and of the \<open>eventfd\<close>, and \<open>tch\<close> and \<open>wch\<close> the addresses of their channels. \<open>createEventfd\<close> aborts when
  it gets no descriptor.
\<close>

definition createEventfd :: "int \<Rightarrow> int option" where
  "createEventfd evtfd = do { assert_that (\<not> evtfd < 0); Some evtfd }"

definition EventLoop_new ::
    "nat \<Rightarrow> int \<Rightarrow> int \<Rightarrow> addr \<Rightarrow> addr \<Rightarrow> ('u, 'z) event_loop_scheme \<Rightarrow> ('u, 'z) event_loop_scheme option" where
  "EventLoop_new tid tfd evtfd tch wch w = do {
     let w0 = w\<lparr>looping := False, quit := False, rx_eventHandling := False, callingPendingFunctors := False,
                iteration := 0, threadId := tid, rx_currentActive := None, pendingFunctors := []\<rparr>;
     w1 \<leftarrow> TimerQueue_new tfd tch Fn_timerHandleRead w0;
     efd \<leftarrow> createEventfd evtfd;
     w2 \<leftarrow> Channel_new wch efd (w1\<lparr>wakeupFd := efd, wakeupChannel := wch, wakeup_counter := 0\<rparr>);
     let w3 = (if loopInThisThread w2 \<noteq> None then w2 else w2\<lparr>loopInThisThread := Some (rx_loop w2)\<rparr>);
     w4 \<leftarrow> setReadCallback Fn_wakeupHandleRead wch w3;
     enableReading wch w4
   }"

text \<open>The destructor, followed by those of the members \<open>wakeupChannel_\<close> and \<open>timerQueue_\<close>.\<close>

definition EventLoop_destroy :: "('u, 'z) event_loop_scheme \<Rightarrow> ('u, 'z) event_loop_scheme option" where
  "EventLoop_destroy w = do {
     w1 \<leftarrow> disableAll (wakeupChannel w) w;
     w2 \<leftarrow> Channel_remove (wakeupChannel w) w1;
     w3 \<leftarrow> Channel_destroy (wakeupChannel w) (w2\<lparr>loopInThisThread := None\<rparr>);
     TimerQueue_destroy w3
   }"

end
