(* ===== verification/EventLoopProps.thy ===== *)
theory EventLoopProps
  imports EventLoop
begin

section \<open>Properties of the event loop\<close>

text \<open>
  The loop thread and the threads that queue functors or call \<open>quit\<close>, as a transition system whose steps are
  the atomic parts of \<open>queueInLoop\<close>, \<open>quit\<close> and \<open>doPendingFunctors\<close>; without interference these steps make up the
  three operations. The properties: pending functors run once and in order, no wakeup is lost, and the race
  in \<open>addTimer\<close>.
\<close>

subsection \<open>Threads and the loop\<close>

text \<open>
  The loop thread and any number of other threads, interleaved. What a functor or the callback of a
  channel does with the loop is a list of actions; \<open>prog\<close> gives those of each functor. The loop thread is
  blocked in \<open>poll\<close>, handles the events it returned (reading the \<open>eventfd\<close> among them when it was
  readable), is about to swap the pending functors, runs them, or has stopped. Another thread that calls
  \<open>queueInLoop\<close> or \<open>quit\<close> takes the first part of the call in one step and the second part in another;
  \<open>foreign\<close> lists the calls between the two, with the threads that make them.
\<close>

datatype 'u loop_action = Queue "'u Functor" | Quit

datatype 'u handling = Read_wakeup | Act "'u loop_action"

datatype 'u loop_pc =
    At_poll
  | Handling "'u handling list"
  | Before_swap
  | Running "'u loop_action list" "'u Functor list"
  | Stopped

datatype call_rest = Rest_queueInLoop | Rest_quit

fun finish_call :: "nat \<times> call_rest \<Rightarrow> ('u, 'z) event_loop_scheme \<Rightarrow> ('u, 'z) event_loop_scheme" where
  "finish_call (tid, Rest_queueInLoop) w = queue_wakeup tid w"
| "finish_call (tid, Rest_quit) w = quit_wakeup tid w"

text \<open>
  \<open>pushed\<close> and \<open>executed\<close> list the functors queued and started so far, \<open>mark\<close> is the number of those
  queued when \<open>poll\<close> returned for the last time.
\<close>

record 'u loop_conf =
  pc :: "'u loop_pc"
  lw :: "'u event_loop"
  foreign :: "(nat \<times> call_rest) list"
  pushed :: "'u Functor list"
  executed :: "'u Functor list"
  mark :: nat

fun own_action :: "'u loop_action \<Rightarrow> 'u loop_conf \<Rightarrow> 'u loop_conf" where
  "own_action (Queue f) c =
     c\<lparr>lw := queueInLoop (threadId (lw c)) f (lw c), pushed := pushed c @ [f]\<rparr>"
| "own_action Quit c = c\<lparr>lw := EventLoop_quit (threadId (lw c)) (lw c)\<rparr>"

inductive loop_step :: "('u Functor \<Rightarrow> 'u loop_action list) \<Rightarrow> 'u loop_conf \<Rightarrow> 'u loop_conf \<Rightarrow> bool"
  for prog where
  foreign_push: "tid \<noteq> threadId (lw c) \<Longrightarrow> loop_step prog c (c\<lparr>lw := push_functor f (lw c), pushed := pushed c @ [f],
     foreign := (tid, Rest_queueInLoop) # foreign c\<rparr>)"
| foreign_quit: "tid \<noteq> threadId (lw c) \<Longrightarrow> loop_step prog c (c\<lparr>lw := set_quit (lw c),
     foreign := (tid, Rest_quit) # foreign c\<rparr>)"
| foreign_rest: "call \<in> set (foreign c) \<Longrightarrow> loop_step prog c (c\<lparr>lw := finish_call call (lw c),
     foreign := remove1 call (foreign c)\<rparr>)"
| poll_returns: "pc c = At_poll \<Longrightarrow> (Read_wakeup \<in> set items \<longleftrightarrow> 0 < wakeup_counter (lw c)) \<Longrightarrow>
     loop_step prog c (c\<lparr>pc := Handling items, mark := length (pushed c)\<rparr>)"
| handle_read: "pc c = Handling (Read_wakeup # items) \<Longrightarrow>
     loop_step prog c (c\<lparr>pc := Handling items, lw := EventLoop_handleRead (lw c)\<rparr>)"
| handle_act: "pc c = Handling (Act act # items) \<Longrightarrow>
     loop_step prog c ((own_action act c)\<lparr>pc := Handling items\<rparr>)"
| handled: "pc c = Handling [] \<Longrightarrow>
     loop_step prog c (c\<lparr>pc := Before_swap, lw := set_calling True (lw c)\<rparr>)"
| swap: "pc c = Before_swap \<Longrightarrow>
     loop_step prog c (c\<lparr>pc := Running [] (fst (swap_functors (lw c))), lw := snd (swap_functors (lw c))\<rparr>)"
| start_functor: "pc c = Running [] (f # fs) \<Longrightarrow>
     loop_step prog c (c\<lparr>pc := Running (prog f) fs, executed := executed c @ [f]\<rparr>)"
| functor_act: "pc c = Running (act # acts) fs \<Longrightarrow>
     loop_step prog c ((own_action act c)\<lparr>pc := Running acts fs\<rparr>)"
| functors_done: "pc c = Running [] [] \<Longrightarrow>
     loop_step prog c (c\<lparr>pc := (if quit (lw c) then Stopped else At_poll),
                         lw := set_calling False (lw c)\<rparr>)"

inductive_cases loop_stepE: "loop_step prog c c'"

definition loop_start :: "'u loop_conf \<Rightarrow> bool" where
  "loop_start c \<longleftrightarrow> pc c = At_poll \<and> pendingFunctors (lw c) = [] \<and> \<not> quit (lw c)
     \<and> \<not> callingPendingFunctors (lw c) \<and> foreign c = [] \<and> pushed c = [] \<and> executed c = [] \<and> mark c = 0"

fun in_progress :: "'u loop_pc \<Rightarrow> 'u Functor list" where
  "in_progress (Running acts fs) = fs"
| "in_progress _ = []"

fun in_functors :: "'u loop_pc \<Rightarrow> bool" where
  "in_functors Before_swap = True"
| "in_functors (Running acts fs) = True"
| "in_functors _ = False"

text \<open>A wakeup is there or on its way.\<close>

definition woken :: "'u loop_conf \<Rightarrow> bool" where
  "woken c \<longleftrightarrow> 0 < wakeup_counter (lw c) \<or> foreign c \<noteq> []"

definition loop_inv :: "'u loop_conf \<Rightarrow> bool" where
  "loop_inv c \<longleftrightarrow>
     (\<forall>call \<in> set (foreign c). fst call \<noteq> threadId (lw c))
     \<and> (pc c \<noteq> Stopped \<longrightarrow> (callingPendingFunctors (lw c) \<longleftrightarrow> in_functors (pc c)))
     \<and> (pc c = At_poll \<or> (\<exists>acts fs. pc c = Running acts fs) \<longrightarrow> pendingFunctors (lw c) \<noteq> [] \<longrightarrow> woken c)
     \<and> (pc c = At_poll \<longrightarrow> quit (lw c) \<longrightarrow> woken c)
     \<and> pushed c = executed c @ in_progress (pc c) @ pendingFunctors (lw c)
     \<and> mark c \<le> (case pc c of Handling items \<Rightarrow> length (pushed c) | Before_swap \<Rightarrow> length (pushed c)
          | p \<Rightarrow> length (executed c) + length (in_progress p))"

lemma wakeup_fields [simp]:
  "pendingFunctors (wakeup w) = pendingFunctors w" "quit (wakeup w) = quit w"
  "callingPendingFunctors (wakeup w) = callingPendingFunctors w" "threadId (wakeup w) = threadId w"
  "0 < wakeup_counter (wakeup w)"
  by (simp_all add: wakeup_def EVENTFD_MAX_def)

text \<open>What another thread does to the loop.\<close>

lemma foreign_fields:
  "fst call \<noteq> threadId w \<Longrightarrow> finish_call call w = wakeup w"
  "pendingFunctors (set_quit w) = pendingFunctors w" "threadId (set_quit w) = threadId w" "quit (set_quit w)"
  "callingPendingFunctors (set_quit w) = callingPendingFunctors w" "wakeup_counter (set_quit w) = wakeup_counter w"
proof -
  show "fst call \<noteq> threadId w \<Longrightarrow> finish_call call w = wakeup w"
    by (cases "(call, w)" rule: finish_call.cases) (simp_all add: queue_wakeup_def quit_wakeup_def isInLoopThread_def)
qed (simp_all add: set_quit_def)

lemmas loop_parts = foreign_fields set_calling_def swap_functors_def push_functor_def EventLoop_handleRead_def

lemma own_action_fields:
  "pc (own_action act c) = pc c" "foreign (own_action act c) = foreign c" "mark (own_action act c) = mark c"
  "executed (own_action act c) = executed c" "threadId (lw (own_action act c)) = threadId (lw c)"
  "callingPendingFunctors (lw (own_action act c)) = callingPendingFunctors (lw c)"
  "pushed (own_action act c) = pushed c @ (case act of Queue f \<Rightarrow> [f] | Quit \<Rightarrow> [])"
  "pendingFunctors (lw (own_action act c)) = pendingFunctors (lw c) @ (case act of Queue f \<Rightarrow> [f] | Quit \<Rightarrow> [])"
  by (cases act; simp add: queueInLoop_eq push_functor_def EventLoop_quit_eq isInLoopThread_def Let_def)+

lemma own_action_wakes:
  assumes "callingPendingFunctors (lw c)" and "pendingFunctors (lw c) \<noteq> [] \<longrightarrow> woken c"
    and "pendingFunctors (lw (own_action act c)) \<noteq> []"
  shows "woken (own_action act c)"
  using assms
  by (cases act) (simp_all add: queueInLoop_eq push_functor_def EventLoop_quit_eq isInLoopThread_def woken_def Let_def)

lemma loop_inv_step:
  assumes "loop_inv c" and "loop_step prog c c'"
  shows "loop_inv c'"
  using assms(2)
proof cases
  case (handle_act act items)
  with assms(1) show ?thesis
    by (auto simp: loop_inv_def own_action_fields)
next
  case (functor_act act acts fs)
  with assms(1) own_action_wakes [of c act] show ?thesis
    by (simp add: loop_inv_def own_action_fields woken_def)
next
  case (foreign_rest call)
  then have "finish_call call (lw c) = wakeup (lw c)"
    using assms(1) by (intro foreign_fields) (auto simp: loop_inv_def)
  with foreign_rest assms(1) show ?thesis
    by (auto simp: loop_inv_def woken_def dest: subsetD [OF set_remove1_subset] split: loop_pc.splits)
qed (use assms(1) in \<open>auto simp: loop_inv_def woken_def loop_parts split: loop_pc.splits\<close>)

interpretation threads: transition_system loop_start "loop_step prog" loop_inv for prog
proof
  show "loop_start c \<Longrightarrow> loop_inv c" for c :: "'a loop_conf"
    by (simp add: loop_start_def loop_inv_def)
  show "loop_inv c \<Longrightarrow> loop_step prog c c' \<Longrightarrow> loop_inv c'" for c c' :: "'a loop_conf"
    by (rule loop_inv_step)
qed

subsection \<open>A client that queues functors\<close>

record 'u client = "'u event_loop" +
  ran_users :: "'u list"

definition client_run :: "('u \<Rightarrow> 'u Functor list) \<Rightarrow> 'u \<Rightarrow> Timestamp \<Rightarrow> 'u client \<Rightarrow> 'u client option" where
  "client_run prog u t w =
     Some (fold (queueInLoop (threadId w)) (prog u) (w\<lparr>ran_users := ran_users w @ [u]\<rparr>))"

lemma run_functor_client:
  "run_functor rnd (client_run prog) (Fn_user u) t w
    = Some (fold (queueInLoop (threadId w)) (prog u) (w\<lparr>ran_users := ran_users w @ [u]\<rparr>))"
  by (simp add: run_functor_def client_run_def)

lemma fold_queueInLoop:
  fixes w :: "'u client" and tid :: nat and fs :: "'u Functor list"
  assumes "callingPendingFunctors w"
  defines "w' \<equiv> fold (queueInLoop tid) fs w"
  shows "pendingFunctors w' = pendingFunctors w @ fs" and "callingPendingFunctors w'" and "ran_users w' = ran_users w"
    and "(pendingFunctors w \<noteq> [] \<longrightarrow> 0 < wakeup_counter w) \<Longrightarrow> pendingFunctors w' \<noteq> [] \<Longrightarrow> 0 < wakeup_counter w'"
proof -
  have "pendingFunctors w' = pendingFunctors w @ fs \<and> callingPendingFunctors w' \<and> ran_users w' = ran_users w
    \<and> ((pendingFunctors w \<noteq> [] \<longrightarrow> 0 < wakeup_counter w) \<longrightarrow> pendingFunctors w' \<noteq> [] \<longrightarrow> 0 < wakeup_counter w')"
    using assms(1) unfolding w'_def
  proof (induction fs arbitrary: w)
    case (Cons f fs)
    have "callingPendingFunctors (queueInLoop tid f w)" "0 < wakeup_counter (queueInLoop tid f w)"
      "pendingFunctors (queueInLoop tid f w) = pendingFunctors w @ [f]" "ran_users (queueInLoop tid f w) = ran_users w"
      using Cons.prems by (simp_all add: queueInLoop_eq push_functor_def Let_def wakeup_def EVENTFD_MAX_def)
    with Cons.IH [OF this(1)] show ?case
      by simp
  qed simp
  then show "pendingFunctors w' = pendingFunctors w @ fs" "callingPendingFunctors w'" "ran_users w' = ran_users w"
    "(pendingFunctors w \<noteq> [] \<longrightarrow> 0 < wakeup_counter w) \<Longrightarrow> pendingFunctors w' \<noteq> [] \<Longrightarrow> 0 < wakeup_counter w'"
    by blast+
qed

lemma run_pending_client:
  assumes "callingPendingFunctors w" and "pendingFunctors w \<noteq> [] \<longrightarrow> 0 < wakeup_counter w"
  shows "\<exists>w'. run_pending rnd (client_run prog) (map Fn_user us) w = Some w' \<and> ran_users w' = ran_users w @ us
    \<and> pendingFunctors w' = pendingFunctors w @ concat (map prog us)
    \<and> (pendingFunctors w' \<noteq> [] \<longrightarrow> 0 < wakeup_counter w')"
  using assms
proof (induction us arbitrary: w)
  case (Cons u us)
  let ?w1 = "fold (queueInLoop (threadId w)) (prog u) (w\<lparr>ran_users := ran_users w @ [u]\<rparr>)"
  have c: "callingPendingFunctors (w\<lparr>ran_users := ran_users w @ [u]\<rparr>)"
    using Cons.prems(1) by simp
  note q = fold_queueInLoop [OF c, of "threadId w" "prog u"]
  have "\<exists>w'. run_pending rnd (client_run prog) (map Fn_user us) ?w1 = Some w' \<and> ran_users w' = ran_users ?w1 @ us
    \<and> pendingFunctors w' = pendingFunctors ?w1 @ concat (map prog us)
    \<and> (pendingFunctors w' \<noteq> [] \<longrightarrow> 0 < wakeup_counter w')"
    by (rule Cons.IH) (use q Cons.prems(2) in auto)
  then show ?case
    using q(1,3) by (simp add: run_pending_def run_functor_client)
qed (simp add: run_pending_def)

subsection \<open>The steps make up \<open>doPendingFunctors\<close>\<close>

text \<open>The actions of the functors of such a client.\<close>

definition client_prog :: "('u \<Rightarrow> 'u Functor list) \<Rightarrow> 'u Functor \<Rightarrow> 'u loop_action list" where
  "client_prog cprog f = (case f of Fn_user u \<Rightarrow> map Queue (cprog u) | _ \<Rightarrow> [])"

lemma truncate_parts:
  fixes w :: "'u client"
  shows "event_loop.truncate (queueInLoop tid f w) = queueInLoop tid f (event_loop.truncate w)"
    "event_loop.truncate (set_calling b w) = set_calling b (event_loop.truncate w)"
    "event_loop.truncate (snd (swap_functors w)) = snd (swap_functors (event_loop.truncate w))"
    "event_loop.truncate (w\<lparr>ran_users := us\<rparr>) = event_loop.truncate w"
    "threadId (event_loop.truncate w) = threadId w" "pendingFunctors (event_loop.truncate w) = pendingFunctors w"
    "quit (event_loop.truncate w) = quit w"
  by (cases w; simp add: event_loop.truncate_def queueInLoop_eq push_functor_def wakeup_def isInLoopThread_def set_calling_def
      swap_functors_def Let_def)+

lemma functor_actions:
  fixes w :: "'u client"
  assumes "pc c = Running (map Queue gs) fs" and "lw c = event_loop.truncate w"
  shows "\<exists>c'. (loop_step prog)\<^sup>*\<^sup>* c c' \<and> pc c' = Running [] fs
    \<and> lw c' = event_loop.truncate (fold (queueInLoop (threadId w)) gs w) \<and> executed c' = executed c"
  using assms
proof (induction gs arbitrary: c w)
  case (Cons g gs)
  let ?c = "(own_action (Queue g) c)\<lparr>pc := Running (map Queue gs) fs\<rparr>" and ?w = "queueInLoop (threadId w) g w"
  have "loop_step prog c ?c"
    using Cons.prems(1) by (intro functor_act) simp
  moreover have "lw ?c = event_loop.truncate ?w"
    using Cons.prems(2) by (simp add: truncate_parts)
  moreover have "threadId ?w = threadId w"
    by (simp add: queueInLoop_eq push_functor_def Let_def)
  ultimately have "loop_step prog c ?c" "\<exists>c'. (loop_step prog)\<^sup>*\<^sup>* ?c c' \<and> pc c' = Running [] fs
      \<and> lw c' = event_loop.truncate (fold (queueInLoop (threadId w)) gs ?w) \<and> executed c' = executed ?c"
    using Cons.IH [of ?c ?w] by auto
  then obtain c' where "loop_step prog c ?c" "(loop_step prog)\<^sup>*\<^sup>* ?c c'" "pc c' = Running [] fs"
      "lw c' = event_loop.truncate (fold (queueInLoop (threadId w)) gs ?w)" "executed c' = executed ?c"
    by blast
  then show ?case
    by (auto intro: converse_rtranclp_into_rtranclp)
qed auto

lemma run_pending_steps:
  fixes w :: "'u client"
  assumes "pc c = Running [] (map Fn_user us)" and "lw c = event_loop.truncate w"
  shows "\<exists>w' c'. run_pending rnd (client_run cprog) (map Fn_user us) w = Some w' \<and> (loop_step (client_prog cprog))\<^sup>*\<^sup>* c c'
    \<and> pc c' = Running [] [] \<and> lw c' = event_loop.truncate w' \<and> executed c' = executed c @ map Fn_user us"
  using assms
proof (induction us arbitrary: c w)
  case (Cons u us)
  let ?c = "c\<lparr>pc := Running (map Queue (cprog u)) (map Fn_user us), executed := executed c @ [Fn_user u]\<rparr>"
  let ?wu = "w\<lparr>ran_users := ran_users w @ [u]\<rparr>"
  let ?w = "fold (queueInLoop (threadId w)) (cprog u) ?wu"
  have 1: "loop_step (client_prog cprog) c ?c"
    using start_functor [of c "Fn_user u" "map Fn_user us" "client_prog cprog"] Cons.prems(1) by (simp add: client_prog_def)
  obtain c1 where 2: "(loop_step (client_prog cprog))\<^sup>*\<^sup>* ?c c1" "pc c1 = Running [] (map Fn_user us)"
      "lw c1 = event_loop.truncate ?w" "executed c1 = executed c @ [Fn_user u]"
    using functor_actions [of ?c "cprog u" "map Fn_user us" ?wu "client_prog cprog"] Cons.prems(2) by (auto simp: truncate_parts)
  obtain w' c' where 3: "run_pending rnd (client_run cprog) (map Fn_user us) ?w = Some w'" "(loop_step (client_prog cprog))\<^sup>*\<^sup>* c1 c'"
      "pc c' = Running [] []" "lw c' = event_loop.truncate w'" "executed c' = executed c1 @ map Fn_user us"
    using Cons.IH [OF 2(2,3)] by blast
  have "(loop_step (client_prog cprog))\<^sup>*\<^sup>* c c'"
    using 1 2(1) 3(2) by (meson converse_rtranclp_into_rtranclp rtranclp_trans)
  moreover have "run_pending rnd (client_run cprog) (map Fn_user (u # us)) w = Some w'"
    using 3(1) by (simp add: run_pending_def run_functor_client)
  ultimately show ?case
    using 2(4) 3(3-5) by (intro exI [of _ w'] exI [of _ c']) simp
qed (auto simp: run_pending_def)

lemma doPendingFunctors_steps:
  fixes w :: "'u client"
  assumes "pc c = Handling []" and "lw c = event_loop.truncate w" and "pendingFunctors w = map Fn_user us"
  shows "\<exists>w' c'. doPendingFunctors rnd (client_run cprog) w = Some w' \<and> (loop_step (client_prog cprog))\<^sup>*\<^sup>* c c'
    \<and> lw c' = event_loop.truncate w' \<and> pc c' = (if quit w' then Stopped else At_poll)
    \<and> executed c' = executed c @ map Fn_user us \<and> ran_users w' = ran_users w @ us"
proof -
  let ?w1 = "set_calling True w" and ?w2 = "snd (swap_functors (set_calling True w))"
  let ?c1 = "c\<lparr>pc := Before_swap, lw := set_calling True (lw c)\<rparr>"
  let ?c2 = "?c1\<lparr>pc := Running [] (fst (swap_functors (lw ?c1))), lw := snd (swap_functors (lw ?c1))\<rparr>"
  have 1: "loop_step (client_prog cprog) c ?c1" "loop_step (client_prog cprog) ?c1 ?c2"
    using assms(1) by (intro handled swap; simp)+
  have us: "pendingFunctors (set_calling True w) = map Fn_user us"
    using assms(3) by (simp add: set_calling_def)
  then have "pc ?c2 = Running [] (map Fn_user us)" "lw ?c2 = event_loop.truncate ?w2"
    using assms(2) by (simp_all add: truncate_parts swap_functors_def set_calling_def event_loop.truncate_def)
  then obtain w3 c3 where 3: "run_pending rnd (client_run cprog) (map Fn_user us) ?w2 = Some w3"
      "(loop_step (client_prog cprog))\<^sup>*\<^sup>* ?c2 c3" "pc c3 = Running [] []" "lw c3 = event_loop.truncate w3"
      "executed c3 = executed ?c2 @ map Fn_user us"
    using run_pending_steps by blast
  let ?c4 = "c3\<lparr>pc := (if quit (lw c3) then Stopped else At_poll), lw := set_calling False (lw c3)\<rparr>"
  have "loop_step (client_prog cprog) c3 ?c4"
    using 3(3) by (rule functors_done)
  then have steps: "(loop_step (client_prog cprog))\<^sup>*\<^sup>* c ?c4"
    using 1 3(2) by (meson converse_rtranclp_into_rtranclp rtranclp.rtrancl_into_rtrancl)
  have ran: "ran_users w3 = ran_users w @ us"
    using run_pending_client [of ?w2 rnd cprog us] 3(1) by (auto simp: swap_functors_def set_calling_def)
  have run: "doPendingFunctors rnd (client_run cprog) w = Some (set_calling False w3)"
    using 3(1) us by (simp add: doPendingFunctors_def swap_functors_def)
  show ?thesis
  proof (intro exI conjI)
    show "doPendingFunctors rnd (client_run cprog) w = Some (set_calling False w3)" "(loop_step (client_prog cprog))\<^sup>*\<^sup>* c ?c4"
      by (rule run, rule steps)
    show "lw ?c4 = event_loop.truncate (set_calling False w3)"
      using 3(4) by (simp add: truncate_parts)
    show "pc ?c4 = (if quit (set_calling False w3) then Stopped else At_poll)"
      using 3(4) by (simp add: truncate_parts set_calling_def)
    show "executed ?c4 = executed c @ map Fn_user us" "ran_users (set_calling False w3) = ran_users w @ us"
      using 3(5) ran by (simp_all add: set_calling_def)
  qed
qed

subsection \<open>Properties\<close>

text \<open>
  C24: \<open>doPendingFunctors\<close> runs exactly the functors that were pending when it started, in the order in
  which they were queued. The functors these queue stay pending for the next iteration, in order, and
  if there are any, then the \<open>eventfd\<close> is readable, so that the next \<open>poll\<close> returns at once.
\<close>

theorem pending_functors_run:
  assumes "pendingFunctors w = map Fn_user us"
  shows "\<exists>w'. doPendingFunctors rnd (client_run prog) w = Some w' \<and> ran_users w' = ran_users w @ us
    \<and> pendingFunctors w' = concat (map prog us) \<and> \<not> callingPendingFunctors w'
    \<and> (pendingFunctors w' \<noteq> [] \<longrightarrow> 0 < wakeup_counter w')"
proof -
  let ?w1 = "w\<lparr>callingPendingFunctors := True, pendingFunctors := []\<rparr>"
  obtain w2 where "run_pending rnd (client_run prog) (map Fn_user us) ?w1 = Some w2" "ran_users w2 = ran_users ?w1 @ us"
    "pendingFunctors w2 = pendingFunctors ?w1 @ concat (map prog us)"
    "pendingFunctors w2 \<noteq> [] \<longrightarrow> 0 < wakeup_counter w2"
    using run_pending_client [of ?w1 rnd prog us] by auto
  then show ?thesis
    using assms by (simp add: doPendingFunctors_eq)
qed

definition sample_loop :: "nat event_loop" where
  "sample_loop = timer_queue.extend (reactor.extend (reactor_new 0)
     \<lparr>timerfd = 0, timerfdChannel = 0, timer_objs = Map.empty, timers = [], activeTimers = [],
      callingExpiredTimers = False, cancelingTimers = [], numCreated = 0, timerfd_calls = []\<rparr>)
     \<lparr>looping = False, quit = False, callingPendingFunctors = False, iteration = 0, threadId = 1,
      pollReturnTime = Timestamp_invalid, wakeupFd = 6, wakeupChannel = 10, pendingFunctors = [],
      wakeup_counter = 0, clock = (\<lambda>_. (Timestamp_of 2000000, Timestamp_of 2000000)), clock_reads = 0,
      loopInThisThread = None\<rparr>"

lemma pending_functors_run_witness:
  "\<exists>w'. doPendingFunctors (\<lambda>x. x) (client_run (\<lambda>u. if u = 1 then [Fn_user 2, Fn_user 3] else []))
     (event_loop.extend (sample_loop\<lparr>pendingFunctors := [Fn_user 0, Fn_user 1]\<rparr>) \<lparr>ran_users = []\<rparr>) = Some w'
     \<and> ran_users w' = [0, 1] \<and> pendingFunctors w' = [Fn_user 2, Fn_user 3] \<and> 0 < wakeup_counter w'"
proof -
  let ?w = "event_loop.extend (sample_loop\<lparr>pendingFunctors := [Fn_user 0, Fn_user 1]\<rparr>) \<lparr>ran_users = []\<rparr>"
  have "pendingFunctors ?w = map Fn_user [0, 1]" "ran_users ?w = []"
    by (simp_all add: event_loop.extend_def)
  from pending_functors_run [OF this(1), of "\<lambda>x. x" "\<lambda>u. if u = 1 then [Fn_user 2, Fn_user 3] else []"] this(2)
  show ?thesis by auto
qed

text \<open>
  C25: No wakeup is lost. The calls of \<open>queueInLoop\<close> and \<open>quit\<close> by other threads are interleaved with the loop
  thread in two steps each, which together are those two functions. However the loop thread and any number of other
  threads interleave, starting from an empty queue: when the loop thread is about to block in \<open>poll\<close> while functors
  are pending or \<open>quit\<close> has been called, the \<open>eventfd\<close> is readable, or another thread is between the two
  steps of such a call; and every thread that is makes the \<open>eventfd\<close> readable by its second step.
\<close>

theorem no_lost_wakeup:
  assumes "loop_start c0" and "(loop_step prog)\<^sup>*\<^sup>* c0 c" and "pc c = At_poll"
    and "pendingFunctors (lw c) \<noteq> [] \<or> quit (lw c)"
  shows "(0 < wakeup_counter (lw c) \<or> foreign c \<noteq> [])
    \<and> (\<forall>call \<in> set (foreign c). 0 < wakeup_counter (finish_call call (lw c)))
    \<and> finish_call (tid, Rest_queueInLoop) (push_functor f w) = queueInLoop tid f w
    \<and> finish_call (tid, Rest_quit) (set_quit w) = EventLoop_quit tid w"
proof (intro conjI ballI)
  have inv: "loop_inv c"
    by (rule threads.reachable_inv [OF assms(1,2)])
  then show "0 < wakeup_counter (lw c) \<or> foreign c \<noteq> []"
    using assms(3,4) by (auto simp: loop_inv_def woken_def)
  show "0 < wakeup_counter (finish_call call (lw c))" if "call \<in> set (foreign c)" for call
    using inv that by (simp add: loop_inv_def foreign_fields)
qed (simp_all add: queueInLoop_def EventLoop_quit_def)

definition sample_conf :: "nat loop_conf" where
  "sample_conf = \<lparr>pc = At_poll, lw = sample_loop, foreign = [], pushed = [], executed = [], mark = 0\<rparr>"

lemma sample_conf_start: "loop_start sample_conf"
  by (simp add: sample_conf_def loop_start_def sample_loop_def reactor.defs timer_queue.defs)

text \<open>The thread 2 has queued a functor and is about to wake the loop.\<close>

definition sample_queued :: "nat loop_conf" where
  "sample_queued = sample_conf\<lparr>lw := push_functor (Fn_user 5) (lw sample_conf), pushed := pushed sample_conf @ [Fn_user 5],
     foreign := (2, Rest_queueInLoop) # foreign sample_conf\<rparr>"

lemma sample_queued_reached: "(loop_step prog)\<^sup>*\<^sup>* sample_conf sample_queued"
  unfolding sample_queued_def
  by (intro r_into_rtranclp foreign_push) (simp add: sample_conf_def sample_loop_def reactor.defs timer_queue.defs)

lemma sample_queued_fields:
  "pc sample_queued = At_poll" "pendingFunctors (lw sample_queued) = [Fn_user 5]" "pushed sample_queued = [Fn_user 5]"
  "foreign sample_queued = [(2, Rest_queueInLoop)]"
  by (simp_all add: sample_queued_def sample_conf_def push_functor_def sample_loop_def reactor.defs timer_queue.defs)

lemma no_lost_wakeup_witness:
  "\<exists>c. (loop_step (\<lambda>_. []))\<^sup>*\<^sup>* sample_conf c \<and> pc c = At_poll \<and> pendingFunctors (lw c) = [Fn_user 5]
     \<and> 0 < wakeup_counter (finish_call (2, Rest_queueInLoop) (lw c))"
  using no_lost_wakeup [OF sample_conf_start sample_queued_reached [of "\<lambda>_. []"] sample_queued_fields(1)]
    sample_queued_reached [of "\<lambda>_. []"] sample_queued_fields by auto

text \<open>
  C26: Every functor is run at most once and in the order in which the functors were queued, by whatever
  threads: those started so far, those of the batch in progress and those pending are together exactly
  those queued. When the loop thread is back at \<open>poll\<close>, it has run all functors that were queued before
  \<open>poll\<close> last returned. The steps are those of \<open>doPendingFunctors\<close>: a loop thread that is not interrupted between
  them ends in the state that \<open>doPendingFunctors\<close> returns, having run the pending functors in order.
\<close>

theorem functors_run_in_order:
  fixes w :: "'u client"
  assumes "loop_start c0" and "(loop_step (client_prog cprog))\<^sup>*\<^sup>* c0 c"
  shows "pushed c = executed c @ in_progress (pc c) @ pendingFunctors (lw c)
    \<and> (pc c = At_poll \<longrightarrow> take (mark c) (pushed c) = take (mark c) (executed c) \<and> mark c \<le> length (executed c))
    \<and> (pc c = Handling [] \<and> lw c = event_loop.truncate w \<and> pendingFunctors w = map Fn_user us \<longrightarrow>
         (\<exists>w' c'. doPendingFunctors rnd (client_run cprog) w = Some w' \<and> (loop_step (client_prog cprog))\<^sup>*\<^sup>* c c'
            \<and> lw c' = event_loop.truncate w' \<and> pc c' = (if quit w' then Stopped else At_poll)
            \<and> executed c' = executed c @ map Fn_user us \<and> ran_users w' = ran_users w @ us))"
  using threads.reachable_inv [OF assms] doPendingFunctors_steps [of c w us rnd cprog] by (auto simp: loop_inv_def)

text \<open>The loop thread returned from \<open>poll\<close> with nothing to handle while the functor of the sample is pending.\<close>

lemma functors_run_in_order_witness:
  "\<exists>c w' c'. (loop_step (client_prog (\<lambda>_. [])))\<^sup>*\<^sup>* sample_conf c \<and> pushed c = [Fn_user 5]
     \<and> doPendingFunctors (\<lambda>x. x) (client_run (\<lambda>_. [])) (event_loop.extend (lw c) \<lparr>ran_users = []\<rparr>) = Some w'
     \<and> (loop_step (client_prog (\<lambda>_. [])))\<^sup>*\<^sup>* c c' \<and> executed c' = [Fn_user 5]"
proof -
  let ?c = "sample_queued\<lparr>pc := Handling [], mark := length (pushed sample_queued)\<rparr>"
  let ?w = "event_loop.extend (lw ?c) \<lparr>ran_users = []\<rparr>"
  have "wakeup_counter (lw sample_queued) = 0"
    by (simp add: sample_queued_def sample_conf_def push_functor_def sample_loop_def reactor.defs timer_queue.defs)
  then have "loop_step (client_prog (\<lambda>_. [])) sample_queued ?c"
    by (intro poll_returns) (simp_all add: sample_queued_fields)
  then have steps: "(loop_step (client_prog (\<lambda>_. [])))\<^sup>*\<^sup>* sample_conf ?c"
    using sample_queued_reached by (meson rtranclp.rtrancl_into_rtrancl)
  have w: "lw ?c = event_loop.truncate ?w" "pendingFunctors ?w = map Fn_user [5]" "executed ?c = []"
    using sample_queued_fields(2)
    by (simp_all add: event_loop.truncate_def event_loop.extend_def sample_queued_def sample_conf_def)
  obtain w' c' where "doPendingFunctors (\<lambda>x. x) (client_run (\<lambda>_. [])) ?w = Some w'"
      "(loop_step (client_prog (\<lambda>_. [])))\<^sup>*\<^sup>* ?c c'" "executed c' = executed ?c @ map Fn_user [5]"
    using functors_run_in_order [OF sample_conf_start steps, of ?w "[5]" "\<lambda>x. x"] w by auto
  then show ?thesis
    using steps w(3) sample_queued_fields(3) by (intro exI [of _ ?c] exI [of _ w'] exI [of _ c']) simp
qed

text \<open>The loop thread runs its pending functors and handles an event of the timer.\<close>

definition loop_turn :: "(rat \<Rightarrow> rat) \<Rightarrow> Timestamp \<Rightarrow> ('u, 'z) event_loop_scheme \<Rightarrow> ('u, 'z) event_loop_scheme option" where
  "loop_turn rnd now w = do {
     w1 \<leftarrow> doPendingFunctors rnd (\<lambda>u t. Some) w;
     run_functor rnd (\<lambda>u t. Some) Fn_timerHandleRead now w1
   }"

text \<open>
  C27: \<open>addTimer\<close> called from another thread may read a deleted timer. The caller hands the timer over
  to the loop by \<open>queueInLoop\<close> and reads its sequence number afterwards. It gets the number when it is not
  interrupted. But when the loop thread meanwhile runs its pending functors and handles the timer event, and the
  time of the timer is over, then the loop runs the timer and deletes it, and \<open>addTimer\<close> reads an object that does not
  exist any more.
\<close>

theorem addTimer_reads_deleted_timer:
  assumes "timer_objs w = Map.empty" "timers w = []" "activeTimers w = []" "pendingFunctors w = []"
    and "tid \<noteq> threadId w" and "Timer_new a (Fn_user u) when 0 w = Some w1"
    and "\<And>i. clock w i = (now, now)" and "Timestamp_valid now" and "when \<le> now"
    and "howMuchTimeFromNow now when \<noteq> None"
  shows "\<exists>timerId w2 w4. addTimer rnd (\<lambda>u t. Some) tid a (Fn_user u) when 0 w = Some (timerId, w2)
    \<and> loop_turn rnd now w2 = Some w4 \<and> timer_objs w4 a = None
    \<and> addTimer_with (loop_turn rnd now) rnd (\<lambda>u t. Some) tid a (Fn_user u) when 0 w = None"
proof -
  obtain n s where a: "a < UINTPTR_MAX"
    and w1: "w1 = w\<lparr>numCreated := n, timer_objs := [a \<mapsto> Timer_init (Fn_user u) when 0 s]\<rparr>"
    using assms(1,6) by (auto simp: Timer_new_def bind_eq_Some_conv split: if_splits)
  let ?tm = "Timer_init (Fn_user u) when 0 s"
  obtain sec nsec where ts: "howMuchTimeFromNow now when = Some (sec, nsec)"
    using assms(10) by auto
  define w2 where "w2 = wakeup (push_functor (Fn_addTimerInLoop a) w1)"
  have f2: "timer_objs w2 = [a \<mapsto> ?tm]" "timers w2 = []" "activeTimers w2 = []"
    "pendingFunctors w2 = [Fn_addTimerInLoop a]" "clock w2 = (\<lambda>_. (now, now))"
    using assms(1-4,7) by (auto simp: w2_def w1 push_functor_def wakeup_def)
  have run2: "runInLoop rnd (\<lambda>u t. Some) tid (Fn_addTimerInLoop a) w1 = Some w2"
    using assms(5) by (simp add: runInLoop_def isInLoopThread_def w1 queueInLoop_eq push_functor_def w2_def Let_def)
  define w3 where "w3 = w2\<lparr>timers := [(when, a)], activeTimers := [(a, s)], pendingFunctors := [],
    callingPendingFunctors := False, clock_reads := Suc (clock_reads w2),
    timerfd_calls := timerfd_calls w2 @ [Settime now sec nsec]\<rparr>"
  have run3: "doPendingFunctors rnd (\<lambda>u t. Some) w2 = Some w3"
    by (simp add: doPendingFunctors_eq run_pending_def run_functor_def f2 read_clock_def addTimerInLoop_def
        TimerQueue_insert_def set_insert_def Timer_init_def resetTimerfd_def ts w3_def Let_def)
  have "(when, a) < (now, UINTPTR_MAX)"
    using assms(9) a by (simp add: less_prod_def le_less)
  then have run4: "\<exists>w4. run_functor rnd (\<lambda>u t. Some) Fn_timerHandleRead now w3 = Some w4 \<and> timer_objs w4 a = None"
    by (simp add: run_functor_def read_clock_def w3_def f2 TimerQueue_handleRead_def getExpired_def readTimerfd_def
        set_lower_bound_def set_before_def set_erase_def Timer_init_def run_user_def TimerQueue_reset_def
        Timer_delete_def Timestamp_valid_def Timestamp_invalid_def Let_def)
  then obtain w4 where w4: "loop_turn rnd now w2 = Some w4" "timer_objs w4 a = None"
    using run3 by (auto simp: loop_turn_def)
  have "addTimer rnd (\<lambda>u t. Some) tid a (Fn_user u) when 0 w = Some (\<lparr>id_timer = a, id_sequence = tm_sequence ?tm\<rparr>, w2)"
    using assms(6) run2 f2(1) by (simp add: addTimer_eq)
  moreover have "addTimer_with (loop_turn rnd now) rnd (\<lambda>u t. Some) tid a (Fn_user u) when 0 w = None"
    using assms(6) run2 w4 by (simp add: addTimer_with_def)
  ultimately show ?thesis
    using w4 by blast
qed

lemma addTimer_reads_deleted_timer_witness:
  "(\<exists>r. addTimer (\<lambda>x. x) (\<lambda>u t. Some) 2 100 (Fn_user 5) (Timestamp_of 1000000) 0 sample_loop = Some r)
    \<and> addTimer_with (loop_turn (\<lambda>x. x) (Timestamp_of 2000000)) (\<lambda>x. x) (\<lambda>u t. Some) 2 100 (Fn_user 5) (Timestamp_of 1000000) 0
        sample_loop = None"
proof -
  have s: "timer_objs sample_loop = Map.empty" "timers sample_loop = []" "activeTimers sample_loop = []"
    "pendingFunctors sample_loop = []" "2 \<noteq> threadId sample_loop" "numCreated sample_loop = 0"
    "\<And>i. clock sample_loop i = (Timestamp_of 2000000, Timestamp_of 2000000)"
    by (simp_all add: sample_loop_def reactor.defs timer_queue.defs)
  have t: "Timestamp_valid (Timestamp_of 2000000)" "Timestamp_of 1000000 \<le> Timestamp_of 2000000"
    "howMuchTimeFromNow (Timestamp_of 2000000) (Timestamp_of 1000000) \<noteq> None"
    by (simp_all add: Timestamp_valid_def Timestamp_of_def Timestamp_le_iff howMuchTimeFromNow_def ck64_I Let_def)
  obtain w1 where w1: "Timer_new 100 (Fn_user 5) (Timestamp_of 1000000) 0 sample_loop = Some w1"
    by (simp add: Timer_new_def s UINTPTR_MAX_def incrementAndGet_def addAndGet_def getAndAdd_def)
  from addTimer_reads_deleted_timer [OF s(1-5) w1 s(7) t, of "\<lambda>x. x"] w1 show ?thesis
    by blast
qed

end
