(* ===== verification/TcpConnection.thy ===== *)
theory TcpConnection
  imports EventLoopProps BufferWire
begin

section \<open>TCP connections: \<open>net/tcp_connection.*\<close>, \<open>base/weak_callback.h\<close>\<close>

text \<open>
  One connection together with the loop it belongs to: its members extend the state of the event loop,
  and its output goes to the buffer of the theory \<open>Buffer\<close>. The socket is the side of the kernel: what it
  has taken so far, and the results of the calls of \<open>write\<close> and \<open>readv\<close>, which are inputs of the model.
  The callbacks of the client are run by an argument. \<open>setTcpNoDelay\<close>, \<open>setKeepAlive\<close> and the functions that
  print the kernel's information on the connection only make a system call; they are left out.
\<close>

subsection \<open>State\<close>

datatype StateE = kDisconnected | kConnecting | kConnected | kDisconnecting

text \<open>
  The functors bound to the connection: its four event handlers, the members that run in the loop, the
  weak callback of \<open>forceCloseWithDelay\<close>, and the queued callbacks of the client.
\<close>

datatype 'c conn_fn =
    Cn_handleRead
  | Cn_handleWrite
  | Cn_handleClose
  | Cn_handleError
  | Cn_sendInLoop "byte list"
  | Cn_shutdownInLoop
  | Cn_forceCloseInLoop
  | Cn_weakForceClose
  | Cn_startReadInLoop
  | Cn_stopReadInLoop
  | Cn_connectEstablished
  | Cn_connectDestroyed
  | Cn_writeComplete 'c
  | Cn_highWaterMark 'c nat

text \<open>The calls of the callbacks of the client, which an argument of the model runs.\<close>

datatype 'c conn_call =
    Call_connection 'c
  | Call_message 'c Timestamp
  | Call_writeComplete 'c
  | Call_highWaterMark 'c nat
  | Call_close 'c

text \<open>
  \<open>cn_obj\<close> identifies the object for the \<open>shared_ptr\<close>s that own it. The kernel's side of the socket:
  \<open>cn_wire\<close> holds the bytes it has taken from \<open>write\<close>, \<open>cn_shut\<close> says that the writing end was shut down,
  and the results of the calls of \<open>write\<close> and \<open>readv\<close> to come are given by \<open>cn_writes\<close> and \<open>cn_reads\<close>.
\<close>

record 'c tcp_connection = "'c conn_fn event_loop" +
  cn_obj :: nat
  cn_name :: string
  cn_state :: StateE
  cn_reading :: bool
  cn_fd :: int
  cn_channel :: addr
  cn_connectionCallback :: "'c option"
  cn_messageCallback :: "'c option"
  cn_writeCompleteCallback :: "'c option"
  cn_highWaterMarkCallback :: "'c option"
  cn_closeCallback :: "'c option"
  cn_highWaterMark :: nat
  cn_inputBuffer :: buffer
  cn_outputBuffer :: buffer
  cn_wire :: "byte list"
  cn_shut :: bool
  cn_writes :: "nat \<Rightarrow> int + nat"
  cn_write_count :: nat
  cn_reads :: "nat \<Rightarrow> nat list \<Rightarrow> io_result"
  cn_read_count :: nat

type_synonym ('c, 'z) conn_user =
  "'c conn_call \<Rightarrow> ('c, 'z) tcp_connection_scheme \<Rightarrow> ('c, 'z) tcp_connection_scheme option"

definition EWOULDBLOCK :: int where "EWOULDBLOCK = 11"
definition EPIPE :: int where "EPIPE = 32"
definition ECONNRESET :: int where "ECONNRESET = 104"

text \<open>
  \<open>write(2)\<close> takes a prefix of the data or fails; after \<open>shutdown(fd, SHUT_WR)\<close> it fails with \<open>EPIPE\<close>.
\<close>

definition kernel_write ::
    "byte list \<Rightarrow> ('c, 'z) tcp_connection_scheme \<Rightarrow> (int + nat) \<times> ('c, 'z) tcp_connection_scheme" where
  "kernel_write data w =
     (let w1 = w\<lparr>cn_write_count := Suc (cn_write_count w)\<rparr>
      in if cn_shut w then (Inl EPIPE, w1)
         else case cn_writes w (cn_write_count w) of
           Inl e \<Rightarrow> (Inl e, w1)
         | Inr n \<Rightarrow> (let k = min n (length data) in (Inr k, w1\<lparr>cn_wire := cn_wire w1 @ take k data\<rparr>)))"

text \<open>\<open>shared_from_this()\<close> throws when no \<open>shared_ptr\<close> owns the object.\<close>

definition shared_from_this :: "('c, 'z) tcp_connection_scheme \<Rightarrow> unit option" where
  "shared_from_this w = assert_that (rx_alive w (cn_obj w))"

definition queue_self ::
    "'c conn_fn \<Rightarrow> ('c, 'z) tcp_connection_scheme \<Rightarrow> ('c, 'z) tcp_connection_scheme" where
  "queue_self fn w = queueInLoop (threadId w) (Fn_user fn) w"

subsection \<open>Construction and destruction\<close>

definition TcpConnection_new ::
    "nat \<Rightarrow> string \<Rightarrow> int \<Rightarrow> addr \<Rightarrow> ('c, 'z) tcp_connection_scheme \<Rightarrow> ('c, 'z) tcp_connection_scheme option" where
  "TcpConnection_new obj name fd ch w = do {
     inp \<leftarrow> Buffer_new kInitialSize;
     outp \<leftarrow> Buffer_new kInitialSize;
     let w0 = w\<lparr>cn_obj := obj, cn_name := name, cn_state := kConnecting, cn_reading := True, cn_fd := fd,
                cn_channel := ch, cn_connectionCallback := None, cn_messageCallback := None,
                cn_writeCompleteCallback := None, cn_highWaterMarkCallback := None, cn_closeCallback := None,
                cn_highWaterMark := 64 * 1024 * 1024, cn_inputBuffer := inp, cn_outputBuffer := outp\<rparr>;
     w1 \<leftarrow> Channel_new ch fd w0;
     w2 \<leftarrow> setReadCallback (Fn_user Cn_handleRead) ch w1;
     w3 \<leftarrow> setWriteCallback (Fn_user Cn_handleWrite) ch w2;
     w4 \<leftarrow> setCloseCallback (Fn_user Cn_handleClose) ch w3;
     setErrorCallback (Fn_user Cn_handleError) ch w4
   }"

text \<open>The destructor; the channel is destroyed with its \<open>unique_ptr\<close>.\<close>

definition TcpConnection_destroy ::
    "('c, 'z) tcp_connection_scheme \<Rightarrow> ('c, 'z) tcp_connection_scheme option" where
  "TcpConnection_destroy w = do {
     assert_that (cn_state w = kDisconnected);
     Channel_destroy (cn_channel w) w
   }"

definition TcpConnection_setConnectionCallback ::
    "'c \<Rightarrow> ('c, 'z) tcp_connection_scheme \<Rightarrow> ('c, 'z) tcp_connection_scheme" where
  "TcpConnection_setConnectionCallback cb w = w\<lparr>cn_connectionCallback := Some cb\<rparr>"

definition TcpConnection_setMessageCallback ::
    "'c \<Rightarrow> ('c, 'z) tcp_connection_scheme \<Rightarrow> ('c, 'z) tcp_connection_scheme" where
  "TcpConnection_setMessageCallback cb w = w\<lparr>cn_messageCallback := Some cb\<rparr>"

definition TcpConnection_setWriteCompleteCallback ::
    "'c \<Rightarrow> ('c, 'z) tcp_connection_scheme \<Rightarrow> ('c, 'z) tcp_connection_scheme" where
  "TcpConnection_setWriteCompleteCallback cb w = w\<lparr>cn_writeCompleteCallback := Some cb\<rparr>"

definition TcpConnection_setCloseCallback ::
    "'c \<Rightarrow> ('c, 'z) tcp_connection_scheme \<Rightarrow> ('c, 'z) tcp_connection_scheme" where
  "TcpConnection_setCloseCallback cb w = w\<lparr>cn_closeCallback := Some cb\<rparr>"

definition setHighWaterMarkCallback ::
    "'c \<Rightarrow> nat \<Rightarrow> ('c, 'z) tcp_connection_scheme \<Rightarrow> ('c, 'z) tcp_connection_scheme" where
  "setHighWaterMarkCallback cb highWaterMark w =
     w\<lparr>cn_highWaterMarkCallback := Some cb, cn_highWaterMark := highWaterMark\<rparr>"

subsection \<open>Sending\<close>

text \<open>
  The attempt to write directly: how many bytes were written, how many remain, and whether the
  connection is broken.
\<close>

definition write_direct ::
    "byte list \<Rightarrow> ('c, 'z) tcp_connection_scheme
      \<Rightarrow> (nat \<times> nat \<times> bool \<times> ('c, 'z) tcp_connection_scheme) option" where
  "write_direct data w = (case kernel_write data w of
       (Inr nwrote, w1) \<Rightarrow> (let remaining = length data - nwrote in
         case cn_writeCompleteCallback w1 of
           Some cb \<Rightarrow> if remaining = 0
             then do { shared_from_this w1; Some (nwrote, remaining, False, queue_self (Cn_writeComplete cb) w1) }
             else Some (nwrote, remaining, False, w1)
         | None \<Rightarrow> Some (nwrote, remaining, False, w1))
     | (Inl errno, w1) \<Rightarrow>
         Some (0, length data, errno \<noteq> EWOULDBLOCK \<and> (errno = EPIPE \<or> errno = ECONNRESET), w1))"

text \<open>The rest of the data goes to the output buffer.\<close>

definition append_output ::
    "nat \<Rightarrow> nat \<Rightarrow> byte list \<Rightarrow> ('c, 'z) tcp_connection_scheme \<Rightarrow> ('c, 'z) tcp_connection_scheme option" where
  "append_output nwrote remaining data w = do {
     let oldLen = readableBytes (cn_outputBuffer w);
     w1 \<leftarrow> (case cn_highWaterMarkCallback w of
         Some cb \<Rightarrow>
           if size_add oldLen remaining \<ge> cn_highWaterMark w \<and> oldLen < cn_highWaterMark w
           then do { shared_from_this w; Some (queue_self (Cn_highWaterMark cb (size_add oldLen remaining)) w) }
           else Some w
       | None \<Rightarrow> Some w);
     outp \<leftarrow> append_raw (cn_outputBuffer w1) (drop nwrote data) remaining;
     let w2 = w1\<lparr>cn_outputBuffer := outp\<rparr>;
     ch \<leftarrow> rx_chans w2 (cn_channel w2);
     if \<not> isWriting ch then enableWriting (cn_channel w2) w2 else Some w2
   }"

definition sendInLoop ::
    "byte list \<Rightarrow> ('c, 'z) tcp_connection_scheme \<Rightarrow> ('c, 'z) tcp_connection_scheme option" where
  "sendInLoop data w =
     (if cn_state w = kDisconnected then Some w
      else do {
        ch \<leftarrow> rx_chans w (cn_channel w);
        (nwrote, remaining, faultError, w1) \<leftarrow>
          (if \<not> isWriting ch \<and> readableBytes (cn_outputBuffer w) = 0 then write_direct data w
           else Some (0, length data, False, w));
        assert_that (remaining \<le> length data);
        if \<not> faultError \<and> remaining > 0 then append_output nwrote remaining data w1 else Some w1 })"

text \<open>
  \<open>loop_->runInLoop\<close> of a member bound to the connection: \<open>f\<close> is the member, \<open>fn\<close> its functor.
\<close>

definition conn_runInLoop ::
    "nat \<Rightarrow> 'c conn_fn \<Rightarrow> (('c, 'z) tcp_connection_scheme \<Rightarrow> ('c, 'z) tcp_connection_scheme option)
      \<Rightarrow> ('c, 'z) tcp_connection_scheme \<Rightarrow> ('c, 'z) tcp_connection_scheme option" where
  "conn_runInLoop tid fn f w =
     (if isInLoopThread tid w then f w else Some (queueInLoop tid (Fn_user fn) w))"

definition TcpConnection_send ::
    "nat \<Rightarrow> byte list \<Rightarrow> ('c, 'z) tcp_connection_scheme \<Rightarrow> ('c, 'z) tcp_connection_scheme option" where
  "TcpConnection_send tid message w =
     (if cn_state w = kConnected then conn_runInLoop tid (Cn_sendInLoop message) (sendInLoop message) w
      else Some w)"

text \<open>\<open>send(Buffer*)\<close> returns the emptied buffer as well.\<close>

definition TcpConnection_send_buffer ::
    "nat \<Rightarrow> buffer \<Rightarrow> ('c, 'z) tcp_connection_scheme \<Rightarrow> (buffer \<times> ('c, 'z) tcp_connection_scheme) option" where
  "TcpConnection_send_buffer tid buf w =
     (if cn_state w = kConnected
      then if isInLoopThread tid w
        then do {
          data \<leftarrow> peek_bytes buf (readableBytes buf);
          w1 \<leftarrow> sendInLoop data w;
          Some (retrieveAll buf, w1) }
        else do {
          (data, buf1) \<leftarrow> retrieveAllAsString buf;
          Some (buf1, queueInLoop tid (Fn_user (Cn_sendInLoop data)) w) }
      else Some (buf, w))"

subsection \<open>Closing\<close>

definition shutdownInLoop :: "('c, 'z) tcp_connection_scheme \<Rightarrow> ('c, 'z) tcp_connection_scheme option" where
  "shutdownInLoop w = do {
     ch \<leftarrow> rx_chans w (cn_channel w);
     Some (if \<not> isWriting ch then w\<lparr>cn_shut := True\<rparr> else w)
   }"

definition shutdown :: "nat \<Rightarrow> ('c, 'z) tcp_connection_scheme \<Rightarrow> ('c, 'z) tcp_connection_scheme option" where
  "shutdown tid w =
     (if cn_state w = kConnected
      then conn_runInLoop tid Cn_shutdownInLoop shutdownInLoop (w\<lparr>cn_state := kDisconnecting\<rparr>)
      else Some w)"

definition run_callback ::
    "('c, 'z) conn_user \<Rightarrow> ('c \<Rightarrow> 'c conn_call) \<Rightarrow> 'c option
      \<Rightarrow> ('c, 'z) tcp_connection_scheme \<Rightarrow> ('c, 'z) tcp_connection_scheme option" where
  "run_callback user call cb w = do { k \<leftarrow> cb; shared_from_this w; user (call k) w }"

definition handleClose ::
    "('c, 'z) conn_user \<Rightarrow> ('c, 'z) tcp_connection_scheme \<Rightarrow> ('c, 'z) tcp_connection_scheme option" where
  "handleClose user w = do {
     assert_that (cn_state w = kConnected \<or> cn_state w = kDisconnecting);
     w1 \<leftarrow> disableAll (cn_channel w) (w\<lparr>cn_state := kDisconnected\<rparr>);
     w2 \<leftarrow> run_callback user Call_connection (cn_connectionCallback w1) w1;
     run_callback user Call_close (cn_closeCallback w2) w2
   }"

definition forceCloseInLoop ::
    "('c, 'z) conn_user \<Rightarrow> ('c, 'z) tcp_connection_scheme \<Rightarrow> ('c, 'z) tcp_connection_scheme option" where
  "forceCloseInLoop user w =
     (if cn_state w = kConnected \<or> cn_state w = kDisconnecting then handleClose user w else Some w)"

definition forceClose :: "nat \<Rightarrow> ('c, 'z) tcp_connection_scheme \<Rightarrow> ('c, 'z) tcp_connection_scheme option" where
  "forceClose tid w =
     (if cn_state w = kConnected \<or> cn_state w = kDisconnecting
      then do {
        shared_from_this w;
        Some (queueInLoop tid (Fn_user Cn_forceCloseInLoop) (w\<lparr>cn_state := kDisconnecting\<rparr>)) }
      else Some w)"

text \<open>The call operator of \<open>WeakCallback\<close> made by \<open>makeWeakCallback\<close>: runs the member if the object lives.\<close>

definition WeakCallback_call ::
    "(('c, 'z) tcp_connection_scheme \<Rightarrow> ('c, 'z) tcp_connection_scheme option)
      \<Rightarrow> ('c, 'z) tcp_connection_scheme \<Rightarrow> ('c, 'z) tcp_connection_scheme option" where
  "WeakCallback_call function w = (if rx_alive w (cn_obj w) then function w else Some w)"

subsection \<open>Reading and writing\<close>

definition startReadInLoop :: "('c, 'z) tcp_connection_scheme \<Rightarrow> ('c, 'z) tcp_connection_scheme option" where
  "startReadInLoop w = do {
     ch \<leftarrow> rx_chans w (cn_channel w);
     if \<not> cn_reading w \<or> \<not> isReading ch
     then do { w1 \<leftarrow> enableReading (cn_channel w) w; Some (w1\<lparr>cn_reading := True\<rparr>) }
     else Some w
   }"

definition startRead :: "nat \<Rightarrow> ('c, 'z) tcp_connection_scheme \<Rightarrow> ('c, 'z) tcp_connection_scheme option" where
  "startRead tid = conn_runInLoop tid Cn_startReadInLoop startReadInLoop"

definition stopReadInLoop :: "('c, 'z) tcp_connection_scheme \<Rightarrow> ('c, 'z) tcp_connection_scheme option" where
  "stopReadInLoop w = do {
     ch \<leftarrow> rx_chans w (cn_channel w);
     if cn_reading w \<or> isReading ch
     then do { w1 \<leftarrow> disableReading (cn_channel w) w; Some (w1\<lparr>cn_reading := False\<rparr>) }
     else Some w
   }"

definition stopRead :: "nat \<Rightarrow> ('c, 'z) tcp_connection_scheme \<Rightarrow> ('c, 'z) tcp_connection_scheme option" where
  "stopRead tid = conn_runInLoop tid Cn_stopReadInLoop stopReadInLoop"

definition connectEstablished ::
    "('c, 'z) conn_user \<Rightarrow> ('c, 'z) tcp_connection_scheme \<Rightarrow> ('c, 'z) tcp_connection_scheme option" where
  "connectEstablished user w = do {
     assert_that (cn_state w = kConnecting);
     shared_from_this w;
     w1 \<leftarrow> tie (cn_obj w) (cn_channel w) (w\<lparr>cn_state := kConnected\<rparr>);
     w2 \<leftarrow> enableReading (cn_channel w1) w1;
     run_callback user Call_connection (cn_connectionCallback w2) w2
   }"

definition connectDestroyed ::
    "('c, 'z) conn_user \<Rightarrow> ('c, 'z) tcp_connection_scheme \<Rightarrow> ('c, 'z) tcp_connection_scheme option" where
  "connectDestroyed user w = do {
     w1 \<leftarrow> (if cn_state w = kConnected
            then do {
              w1 \<leftarrow> disableAll (cn_channel w) (w\<lparr>cn_state := kDisconnected\<rparr>);
              run_callback user Call_connection (cn_connectionCallback w1) w1 }
            else Some w);
     Channel_remove (cn_channel w1) w1
   }"

text \<open>\<open>handleError\<close> only asks for the error of the socket; the log statement is commented out.\<close>

definition handleError :: "('c, 'z) tcp_connection_scheme \<Rightarrow> ('c, 'z) tcp_connection_scheme option" where
  "handleError w = Some w"

definition TcpConnection_handleRead ::
    "('c, 'z) conn_user \<Rightarrow> Timestamp \<Rightarrow> ('c, 'z) tcp_connection_scheme \<Rightarrow> ('c, 'z) tcp_connection_scheme option" where
  "TcpConnection_handleRead user receiveTime w = do {
     (n, savedErrno, inp) \<leftarrow> readFd (cn_reads w (cn_read_count w)) (cn_inputBuffer w);
     let w1 = w\<lparr>cn_inputBuffer := inp, cn_read_count := Suc (cn_read_count w)\<rparr>;
     if n > 0 then run_callback user (\<lambda>k. Call_message k receiveTime) (cn_messageCallback w1) w1
     else if n = 0 then handleClose user w1
     else handleError w1
   }"

definition handleWrite :: "('c, 'z) tcp_connection_scheme \<Rightarrow> ('c, 'z) tcp_connection_scheme option" where
  "handleWrite w = do {
     ch \<leftarrow> rx_chans w (cn_channel w);
     if isWriting ch
     then do {
       data \<leftarrow> peek_bytes (cn_outputBuffer w) (readableBytes (cn_outputBuffer w));
       case kernel_write data w of
         (Inr n, w1) \<Rightarrow>
           if n > 0
           then do {
             outp \<leftarrow> retrieve (cn_outputBuffer w1) n;
             let w2 = w1\<lparr>cn_outputBuffer := outp\<rparr>;
             if readableBytes (cn_outputBuffer w2) = 0
             then do {
               w3 \<leftarrow> disableWriting (cn_channel w2) w2;
               w4 \<leftarrow> (case cn_writeCompleteCallback w3 of
                   Some cb \<Rightarrow> do { shared_from_this w3; Some (queue_self (Cn_writeComplete cb) w3) }
                 | None \<Rightarrow> Some w3);
               if cn_state w4 = kDisconnecting then shutdownInLoop w4 else Some w4 }
             else Some w2 }
           else Some w1
       | (Inl errno, w1) \<Rightarrow> Some w1 }
     else Some w
   }"

subsection \<open>The functors of the connection\<close>

definition conn_run ::
    "('c, 'z) conn_user \<Rightarrow> 'c conn_fn \<Rightarrow> Timestamp
      \<Rightarrow> ('c, 'z) tcp_connection_scheme \<Rightarrow> ('c, 'z) tcp_connection_scheme option" where
  "conn_run user fn t w = (case fn of
       Cn_handleRead \<Rightarrow> TcpConnection_handleRead user t w
     | Cn_handleWrite \<Rightarrow> handleWrite w
     | Cn_handleClose \<Rightarrow> handleClose user w
     | Cn_handleError \<Rightarrow> handleError w
     | Cn_sendInLoop message \<Rightarrow> sendInLoop message w
     | Cn_shutdownInLoop \<Rightarrow> shutdownInLoop w
     | Cn_forceCloseInLoop \<Rightarrow> forceCloseInLoop user w
     | Cn_weakForceClose \<Rightarrow> WeakCallback_call (forceClose (threadId w)) w
     | Cn_startReadInLoop \<Rightarrow> startReadInLoop w
     | Cn_stopReadInLoop \<Rightarrow> stopReadInLoop w
     | Cn_connectEstablished \<Rightarrow> connectEstablished user w
     | Cn_connectDestroyed \<Rightarrow> connectDestroyed user w
     | Cn_writeComplete cb \<Rightarrow> user (Call_writeComplete cb) w
     | Cn_highWaterMark cb n \<Rightarrow> user (Call_highWaterMark cb n) w)"

definition forceCloseWithDelay ::
    "(rat \<Rightarrow> rat) \<Rightarrow> ('c, 'z) conn_user \<Rightarrow> nat \<Rightarrow> addr \<Rightarrow> rat
      \<Rightarrow> ('c, 'z) tcp_connection_scheme \<Rightarrow> ('c, 'z) tcp_connection_scheme option" where
  "forceCloseWithDelay rnd user tid a seconds w =
     (if cn_state w = kConnected \<or> cn_state w = kDisconnecting
      then do {
        shared_from_this w;
        (_, w1) \<leftarrow> runAfter rnd (conn_run user) tid a seconds (Fn_user Cn_weakForceClose)
          (w\<lparr>cn_state := kDisconnecting\<rparr>);
        Some w1 }
      else Some w)"

definition stateToString :: "StateE \<Rightarrow> string" where
  "stateToString s = (case s of kDisconnected \<Rightarrow> ''kDisconnected'' | kConnecting \<Rightarrow> ''kConnecting''
     | kConnected \<Rightarrow> ''kConnected'' | kDisconnecting \<Rightarrow> ''kDisconnecting'')"

text \<open>The default callbacks.\<close>

definition defaultMessageCallback ::
    "('c, 'z) tcp_connection_scheme \<Rightarrow> ('c, 'z) tcp_connection_scheme option" where
  "defaultMessageCallback w = Some (w\<lparr>cn_inputBuffer := retrieveAll (cn_inputBuffer w)\<rparr>)"

definition defaultConnectionCallback ::
    "('c, 'z) tcp_connection_scheme \<Rightarrow> ('c, 'z) tcp_connection_scheme option" where
  "defaultConnectionCallback w = Some w"

end
