(* ===== verification/TcpConnectionRefine.thy ===== *)
theory TcpConnectionRefine
  imports TcpConnection
begin

section \<open>The output of a connection\<close>

text \<open>
  The specification of the output of a connection, a queue of bytes between the program and the kernel, and
  that \<open>sendInLoop\<close>, \<open>shutdownInLoop\<close> and \<open>handleWrite\<close> refine it, the registration of the channel included.
\<close>

subsection \<open>Frame\<close>

lemma registry_frame:
  assumes "rx_chans w' = rx_chans w" "rx_channels w' = rx_channels w" "rx_ctl w' = rx_ctl w" "rx_loop w' = rx_loop w"
  shows "registry_ok w' \<longleftrightarrow> registry_ok w"
  unfolding registry_ok_def chan_ok_def wanted_def [abs_def] assms ..

lemma can_register_frame:
  assumes "rx_chans w' = rx_chans w" "rx_channels w' = rx_channels w"
  shows "can_register a w' \<longleftrightarrow> can_register a w"
  unfolding can_register_def assms ..

lemma conn_frame:
  assumes "reactor.more w' = reactor.more w"
  shows "cn_state w' = cn_state w" "cn_channel w' = cn_channel w" "cn_outputBuffer w' = cn_outputBuffer w"
    "cn_wire w' = cn_wire w" "cn_shut w' = cn_shut w" "cn_writes w' = cn_writes w"
    "cn_write_count w' = cn_write_count w" "cn_connectionCallback w' = cn_connectionCallback w"
    "cn_closeCallback w' = cn_closeCallback w" "cn_writeCompleteCallback w' = cn_writeCompleteCallback w"
    "cn_obj w' = cn_obj w" "threadId w' = threadId w" "tcp_connection.more w' = tcp_connection.more w"
  using assms by (cases w; cases w'; simp)+

lemma set_events_effect:
  assumes ok: "registry_ok w" and ch: "rx_chans w a = Some ch" and free: "can_register a w"
  obtains w' ch' where "set_events f a w = Some w'" and "registry_ok w'" and "reactor.more w' = reactor.more w"
    and "rx_chans w' a = Some ch'" and "ch_events ch' = f (ch_events ch)" and "ch_fd ch' = ch_fd ch"
    and "can_register a w'" and "rx_alive w' = rx_alive w" and "rx_channels w' (ch_fd ch) = Some a"
proof -
  obtain w' where w': "set_events f a w = Some w'"
    using set_events_returns [OF ok free] by blast
  have loop: "ch_loop ch = rx_loop w"
    using registry_okD [OF ok ch] by (simp add: chan_ok_def)
  have "\<exists>ch'. rx_chans w' a = Some ch' \<and> ch_events ch' = f (ch_events ch) \<and> ch_fd ch' = ch_fd ch
      \<and> rx_channels w' (ch_fd ch) = Some a \<and> rx_alive w' = rx_alive w"
    using w' unfolding set_events_eq [OF ch loop] by (auto simp: commit_def split: if_splits)
  then show thesis
    using that [OF w' registry_ok_set_events [OF ok w'] set_events_frame(1) [OF w']]
    by (auto simp: can_register_def)
qed

subsection \<open>The specification\<close>

text \<open>
  The abstract connection: its state, the bytes accepted but not yet written, those the kernel has taken,
  whether the writing end was shut down, and the results of the calls of \<open>write\<close> to come.
\<close>

record a_conn =
  a_state :: StateE
  a_queue :: "byte list"
  a_wire :: "byte list"
  a_shut :: bool
  a_writes :: "nat \<Rightarrow> int + nat"
  a_count :: nat

definition a_write :: "byte list \<Rightarrow> a_conn \<Rightarrow> (int + nat) \<times> a_conn" where
  "a_write data a =
     (let a1 = a\<lparr>a_count := Suc (a_count a)\<rparr>
      in if a_shut a then (Inl EPIPE, a1)
         else case a_writes a (a_count a) of
           Inl e \<Rightarrow> (Inl e, a1)
         | Inr n \<Rightarrow> (Inr (min n (length data)), a1\<lparr>a_wire := a_wire a @ take (min n (length data)) data\<rparr>))"

definition broken :: "int \<Rightarrow> bool" where
  "broken e \<longleftrightarrow> e = EPIPE \<or> e = ECONNRESET"

definition a_send :: "byte list \<Rightarrow> a_conn \<Rightarrow> a_conn" where
  "a_send data a =
     (if a_state a = kDisconnected then a
      else if a_queue a \<noteq> [] then a\<lparr>a_queue := a_queue a @ data\<rparr>
      else case a_write data a of
        (Inr k, a1) \<Rightarrow> a1\<lparr>a_queue := drop k data\<rparr>
      | (Inl e, a1) \<Rightarrow> if broken e then a1 else a1\<lparr>a_queue := data\<rparr>)"

definition a_shutdown :: "a_conn \<Rightarrow> a_conn" where
  "a_shutdown a = (if a_state a = kDisconnected \<or> a_queue a = [] then a\<lparr>a_shut := True\<rparr> else a)"

definition a_flush :: "a_conn \<Rightarrow> a_conn" where
  "a_flush a =
     (if a_state a = kDisconnected \<or> a_queue a = [] then a
      else case a_write (a_queue a) a of
        (Inr k, a1) \<Rightarrow>
          (let a2 = a1\<lparr>a_queue := drop k (a_queue a)\<rparr>
           in if 0 < k \<and> a_queue a2 = [] \<and> a_state a = kDisconnecting then a_shutdown a2 else a2)
      | (Inl e, a1) \<Rightarrow> a1)"

text \<open>When a message is accepted: not on a closed or broken connection.\<close>

definition a_accepts :: "byte list \<Rightarrow> a_conn \<Rightarrow> bool" where
  "a_accepts data a \<longleftrightarrow> a_state a \<noteq> kDisconnected
     \<and> (a_queue a \<noteq> [] \<or> (case fst (a_write data a) of Inl e \<Rightarrow> \<not> broken e | Inr k \<Rightarrow> True))"

lemma a_send_stream:
  "a_wire (a_send data a) @ a_queue (a_send data a)
    = a_wire a @ a_queue a @ (if a_accepts data a then data else [])"
  by (auto simp: a_send_def a_accepts_def a_write_def Let_def split: sum.split)

lemma a_flush_stream: "a_wire (a_flush a) @ a_queue (a_flush a) = a_wire a @ a_queue a"
  by (auto simp: a_flush_def a_shutdown_def a_write_def Let_def split: sum.split)

subsection \<open>The connection refines the specification\<close>

definition conn_abs :: "('c, 'z) tcp_connection_scheme \<Rightarrow> a_conn" where
  "conn_abs w = \<lparr>a_state = cn_state w, a_queue = content (cn_outputBuffer w), a_wire = cn_wire w, a_shut = cn_shut w,
     a_writes = cn_writes w, a_count = cn_write_count w\<rparr>"

text \<open>The channel waits for the socket to become writable exactly while there is something to write.\<close>

definition conn_ok :: "('c, 'z) tcp_connection_scheme \<Rightarrow> bool" where
  "conn_ok w \<longleftrightarrow> registry_ok w \<and> can_register (cn_channel w) w \<and> buffer_inv (cn_outputBuffer w)
     \<and> (\<exists>ch. rx_chans w (cn_channel w) = Some ch
          \<and> (isWriting ch \<longleftrightarrow> cn_state w \<noteq> kDisconnected \<and> content (cn_outputBuffer w) \<noteq> []))"

text \<open>What the operations on the output leave alone.\<close>

definition conn_same :: "('c, 'z) tcp_connection_scheme \<Rightarrow> ('c, 'z) tcp_connection_scheme \<Rightarrow> bool" where
  "conn_same w w' \<longleftrightarrow> rx_alive w' = rx_alive w \<and> cn_obj w' = cn_obj w \<and> threadId w' = threadId w
     \<and> cn_channel w' = cn_channel w \<and> cn_connectionCallback w' = cn_connectionCallback w
     \<and> cn_closeCallback w' = cn_closeCallback w \<and> tcp_connection.more w' = tcp_connection.more w"

lemma conn_same_refl [simp]: "conn_same w w"
  by (simp add: conn_same_def)

lemma conn_same_trans: "conn_same w w1 \<Longrightarrow> conn_same w1 w2 \<Longrightarrow> conn_same w w2"
  by (simp add: conn_same_def)

lemma more_same:
  assumes "reactor.more w' = reactor.more w" and "rx_alive w' = rx_alive w"
  shows "conn_same w w'" and "conn_abs w' = conn_abs w"
  unfolding conn_same_def conn_abs_def conn_frame [OF assms(1)] using assms(2) by simp_all

lemma queueInLoop_fields:
  "rx_chans (queueInLoop tid f w) = rx_chans w" "rx_channels (queueInLoop tid f w) = rx_channels w"
  "rx_ctl (queueInLoop tid f w) = rx_ctl w" "rx_loop (queueInLoop tid f w) = rx_loop w"
  "rx_alive (queueInLoop tid f w) = rx_alive w" "threadId (queueInLoop tid f w) = threadId w"
  "event_loop.more (queueInLoop tid f w) = event_loop.more w"
  by (simp_all add: queueInLoop_eq push_functor_def wakeup_def Let_def)

lemma loop_more_frame:
  assumes "event_loop.more w' = event_loop.more w"
  shows "cn_state w' = cn_state w" "cn_channel w' = cn_channel w" "cn_outputBuffer w' = cn_outputBuffer w"
    "cn_wire w' = cn_wire w" "cn_shut w' = cn_shut w" "cn_writes w' = cn_writes w"
    "cn_write_count w' = cn_write_count w" "cn_connectionCallback w' = cn_connectionCallback w"
    "cn_closeCallback w' = cn_closeCallback w" "cn_writeCompleteCallback w' = cn_writeCompleteCallback w"
    "cn_obj w' = cn_obj w" "tcp_connection.more w' = tcp_connection.more w"
  using assms by (cases w; cases w'; simp)+

lemma queueInLoop_same:
  "conn_same w (queueInLoop tid f w)" "conn_abs (queueInLoop tid f w) = conn_abs w"
  "conn_ok (queueInLoop tid f w) = conn_ok w" "cn_outputBuffer (queueInLoop tid f w) = cn_outputBuffer w"
  unfolding conn_same_def conn_abs_def conn_ok_def loop_more_frame [OF queueInLoop_fields(7)] queueInLoop_fields
    registry_frame [OF queueInLoop_fields(1-4)] can_register_frame [OF queueInLoop_fields(1-2)]
  by simp_all

lemma kernel_write_refines:
  assumes "kernel_write data w = (r, w1)"
  shows "a_write data (conn_abs w) = (r, conn_abs w1)" and "conn_same w w1" and "conn_ok w1 = conn_ok w"
    and "rx_chans w1 = rx_chans w" and "cn_outputBuffer w1 = cn_outputBuffer w" and "cn_state w1 = cn_state w"
proof -
  define k where "k = (case r of Inr k \<Rightarrow> k | Inl e \<Rightarrow> 0)"
  have w1: "w1 = w\<lparr>cn_write_count := Suc (cn_write_count w), cn_wire := cn_wire w @ take k data\<rparr>"
    and r: "r = (if cn_shut w then Inl EPIPE else case cn_writes w (cn_write_count w) of
        Inl e \<Rightarrow> Inl e | Inr n \<Rightarrow> Inr (min n (length data)))"
    using assms by (auto simp: kernel_write_def k_def Let_def split: if_splits sum.splits)
  show "a_write data (conn_abs w) = (r, conn_abs w1)"
    unfolding w1 using r by (auto simp: a_write_def conn_abs_def k_def split: sum.splits)
  have reg: "registry_ok w1 = registry_ok w"
    by (rule registry_frame) (simp_all add: w1)
  have can: "can_register a w1 = can_register a w" for a
    by (rule can_register_frame) (simp_all add: w1)
  show "conn_same w w1" "rx_chans w1 = rx_chans w" "cn_outputBuffer w1 = cn_outputBuffer w" "cn_state w1 = cn_state w"
    by (simp_all add: w1 conn_same_def)
  show "conn_ok w1 = conn_ok w"
    unfolding conn_ok_def reg can by (simp add: w1)
qed

lemma write_direct_refines:
  assumes "rx_alive w (cn_obj w)"
  obtains nwrote remaining faultError w1 r where "write_direct data w = Some (nwrote, remaining, faultError, w1)"
    and "a_write data (conn_abs w) = (r, conn_abs w1)" and "conn_same w w1" and "conn_ok w1 = conn_ok w"
    and "rx_chans w1 = rx_chans w" and "cn_outputBuffer w1 = cn_outputBuffer w"
    and "case r of Inr k \<Rightarrow> nwrote = k \<and> remaining = length data - k \<and> \<not> faultError
      | Inl e \<Rightarrow> nwrote = 0 \<and> remaining = length data \<and> faultError = broken e"
proof -
  obtain r w0 where kw: "kernel_write data w = (r, w0)"
    by (cases "kernel_write data w")
  note k = kernel_write_refines [OF kw]
  have alive: "rx_alive w0 (cn_obj w0)"
    using assms k(2) by (simp add: conn_same_def)
  have "\<exists>nwrote remaining faultError w1. write_direct data w = Some (nwrote, remaining, faultError, w1)
    \<and> (w1 = w0 \<or> (\<exists>tid f. w1 = queueInLoop tid f w0))
    \<and> (case r of Inr k \<Rightarrow> nwrote = k \<and> remaining = length data - k \<and> \<not> faultError
      | Inl e \<Rightarrow> nwrote = 0 \<and> remaining = length data \<and> faultError = broken e)"
  proof (cases r)
    case (Inl e)
    have "(e \<noteq> EWOULDBLOCK \<and> (e = EPIPE \<or> e = ECONNRESET)) = broken e"
      by (auto simp: broken_def EWOULDBLOCK_def EPIPE_def ECONNRESET_def)
    then show ?thesis
      using Inl by (simp add: write_direct_def kw)
  next
    case (Inr k)
    then show ?thesis
      using alive by (cases "cn_writeCompleteCallback w0")
        (auto simp: write_direct_def kw queue_self_def shared_from_this_def Let_def)
  qed
  then obtain nwrote remaining faultError w1 where
    d: "write_direct data w = Some (nwrote, remaining, faultError, w1)"
    and w1: "w1 = w0 \<or> (\<exists>tid f. w1 = queueInLoop tid f w0)"
    and r: "case r of Inr k \<Rightarrow> nwrote = k \<and> remaining = length data - k \<and> \<not> faultError
      | Inl e \<Rightarrow> nwrote = 0 \<and> remaining = length data \<and> faultError = broken e"
    by blast
  have "conn_abs w1 = conn_abs w0 \<and> conn_same w0 w1 \<and> conn_ok w1 = conn_ok w0 \<and> rx_chans w1 = rx_chans w0
    \<and> cn_outputBuffer w1 = cn_outputBuffer w0"
    using w1 by (auto simp: queueInLoop_same queueInLoop_fields(1))
  then show thesis
    by (intro that [OF d _ _ _ _ _ r]) (use k in \<open>auto intro: conn_same_trans\<close>)
qed

text \<open>Changing the mask of the channel, such that it fits the output buffer afterwards.\<close>

lemma set_events_refines:
  assumes ok: "registry_ok w" "can_register (cn_channel w) w" "buffer_inv (cn_outputBuffer w)"
    and ch: "rx_chans w (cn_channel w) = Some ch"
    and m: "has_any (f (ch_events ch)) kWriteEvent \<longleftrightarrow> cn_state w \<noteq> kDisconnected \<and> content (cn_outputBuffer w) \<noteq> []"
  obtains w' where "set_events f (cn_channel w) w = Some w'" and "conn_ok w'" and "conn_abs w' = conn_abs w"
    and "conn_same w w'" and "reactor.more w' = reactor.more w"
proof -
  obtain w' ch' where e: "set_events f (cn_channel w) w = Some w'" "registry_ok w'"
    "reactor.more w' = reactor.more w" "rx_chans w' (cn_channel w) = Some ch'"
    "ch_events ch' = f (ch_events ch)" "can_register (cn_channel w) w'" "rx_alive w' = rx_alive w"
    by (rule set_events_effect [OF ok(1) ch ok(2)])
  have "conn_ok w'"
    unfolding conn_ok_def conn_frame [OF e(3)] using e(2,4,5,6) ok(3) m by (simp add: isWriting_def)
  then show thesis
    using that [OF e(1)] more_same [OF e(3,7)] e(3) by blast
qed

lemma mask_facts:
  "has_any (ev OR kWriteEvent) kWriteEvent" "\<not> has_any (ev AND NOT kWriteEvent) kWriteEvent"
  "has_any (ev OR kReadEvent) kWriteEvent = has_any ev kWriteEvent"
  "has_any (ev AND NOT kReadEvent) kWriteEvent = has_any ev kWriteEvent"
  "\<not> has_any kNoneEvent kWriteEvent"
proof -
  have rw: "kReadEvent AND kWriteEvent = 0" "NOT kReadEvent AND kWriteEvent = kWriteEvent" "kWriteEvent \<noteq> 0"
    by (simp_all add: kReadEvent_def kWriteEvent_def poll_masks)
  show "has_any (ev OR kWriteEvent) kWriteEvent" "\<not> has_any (ev AND NOT kWriteEvent) kWriteEvent"
    "has_any (ev OR kReadEvent) kWriteEvent = has_any ev kWriteEvent"
    "has_any (ev AND NOT kReadEvent) kWriteEvent = has_any ev kWriteEvent"
    "\<not> has_any kNoneEvent kWriteEvent"
    by (simp_all add: has_any_def bit.conj_disj_distrib2 or_eq_0_iff and.assoc rw kNoneEvent_def)
qed

lemma enableWriting_refines:
  assumes ok: "registry_ok w" "can_register (cn_channel w) w" "buffer_inv (cn_outputBuffer w)"
    and ch: "rx_chans w (cn_channel w) = Some ch"
    and st: "cn_state w \<noteq> kDisconnected" "content (cn_outputBuffer w) \<noteq> []"
  obtains w' where "(if \<not> isWriting ch then enableWriting (cn_channel w) w else Some w) = Some w'"
    and "conn_ok w'" and "conn_abs w' = conn_abs w" and "conn_same w w'"
proof (cases "isWriting ch")
  case True
  show thesis
    by (rule that [of w]) (use True ok ch st in \<open>simp_all add: conn_ok_def\<close>)
next
  case False
  have "has_any (ch_events ch OR kWriteEvent) kWriteEvent \<longleftrightarrow>
      cn_state w \<noteq> kDisconnected \<and> content (cn_outputBuffer w) \<noteq> []"
    using st by (simp add: mask_facts)
  from set_events_refines [where f = "\<lambda>ev. ev OR kWriteEvent", OF ok ch this] False show thesis
    by (metis that enableWriting_def)
qed

lemma append_output_refines:
  assumes ok: "conn_ok w" and alive: "rx_alive w (cn_obj w)" and st: "cn_state w \<noteq> kDisconnected"
    and rem: "remaining = length data - nwrote" "0 < remaining" "remaining \<le> room (cn_outputBuffer w)"
  obtains w' where "append_output nwrote remaining data w = Some w'" and "conn_ok w'" and "conn_same w w'"
    and "conn_abs w' = (conn_abs w)\<lparr>a_queue := a_queue (conn_abs w) @ drop nwrote data\<rparr>"
proof -
  let ?hi = "\<lambda>cb. Cn_highWaterMark cb (size_add (readableBytes (cn_outputBuffer w)) remaining)"
  define w1 where "w1 = (case cn_highWaterMarkCallback w of
      Some cb \<Rightarrow> if size_add (readableBytes (cn_outputBuffer w)) remaining \<ge> cn_highWaterMark w
            \<and> readableBytes (cn_outputBuffer w) < cn_highWaterMark w
          then queue_self (?hi cb) w else w
    | None \<Rightarrow> w)"
  have same1: "conn_abs w1 = conn_abs w" "conn_same w w1" "conn_ok w1 = conn_ok w" "cn_outputBuffer w1 = cn_outputBuffer w"
    by (auto simp: w1_def queue_self_def queueInLoop_same split: option.split)
  obtain b where b: "append_raw (cn_outputBuffer w1) (drop nwrote data) remaining = Some b" "buffer_inv b"
    "content b = content (cn_outputBuffer w) @ drop nwrote data"
    using append_raw_ok [of "cn_outputBuffer w1" remaining "drop nwrote data"] ok rem same1(4)
    by (auto simp: conn_ok_def)
  let ?w2 = "w1\<lparr>cn_outputBuffer := b\<rparr>"
  have "registry_ok ?w2 = registry_ok w1"
    by (rule registry_frame) simp_all
  moreover have "can_register a ?w2 = can_register a w1" for a
    by (rule can_register_frame) simp_all
  ultimately have ok2: "registry_ok ?w2" "can_register (cn_channel ?w2) ?w2" "buffer_inv (cn_outputBuffer ?w2)"
    using ok same1(3) b(2) by (simp_all add: conn_ok_def)
  obtain ch where ch: "rx_chans ?w2 (cn_channel ?w2) = Some ch"
    using ok same1(3) by (auto simp: conn_ok_def)
  have st2: "cn_state ?w2 \<noteq> kDisconnected" "content (cn_outputBuffer ?w2) \<noteq> []"
    using st same1(1) b(3) rem by (auto simp: conn_abs_def)
  obtain w' where w': "(if \<not> isWriting ch then enableWriting (cn_channel ?w2) ?w2 else Some ?w2) = Some w'"
    "conn_ok w'" "conn_abs w' = conn_abs ?w2" "conn_same ?w2 w'"
    by (rule enableWriting_refines [OF ok2 ch st2])
  have "append_output nwrote remaining data w = Some w'"
    using alive w'(1) ch b(1)
    by (auto simp: append_output_def shared_from_this_def w1_def Let_def split: option.splits if_splits)
  moreover have "conn_abs ?w2 = (conn_abs w)\<lparr>a_queue := a_queue (conn_abs w) @ drop nwrote data\<rparr>"
    using same1(1) b(3) by (simp add: conn_abs_def)
  moreover have "conn_same w w'"
    using same1(2) w'(4) by (simp add: conn_same_def)
  ultimately show thesis
    using that w'(2,3) by simp
qed

lemma readable_0: "buffer_inv b \<Longrightarrow> readableBytes b = 0 \<longleftrightarrow> content b = []"
  by (metis length_0_conv length_content_readable)

lemma sendInLoop_refines:
  assumes ok: "conn_ok w" and alive: "rx_alive w (cn_obj w)" and fits: "length data \<le> room (cn_outputBuffer w)"
  obtains w' where "sendInLoop data w = Some w'" and "conn_ok w'" and "conn_same w w'"
    and "conn_abs w' = a_send data (conn_abs w)"
proof (cases "cn_state w = kDisconnected")
  case True
  show thesis
    by (rule that [of w]) (use True ok in \<open>simp_all add: sendInLoop_def a_send_def conn_abs_def\<close>)
next
  case st: False
  have inv: "buffer_inv (cn_outputBuffer w)"
    using ok by (simp add: conn_ok_def)
  obtain ch where ch: "rx_chans w (cn_channel w) = Some ch" "isWriting ch \<longleftrightarrow> content (cn_outputBuffer w) \<noteq> []"
    using ok st by (auto simp: conn_ok_def)
  show thesis
  proof (cases "content (cn_outputBuffer w) = []")
    case empty: True
    obtain nwrote remaining faultError w1 r where
      d: "write_direct data w = Some (nwrote, remaining, faultError, w1)"
      and r: "a_write data (conn_abs w) = (r, conn_abs w1)" and same: "conn_same w w1" "conn_ok w1 = conn_ok w"
        "rx_chans w1 = rx_chans w" "cn_outputBuffer w1 = cn_outputBuffer w"
      and res: "case r of Inr k \<Rightarrow> nwrote = k \<and> remaining = length data - k \<and> \<not> faultError
        | Inl e \<Rightarrow> nwrote = 0 \<and> remaining = length data \<and> faultError = broken e"
      by (rule write_direct_refines [OF alive])
    have rem: "remaining = length data - nwrote"
      using res by (auto split: sum.splits)
    have send: "sendInLoop data w = (if \<not> faultError \<and> 0 < remaining
        then append_output nwrote remaining data w1 else Some w1)"
      using st ch empty readable_0 [OF inv] d rem by (simp add: sendInLoop_def)
    have spec: "a_send data (conn_abs w) = (if faultError then conn_abs w1
        else (conn_abs w1)\<lparr>a_queue := drop nwrote data\<rparr>)"
      using st empty r res by (auto simp: a_send_def conn_abs_def split: sum.splits)
    have q1: "a_queue (conn_abs w1) = []" "cn_state w1 = cn_state w"
      using r empty same(4) by (auto simp: conn_abs_def a_write_def Let_def split: if_splits sum.splits)
    show thesis
    proof (cases "\<not> faultError \<and> 0 < remaining")
      case True
      have alive1: "rx_alive w1 (cn_obj w1)"
        using alive same(1) by (simp add: conn_same_def)
      have st1: "cn_state w1 \<noteq> kDisconnected"
        using st q1(2) by simp
      have room1: "remaining \<le> room (cn_outputBuffer w1)"
        using fits rem same(4) by simp
      have ok1: "conn_ok w1"
        using ok same(2) by simp
      obtain w' where "append_output nwrote remaining data w1 = Some w'" "conn_ok w'" "conn_same w1 w'"
        "conn_abs w' = (conn_abs w1)\<lparr>a_queue := a_queue (conn_abs w1) @ drop nwrote data\<rparr>"
        by (rule append_output_refines [OF ok1 alive1 st1 rem _ room1]) (use True in simp)
      then show thesis
        using that [of w'] send spec True q1(1) conn_same_trans [OF same(1)] by simp
    next
      case False
      then have "conn_abs w1 = a_send data (conn_abs w)"
        using spec q1(1) rem by auto
      then show thesis
        using that [of w1] send False ok same(1,2) by simp
    qed
  next
    case False
    show thesis
    proof (cases "data = []")
      case True
      show thesis
        by (rule that [of w])
          (use True False st ch ok in \<open>simp_all add: sendInLoop_def a_send_def conn_abs_def\<close>)
    next
      case ne: False
      have len: "length data = length data - 0"
        by simp
      obtain w' where "append_output 0 (length data) data w = Some w'" "conn_ok w'" "conn_same w w'"
        "conn_abs w' = (conn_abs w)\<lparr>a_queue := a_queue (conn_abs w) @ drop 0 data\<rparr>"
        by (rule append_output_refines [OF ok alive st len _ fits]) (use ne in simp_all)
      then show thesis
        using that [of w'] st ch False ne by (simp add: sendInLoop_def a_send_def conn_abs_def)
    qed
  qed
qed

lemma shutdownInLoop_refines:
  assumes ok: "conn_ok w"
  obtains w' where "shutdownInLoop w = Some w'" and "conn_ok w'" and "conn_same w w'"
    and "conn_abs w' = a_shutdown (conn_abs w)"
proof -
  obtain ch where ch: "rx_chans w (cn_channel w) = Some ch"
    "isWriting ch \<longleftrightarrow> cn_state w \<noteq> kDisconnected \<and> content (cn_outputBuffer w) \<noteq> []"
    using ok by (auto simp: conn_ok_def)
  define w' where "w' = (if \<not> isWriting ch then w\<lparr>cn_shut := True\<rparr> else w)"
  have f: "rx_chans w' = rx_chans w" "rx_channels w' = rx_channels w" "rx_ctl w' = rx_ctl w" "rx_loop w' = rx_loop w"
    "cn_channel w' = cn_channel w" "cn_state w' = cn_state w" "cn_outputBuffer w' = cn_outputBuffer w"
    by (simp_all add: w'_def)
  have "conn_ok w'"
    using ok unfolding conn_ok_def registry_frame [OF f(1-4)] can_register_frame [OF f(1,2)] f .
  then show thesis
    using ch by (intro that [of w']) (auto simp: shutdownInLoop_def w'_def conn_same_def conn_abs_def a_shutdown_def)
qed

lemma disableWriting_refines:
  assumes ok: "registry_ok w" "can_register (cn_channel w) w" "buffer_inv (cn_outputBuffer w)"
    and ch: "rx_chans w (cn_channel w) = Some ch" and empty: "content (cn_outputBuffer w) = []"
  obtains w' where "disableWriting (cn_channel w) w = Some w'" and "conn_ok w'" and "conn_abs w' = conn_abs w"
    and "conn_same w w'" and "cn_writeCompleteCallback w' = cn_writeCompleteCallback w"
proof -
  have "has_any (ch_events ch AND NOT kWriteEvent) kWriteEvent \<longleftrightarrow>
      cn_state w \<noteq> kDisconnected \<and> content (cn_outputBuffer w) \<noteq> []"
    using empty by (simp add: mask_facts)
  from set_events_refines [where f = "\<lambda>ev. ev AND NOT kWriteEvent", OF ok ch this] show thesis
    using that conn_frame(10) unfolding disableWriting_def by metis
qed

text \<open>The end of \<open>handleWrite\<close> when everything has been written.\<close>

lemma drained_refines:
  assumes ok: "registry_ok w" "can_register (cn_channel w) w" "buffer_inv (cn_outputBuffer w)"
    and ch: "rx_chans w (cn_channel w) = Some ch" and empty: "content (cn_outputBuffer w) = []"
    and alive: "rx_alive w (cn_obj w)"
  obtains w' where "do {
      w3 \<leftarrow> disableWriting (cn_channel w) w;
      w4 \<leftarrow> (case cn_writeCompleteCallback w3 of
          Some cb \<Rightarrow> do { shared_from_this w3; Some (queue_self (Cn_writeComplete cb) w3) }
        | None \<Rightarrow> Some w3);
      if cn_state w4 = kDisconnecting then shutdownInLoop w4 else Some w4 } = Some w'"
    and "conn_ok w'" and "conn_same w w'"
    and "conn_abs w' = (if cn_state w = kDisconnecting then a_shutdown (conn_abs w) else conn_abs w)"
proof -
  obtain w3 where w3: "disableWriting (cn_channel w) w = Some w3" "conn_ok w3" "conn_abs w3 = conn_abs w"
    "conn_same w w3" "cn_writeCompleteCallback w3 = cn_writeCompleteCallback w"
    by (rule disableWriting_refines [OF ok ch empty])
  define w4 where "w4 = (case cn_writeCompleteCallback w of
      Some cb \<Rightarrow> queue_self (Cn_writeComplete cb) w3 | None \<Rightarrow> w3)"
  have w4: "conn_ok w4" "conn_abs w4 = conn_abs w" "conn_same w w4"
    using w3 by (auto simp: w4_def queue_self_def queueInLoop_same split: option.split
        intro: conn_same_trans [OF w3(4)])
  have st: "cn_state w4 = cn_state w"
    using w4(2) by (simp add: conn_abs_def)
  have alive3: "shared_from_this w3 = Some ()"
    using alive w3(4) by (simp add: shared_from_this_def conn_same_def)
  have eq: "do {
      w3 \<leftarrow> disableWriting (cn_channel w) w;
      w4 \<leftarrow> (case cn_writeCompleteCallback w3 of
          Some cb \<Rightarrow> do { shared_from_this w3; Some (queue_self (Cn_writeComplete cb) w3) }
        | None \<Rightarrow> Some w3);
      if cn_state w4 = kDisconnecting then shutdownInLoop w4 else Some w4 }
    = (if cn_state w = kDisconnecting then shutdownInLoop w4 else Some w4)"
    using w3(1,5) alive3 st by (cases "cn_writeCompleteCallback w") (simp_all add: w4_def)
  show thesis
  proof (cases "cn_state w = kDisconnecting")
    case True
    obtain w' where "shutdownInLoop w4 = Some w'" "conn_ok w'" "conn_same w4 w'"
      "conn_abs w' = a_shutdown (conn_abs w4)"
      by (rule shutdownInLoop_refines [OF w4(1)])
    then show thesis
      using that [of w'] True w4 conn_same_trans [OF w4(3)] unfolding eq by simp
  next
    case False
    then show thesis
      using that [of w4] w4 unfolding eq by simp
  qed
qed

lemma handleWrite_refines:
  assumes ok: "conn_ok w" and alive: "rx_alive w (cn_obj w)"
  obtains w' where "handleWrite w = Some w'" and "conn_ok w'" and "conn_same w w'"
    and "conn_abs w' = a_flush (conn_abs w)"
proof -
  let ?q = "content (cn_outputBuffer w)"
  have inv: "buffer_inv (cn_outputBuffer w)"
    using ok by (simp add: conn_ok_def)
  obtain ch where ch: "rx_chans w (cn_channel w) = Some ch" "isWriting ch \<longleftrightarrow> cn_state w \<noteq> kDisconnected \<and> ?q \<noteq> []"
    using ok by (auto simp: conn_ok_def)
  show thesis
  proof (cases "isWriting ch")
    case False
    show thesis
      by (rule that [of w]) (use False ch ok in \<open>auto simp: handleWrite_def a_flush_def conn_abs_def\<close>)
  next
    case True
    then have st: "cn_state w \<noteq> kDisconnected" "?q \<noteq> []"
      using ch by simp_all
    have peek: "peek_bytes (cn_outputBuffer w) (readableBytes (cn_outputBuffer w)) = Some ?q"
      using peek_bytes_inv [OF inv, of "readableBytes (cn_outputBuffer w)"] inv by simp
    obtain r w1 where kw: "kernel_write ?q w = (r, w1)"
      by (cases "kernel_write ?q w")
    note k = kernel_write_refines [OF kw]
    have flush: "a_flush (conn_abs w) = (case r of
        Inr k \<Rightarrow> (let a2 = (conn_abs w1)\<lparr>a_queue := drop k ?q\<rparr>
          in if 0 < k \<and> a_queue a2 = [] \<and> cn_state w = kDisconnecting then a_shutdown a2 else a2)
      | Inl e \<Rightarrow> conn_abs w1)"
      using st k(1) by (simp add: a_flush_def conn_abs_def split: sum.split)
    have hw: "handleWrite w = (case (r, w1) of
         (Inr n, w1) \<Rightarrow>
           if n > 0
           then do {
             outp \<leftarrow> retrieve (cn_outputBuffer w1) n;
             let w2 = w1\<lparr>cn_outputBuffer := outp\<rparr>;
             if readableBytes (cn_outputBuffer w2) = 0
             then do {
               w3 \<leftarrow> disableWriting (cn_channel w2) w2;
               w4 \<leftarrow> (case cn_writeCompleteCallback w3 of
                   Some cb \<Rightarrow> do { shared_from_this w3; Some (queue_self (Cn_writeComplete cb) w3) }
                 | None \<Rightarrow> Some w3);
               if cn_state w4 = kDisconnecting then shutdownInLoop w4 else Some w4 }
             else Some w2 }
           else Some w1
       | (Inl errno, w1) \<Rightarrow> Some w1)"
      using ch(1) True peek kw by (simp add: handleWrite_def)
    have ok1: "conn_ok w1"
      using ok k(3) by simp
    show thesis
    proof (cases "\<exists>k. r = Inr (Suc k)")
      case False
      have "r = Inr 0 \<or> (\<exists>e. r = Inl e)"
      proof (cases r)
        case (Inr n)
        then show ?thesis
          using False by (cases n) simp_all
      qed simp
      then have "handleWrite w = Some w1" "conn_abs w1 = a_flush (conn_abs w)"
        using hw flush k(5) by (auto simp: conn_abs_def)
      then show thesis
        using that ok1 k(2) by blast
    next
      case True
      then obtain n where r: "r = Inr n" "0 < n"
        by auto
      have "n \<le> length ?q"
        using k(1) r(1) by (auto simp: a_write_def Let_def split: if_splits sum.splits)
      then obtain b where b: "retrieve (cn_outputBuffer w1) n = Some b" "buffer_inv b" "content b = drop n ?q"
        using retrieve_ok [OF inv] k(5) by auto
      let ?w2 = "w1\<lparr>cn_outputBuffer := b\<rparr>"
      have f: "rx_chans ?w2 = rx_chans w1" "rx_channels ?w2 = rx_channels w1" "rx_ctl ?w2 = rx_ctl w1"
        "rx_loop ?w2 = rx_loop w1"
        by simp_all
      have ok2: "registry_ok ?w2" "can_register (cn_channel ?w2) ?w2" "buffer_inv (cn_outputBuffer ?w2)"
        using ok1 b(2) unfolding registry_frame [OF f] can_register_frame [OF f(1,2)] by (simp_all add: conn_ok_def)
      have ch2: "rx_chans ?w2 (cn_channel ?w2) = Some ch"
        using ch(1) k(2,4) by (simp add: conn_same_def)
      have same2: "conn_same w ?w2" "conn_abs ?w2 = (conn_abs w1)\<lparr>a_queue := drop n ?q\<rparr>" "cn_state ?w2 = cn_state w"
        using k(2,6) b(3) by (simp_all add: conn_same_def conn_abs_def)
      show thesis
      proof (cases "drop n ?q = []")
        case True
        have alive2: "rx_alive ?w2 (cn_obj ?w2)"
          using alive same2(1) by (simp add: conn_same_def)
        have empty2: "content (cn_outputBuffer ?w2) = []"
          using True b(3) by simp
        from drained_refines [OF ok2 ch2 empty2 alive2] obtain w' where w': "do {
            w3 \<leftarrow> disableWriting (cn_channel ?w2) ?w2;
            w4 \<leftarrow> (case cn_writeCompleteCallback w3 of
                Some cb \<Rightarrow> do { shared_from_this w3; Some (queue_self (Cn_writeComplete cb) w3) }
              | None \<Rightarrow> Some w3);
            if cn_state w4 = kDisconnecting then shutdownInLoop w4 else Some w4 } = Some w'"
          "conn_ok w'" "conn_same ?w2 w'"
          "conn_abs w' = (if cn_state ?w2 = kDisconnecting then a_shutdown (conn_abs ?w2) else conn_abs ?w2)"
          by blast
        have "handleWrite w = Some w'"
          using w'(1) b readable_0 [OF b(2)] True unfolding hw by (simp add: r Let_def)
        moreover have "conn_abs w' = a_flush (conn_abs w)"
          using w'(4) same2(2,3) True r unfolding flush by (simp add: Let_def)
        ultimately show thesis
          using that w'(2) conn_same_trans [OF same2(1) w'(3)] by blast
      next
        case False
        then have "handleWrite w = Some ?w2"
          using b readable_0 [OF b(2)] unfolding hw by (simp add: r Let_def)
        moreover have "conn_abs ?w2 = a_flush (conn_abs w)"
          using same2(2) False r unfolding flush by (simp add: Let_def)
        moreover have "conn_ok ?w2"
          using ok2 ch2 True ch(2) st False b(3) same2(3) \<open>isWriting ch\<close> by (simp add: conn_ok_def)
        ultimately show thesis
          using that same2(1) by blast
      qed
    qed
  qed
qed

end
