(* ===== verification/TcpConnectionInv.thy ===== *)
theory TcpConnectionInv
  imports TcpConnectionRefine
begin

section \<open>Runs of a connection\<close>

text \<open>
  Clients of a connection and the functors the loop runs for it, as a machine, and its invariant: the bytes on
  the wire and in the output buffer are those of the accepted messages, and the callbacks that say that the
  connection is up, down or closed have been called as often as the state of the connection tells.
\<close>

subsection \<open>Clients\<close>

text \<open>
  What the callbacks of a program may do with the connection, from the loop thread. \<open>prog\<close> gives the
  actions of each callback. The calls of the callbacks are recorded, and the messages that were accepted.
  A message must fit the output buffer, whose vector cannot grow without bound.
\<close>

datatype conn_action =
    A_send "byte list"
  | A_shutdown
  | A_forceClose
  | A_startRead
  | A_stopRead
  | A_consume nat

record 'c conn_world = "'c tcp_connection" +
  calls_made :: "'c conn_call list"
  accepted :: "byte list list"

definition note_accepted :: "bool \<Rightarrow> byte list \<Rightarrow> 'c conn_world \<Rightarrow> 'c conn_world" where
  "note_accepted yes data w = (if yes then w\<lparr>accepted := accepted w @ [data]\<rparr> else w)"

fun conn_act :: "conn_action \<Rightarrow> 'c conn_world \<Rightarrow> 'c conn_world option" where
  "conn_act (A_send data) w = do {
     assert_that (length data \<le> room (cn_outputBuffer w));
     w1 \<leftarrow> TcpConnection_send (threadId w) data w;
     Some (note_accepted (cn_state w = kConnected \<and> a_accepts data (conn_abs w)) data w1) }"
| "conn_act A_shutdown w = shutdown (threadId w) w"
| "conn_act A_forceClose w = forceClose (threadId w) w"
| "conn_act A_startRead w = startRead (threadId w) w"
| "conn_act A_stopRead w = stopRead (threadId w) w"
| "conn_act (A_consume n) w = do {
     inp \<leftarrow> retrieve (cn_inputBuffer w) n;
     Some (w\<lparr>cn_inputBuffer := inp\<rparr>) }"

definition conn_client ::
    "('c conn_call \<Rightarrow> conn_action list) \<Rightarrow> 'c conn_call \<Rightarrow> 'c conn_world \<Rightarrow> 'c conn_world option" where
  "conn_client prog call w = run_all conn_act (prog call) (w\<lparr>calls_made := calls_made w @ [call]\<rparr>)"

text \<open>The loop thread runs a functor of the connection, or code of the program acts on the connection.\<close>

datatype 'c conn_event = Run "'c conn_fn" Timestamp | Client conn_action

fun conn_step ::
    "('c conn_call \<Rightarrow> conn_action list) \<Rightarrow> 'c conn_event \<Rightarrow> 'c conn_world \<Rightarrow> 'c conn_world option" where
  "conn_step prog (Client act) w = conn_act act w"
| "conn_step prog (Run (Cn_sendInLoop data) t) w = do {
     assert_that (length data \<le> room (cn_outputBuffer w));
     w1 \<leftarrow> conn_run (conn_client prog) (Cn_sendInLoop data) t w;
     Some (note_accepted (a_accepts data (conn_abs w)) data w1) }"
| "conn_step prog (Run fn t) w = conn_run (conn_client prog) fn t w"

subsection \<open>The invariant\<close>

definition is_connection_call :: "'c conn_call \<Rightarrow> bool" where
  "is_connection_call c = (case c of Call_connection k \<Rightarrow> True | _ \<Rightarrow> False)"

definition is_close_call :: "'c conn_call \<Rightarrow> bool" where
  "is_close_call c = (case c of Call_close k \<Rightarrow> True | _ \<Rightarrow> False)"

definition ups_and_downs :: "StateE \<Rightarrow> nat" where
  "ups_and_downs s = (case s of kConnecting \<Rightarrow> 0 | kConnected \<Rightarrow> 1 | kDisconnecting \<Rightarrow> 1 | kDisconnected \<Rightarrow> 2)"

definition stream_ok :: "'c conn_world \<Rightarrow> bool" where
  "stream_ok w \<longleftrightarrow> cn_wire w @ content (cn_outputBuffer w) = concat (accepted w)
     \<and> (cn_shut w \<longrightarrow> cn_state w = kDisconnected \<or> content (cn_outputBuffer w) = [])"

definition calls_ok :: "'c conn_world \<Rightarrow> bool" where
  "calls_ok w \<longleftrightarrow> length (filter is_connection_call (calls_made w)) = ups_and_downs (cn_state w)
     \<and> (filter is_close_call (calls_made w) \<noteq> [] \<longrightarrow> cn_state w = kDisconnected)
     \<and> length (filter is_close_call (calls_made w)) \<le> 1"

definition conn_inv :: "'c conn_world \<Rightarrow> bool" where
  "conn_inv w \<longleftrightarrow> conn_ok w \<and> rx_alive w (cn_obj w) \<and> stream_ok w"

text \<open>What an operation on the output that refines \<open>g\<close> does to the stream.\<close>

lemma conn_inv_refines:
  assumes inv: "conn_inv w" and w1: "conn_ok w1" "conn_same w w1" "conn_abs w1 = a1"
    and stream: "a_wire a1 @ a_queue a1 = a_wire (conn_abs w) @ a_queue (conn_abs w) @ (if yes then data else [])"
    and shut: "a_shut a1 \<Longrightarrow> a_state a1 = kDisconnected \<or> a_queue a1 = []"
  shows "conn_inv (note_accepted yes data w1)"
    and "calls_made (note_accepted yes data w1) = calls_made w" and "cn_state (note_accepted yes data w1) = a_state a1"
proof -
  have m: "accepted w1 = accepted w" "calls_made w1 = calls_made w"
    using w1(2) by (cases w; cases w1; simp add: conn_same_def)+
  have ok: "conn_ok (note_accepted yes data w1) = conn_ok w1"
  proof -
    have f: "rx_chans (note_accepted yes data w1) = rx_chans w1" "rx_channels (note_accepted yes data w1) = rx_channels w1"
      "rx_ctl (note_accepted yes data w1) = rx_ctl w1" "rx_loop (note_accepted yes data w1) = rx_loop w1"
      by (simp_all add: note_accepted_def)
    show ?thesis
      unfolding conn_ok_def registry_frame [OF f] can_register_frame [OF f(1,2)] by (simp add: note_accepted_def)
  qed
  have "stream_ok (note_accepted yes data w1)"
    using inv stream shut w1(3) m(1) by (auto simp: conn_inv_def stream_ok_def note_accepted_def conn_abs_def)
  then show "conn_inv (note_accepted yes data w1)"
    using inv ok w1(1,2) by (simp add: conn_inv_def conn_same_def note_accepted_def)
  show "calls_made (note_accepted yes data w1) = calls_made w" "cn_state (note_accepted yes data w1) = a_state a1"
    using m(2) w1(3) by (auto simp: note_accepted_def conn_abs_def)
qed

definition a_shut_ok :: "a_conn \<Rightarrow> bool" where
  "a_shut_ok a \<longleftrightarrow> (a_shut a \<longrightarrow> a_state a = kDisconnected \<or> a_queue a = [])"

lemma a_shut_ok_ops:
  assumes "a_shut_ok a"
  shows "a_shut_ok (a_send data a)" and "a_shut_ok (a_flush a)" and "a_shut_ok (a_shutdown a)"
  using assms
  by (auto simp: a_shut_ok_def a_send_def a_flush_def a_shutdown_def a_write_def broken_def Let_def split: sum.split)

lemma a_state_ops:
  "a_state (a_send data a) = a_state a" "a_state (a_flush a) = a_state a" "a_state (a_shutdown a) = a_state a"
  by (auto simp: a_send_def a_flush_def a_shutdown_def a_write_def Let_def split: sum.split)

lemma conn_inv_shut: "conn_inv w \<Longrightarrow> a_shut_ok (conn_abs w)"
  by (simp add: conn_inv_def stream_ok_def a_shut_ok_def conn_abs_def)

lemma send_inv:
  assumes inv: "conn_inv w" and fits: "length data \<le> room (cn_outputBuffer w)" and send: "sendInLoop data w = Some w1"
  defines "w2 \<equiv> note_accepted (a_accepts data (conn_abs w)) data w1"
  shows "conn_inv w2" and "calls_made w2 = calls_made w" and "cn_state w2 = cn_state w"
proof -
  have "conn_ok w" "rx_alive w (cn_obj w)"
    using inv by (simp_all add: conn_inv_def)
  then obtain w' where "sendInLoop data w = Some w'" "conn_ok w'" "conn_same w w'"
    "conn_abs w' = a_send data (conn_abs w)"
    by (rule sendInLoop_refines [OF _ _ fits])
  then have w1: "conn_ok w1" "conn_same w w1" "conn_abs w1 = a_send data (conn_abs w)"
    using send by simp_all
  have shut: "a_shut_ok (a_send data (conn_abs w))"
    using a_shut_ok_ops conn_inv_shut [OF inv] by blast
  note r = conn_inv_refines [OF inv w1, where yes = "a_accepts data (conn_abs w)" and data = data]
  show "conn_inv w2" "calls_made w2 = calls_made w" "cn_state w2 = cn_state w"
    unfolding w2_def using r shut by (simp_all add: a_send_stream a_shut_ok_def a_state_ops conn_abs_def)
qed

lemma note_nothing [simp]: "note_accepted False data w = w"
  by (simp add: note_accepted_def)

lemma refines_inv:
  assumes inv: "conn_inv w" and w1: "conn_ok w1" "conn_same w w1" "conn_abs w1 = a1"
    and stream: "a_wire a1 @ a_queue a1 = a_wire (conn_abs w) @ a_queue (conn_abs w)" and shut: "a_shut_ok a1"
  shows "conn_inv w1" and "calls_made w1 = calls_made w" and "cn_state w1 = a_state a1"
  using conn_inv_refines [OF inv w1, where yes = False and data = "[]"] stream shut
  by (simp_all add: a_shut_ok_def)

lemma same_inv:
  assumes "conn_inv w" and "conn_ok w1" and "conn_same w w1" and "conn_abs w1 = conn_abs w"
  shows "conn_inv w1" and "calls_made w1 = calls_made w" and "cn_state w1 = cn_state w"
  using refines_inv [OF assms(1-3) assms(4)] conn_inv_shut [OF assms(1)] by (simp_all add: conn_abs_def)

lemma queueInLoop_inv:
  assumes "conn_inv w"
  shows "conn_inv (queueInLoop tid f w)" and "calls_made (queueInLoop tid f w) = calls_made w"
    and "cn_state (queueInLoop tid f w) = cn_state w"
proof -
  have "conn_ok (queueInLoop tid f w)" "conn_same w (queueInLoop tid f w)" "conn_abs (queueInLoop tid f w) = conn_abs w"
    using assms by (simp_all add: queueInLoop_same conn_inv_def)
  from same_inv [OF assms this] show "conn_inv (queueInLoop tid f w)"
    "calls_made (queueInLoop tid f w) = calls_made w" "cn_state (queueInLoop tid f w) = cn_state w" .
qed

text \<open>Changing members that the invariant does not look at.\<close>

lemma conn_inv_frame:
  assumes "conn_inv w" and "rx_chans w1 = rx_chans w" "rx_channels w1 = rx_channels w" "rx_ctl w1 = rx_ctl w"
    "rx_loop w1 = rx_loop w" and "cn_channel w1 = cn_channel w" "cn_outputBuffer w1 = cn_outputBuffer w"
    "rx_alive w1 = rx_alive w" "cn_obj w1 = cn_obj w" "cn_wire w1 = cn_wire w" "cn_shut w1 = cn_shut w"
    "accepted w1 = accepted w" and "cn_state w1 = kDisconnected \<longleftrightarrow> cn_state w = kDisconnected"
  shows "conn_inv w1"
  using assms(1)
  unfolding conn_inv_def stream_ok_def conn_ok_def registry_frame [OF assms(2-5)]
    can_register_frame [OF assms(2,3)] assms(2-12) using assms(13) by auto

lemma shutdownInLoop_inv:
  assumes inv: "conn_inv w" and "shutdownInLoop w = Some w1"
  shows "conn_inv w1" and "calls_made w1 = calls_made w" and "cn_state w1 = cn_state w"
proof -
  have "conn_ok w"
    using inv by (simp add: conn_inv_def)
  then obtain w' where "shutdownInLoop w = Some w'" "conn_ok w'" "conn_same w w'"
    "conn_abs w' = a_shutdown (conn_abs w)"
    by (rule shutdownInLoop_refines)
  then have w1: "conn_ok w1" "conn_same w w1" "conn_abs w1 = a_shutdown (conn_abs w)"
    using assms(2) by simp_all
  show "conn_inv w1" "calls_made w1 = calls_made w" "cn_state w1 = cn_state w"
    using refines_inv [OF inv w1] a_shut_ok_ops(3) [OF conn_inv_shut [OF inv]]
    by (simp_all add: a_shutdown_def a_state_ops conn_abs_def)
qed

lemma handleWrite_inv:
  assumes inv: "conn_inv w" and "handleWrite w = Some w1"
  shows "conn_inv w1" and "calls_made w1 = calls_made w" and "cn_state w1 = cn_state w"
proof -
  have "conn_ok w" "rx_alive w (cn_obj w)"
    using inv by (simp_all add: conn_inv_def)
  then obtain w' where "handleWrite w = Some w'" "conn_ok w'" "conn_same w w'"
    "conn_abs w' = a_flush (conn_abs w)"
    by (rule handleWrite_refines)
  then have w1: "conn_ok w1" "conn_same w w1" "conn_abs w1 = a_flush (conn_abs w)"
    using assms(2) by simp_all
  show "conn_inv w1" "calls_made w1 = calls_made w" "cn_state w1 = cn_state w"
    using refines_inv [OF inv w1] a_shut_ok_ops(2) [OF conn_inv_shut [OF inv]]
    by (simp_all add: a_flush_stream a_state_ops conn_abs_def)
qed

lemma set_events_inv:
  assumes inv: "conn_inv w" and set: "set_events f (cn_channel w) w = Some w1"
    and m: "\<And>ev. has_any (f ev) kWriteEvent = has_any ev kWriteEvent"
  shows "conn_inv w1" and "calls_made w1 = calls_made w" and "cn_state w1 = cn_state w"
proof -
  obtain ch where ok: "registry_ok w" "can_register (cn_channel w) w" "buffer_inv (cn_outputBuffer w)"
    and ch: "rx_chans w (cn_channel w) = Some ch"
    "isWriting ch \<longleftrightarrow> cn_state w \<noteq> kDisconnected \<and> content (cn_outputBuffer w) \<noteq> []"
    using inv by (auto simp: conn_inv_def conn_ok_def)
  have "has_any (f (ch_events ch)) kWriteEvent \<longleftrightarrow> cn_state w \<noteq> kDisconnected \<and> content (cn_outputBuffer w) \<noteq> []"
    using m ch(2) by (simp add: isWriting_def)
  from set_events_refines [where f = f, OF ok ch(1) this] obtain w' where
    "set_events f (cn_channel w) w = Some w'" "conn_ok w'" "conn_abs w' = conn_abs w" "conn_same w w'"
    by blast
  then show "conn_inv w1" "calls_made w1 = calls_made w" "cn_state w1 = cn_state w"
    using same_inv [OF inv, of w1] set by simp_all
qed

definition moves :: "StateE \<Rightarrow> StateE \<Rightarrow> bool" where
  "moves s s' \<longleftrightarrow> s' = s \<or> s' = kDisconnecting \<and> (s = kConnected \<or> s = kDisconnecting)"

lemma moves_trans: "moves s s1 \<Longrightarrow> moves s1 s2 \<Longrightarrow> moves s s2"
  by (auto simp: moves_def)

lemma moves_refl [simp]: "moves s s"
  by (simp add: moves_def)

text \<open>\<open>w'\<close> keeps the invariant, has made no other call than \<open>cs\<close> and moved the state as actions do.\<close>

definition kept :: "'c conn_call list \<Rightarrow> 'c conn_world \<Rightarrow> 'c conn_world \<Rightarrow> bool" where
  "kept cs w w' \<longleftrightarrow> conn_inv w' \<and> calls_made w' = calls_made w @ cs \<and> moves (cn_state w) (cn_state w')"

lemma kept_trans: "kept cs w w1 \<Longrightarrow> kept ds w1 w2 \<Longrightarrow> kept (cs @ ds) w w2"
  by (auto simp: kept_def intro: moves_trans)

lemma kept_refl: "conn_inv w \<Longrightarrow> kept [] w w"
  by (simp add: kept_def)

lemma kept_queueInLoop: "conn_inv w \<Longrightarrow> kept [] w (queueInLoop tid f w)"
  by (simp add: kept_def queueInLoop_inv)

lemma kept_set_state:
  assumes "conn_inv w" and "moves (cn_state w) s" and "s \<noteq> kDisconnected \<or> cn_state w = kDisconnected"
  shows "kept [] w (w\<lparr>cn_state := s\<rparr>)"
proof -
  have "conn_inv (w\<lparr>cn_state := s\<rparr>)"
    by (rule conn_inv_frame [OF assms(1)]) (use assms(2,3) in \<open>auto simp: moves_def\<close>)
  then show ?thesis
    using assms(2) by (simp add: kept_def)
qed

lemma kept_set_events:
  assumes "conn_inv w" and "set_events f (cn_channel w) w = Some w1"
    and "\<And>ev. has_any (f ev) kWriteEvent = has_any ev kWriteEvent"
  shows "kept [] w w1"
  using set_events_inv [OF assms] by (simp add: kept_def)

lemma kept_update:
  assumes "kept cs w w1" and "conn_inv w2" and "calls_made w2 = calls_made w1" and "cn_state w2 = cn_state w1"
  shows "kept cs w w2"
  using assms by (simp add: kept_def)

lemma send_kept:
  assumes inv: "conn_inv w" and fits: "length data \<le> room (cn_outputBuffer w)"
    and send: "sendInLoop data w = Some w1"
  shows "kept [] w (note_accepted (a_accepts data (conn_abs w)) data w1)"
  using send_inv [OF assms] by (simp add: kept_def)

lemma shutdownInLoop_kept: "conn_inv w \<Longrightarrow> shutdownInLoop w = Some w' \<Longrightarrow> kept [] w w'"
  using shutdownInLoop_inv [of w w'] by (simp add: kept_def)

lemma forceClose_kept:
  assumes inv: "conn_inv w" and "forceClose tid w = Some w'"
  shows "kept [] w w'"
proof (cases "cn_state w = kConnected \<or> cn_state w = kDisconnecting")
  case True
  let ?w0 = "w\<lparr>cn_state := kDisconnecting\<rparr>"
  have k: "kept [] w ?w0"
    by (rule kept_set_state [OF inv]) (use True in \<open>simp_all add: moves_def\<close>)
  have "w' = queueInLoop tid (Fn_user Cn_forceCloseInLoop) ?w0"
    using assms(2) True by (auto simp: forceClose_def shared_from_this_def split: if_splits)
  then have "kept [] ?w0 w'"
    using kept_queueInLoop [of ?w0] k by (simp add: kept_def)
  with k show ?thesis
    using kept_trans by fastforce
next
  case False
  then show ?thesis
    using assms(2) inv kept_refl by (simp add: forceClose_def)
qed

lemma reading_kept:
  assumes inv: "conn_inv w" and set: "set_events f (cn_channel w) w = Some w1"
    and m: "\<And>ev. has_any (f ev) kWriteEvent = has_any ev kWriteEvent"
  shows "kept [] w (w1\<lparr>cn_reading := b\<rparr>)"
proof -
  have k: "kept [] w w1"
    by (rule kept_set_events [OF inv set m])
  have "conn_inv (w1\<lparr>cn_reading := b\<rparr>)"
    by (rule conn_inv_frame [of w1]) (use k in \<open>simp_all add: kept_def\<close>)
  then show ?thesis
    by (rule kept_update [OF k]) simp_all
qed

lemma readInLoop_kept:
  assumes inv: "conn_inv w"
  shows "startReadInLoop w = Some w' \<Longrightarrow> kept [] w w'" and "stopReadInLoop w = Some w' \<Longrightarrow> kept [] w w'"
  using reading_kept [OF inv, of "\<lambda>ev. ev OR kReadEvent"] reading_kept [OF inv, of "\<lambda>ev. ev AND NOT kReadEvent"]
    kept_refl [OF inv]
  by (auto simp: startReadInLoop_def stopReadInLoop_def enableReading_def disableReading_def mask_facts
      split: if_splits elim!: bind_SomeE)

lemma conn_act_kept:
  assumes inv: "conn_inv w" and act: "conn_act act w = Some w'"
  shows "kept [] w w'"
proof (cases act)
  case (A_send data)
  show ?thesis
  proof (cases "cn_state w = kConnected")
    case True
    then obtain w1 where "length data \<le> room (cn_outputBuffer w)" "sendInLoop data w = Some w1"
      "w' = note_accepted (a_accepts data (conn_abs w)) data w1"
      using act A_send
      by (auto simp: TcpConnection_send_def conn_runInLoop_def isInLoopThread_def split: if_splits elim!: bind_SomeE)
    then show ?thesis
      using send_kept [OF inv] by simp
  next
    case False
    then have "w' = w"
      using act A_send by (simp add: TcpConnection_send_def split: if_splits)
    then show ?thesis
      using inv kept_refl by simp
  qed
next
  case A_shutdown
  show ?thesis
  proof (cases "cn_state w = kConnected")
    case True
    let ?w0 = "w\<lparr>cn_state := kDisconnecting\<rparr>"
    have k: "kept [] w ?w0"
      by (rule kept_set_state [OF inv]) (simp_all add: True moves_def)
    have "shutdownInLoop ?w0 = Some w'"
      using act A_shutdown True by (simp add: shutdown_def conn_runInLoop_def isInLoopThread_def)
    then have "kept [] ?w0 w'"
      using shutdownInLoop_kept [of ?w0 w'] k by (simp add: kept_def)
    with k show ?thesis
      using kept_trans by fastforce
  next
    case False
    then show ?thesis
      using act A_shutdown inv kept_refl by (simp add: shutdown_def)
  qed
next
  case (A_consume n)
  then obtain inp where w': "w' = w\<lparr>cn_inputBuffer := inp\<rparr>"
    using act by (auto elim!: bind_SomeE)
  have "conn_inv w'"
    by (rule conn_inv_frame [OF inv]) (simp_all add: w')
  then show ?thesis
    by (simp add: kept_def w')
qed (use act forceClose_kept [OF inv] readInLoop_kept [OF inv] in
    \<open>simp_all add: startRead_def stopRead_def conn_runInLoop_def isInLoopThread_def\<close>)

lemma conn_acts_kept:
  assumes "conn_inv w" and "run_all conn_act acts w = Some w'"
  shows "kept [] w w'"
  using assms
proof (induction acts arbitrary: w)
  case (Cons act acts)
  then obtain w1 where w1: "conn_act act w = Some w1" "run_all conn_act acts w1 = Some w'"
    by (auto elim: bind_SomeE)
  have "kept [] w w1"
    by (rule conn_act_kept [OF Cons.prems(1) w1(1)])
  then show ?case
    using Cons.IH [OF _ w1(2)] kept_trans [of "[]" w w1 "[]"] by (simp add: kept_def)
qed (simp add: kept_refl)

lemma client_kept:
  assumes inv: "conn_inv w" and run: "conn_client prog call w = Some w'"
  shows "kept [call] w w'"
proof -
  let ?w0 = "w\<lparr>calls_made := calls_made w @ [call]\<rparr>"
  have "conn_inv ?w0"
    by (rule conn_inv_frame [OF inv]) simp_all
  then have "kept [] ?w0 w'"
    using conn_acts_kept run by (auto simp: conn_client_def)
  then show ?thesis
    by (simp add: kept_def)
qed

lemma callback_kept:
  assumes inv: "conn_inv w" and run: "run_callback (conn_client prog) call cb w = Some w'"
  shows "\<exists>k. kept [call k] w w'"
  using run client_kept [OF inv] by (auto simp: run_callback_def elim!: bind_SomeE)

text \<open>Closing: the state is set, the channel disabled.\<close>

lemma close_inv:
  assumes inv: "conn_inv w" and dis: "disableAll (cn_channel w) (w\<lparr>cn_state := kDisconnected\<rparr>) = Some w1"
  shows "conn_inv w1" and "calls_made w1 = calls_made w" and "cn_state w1 = kDisconnected"
proof -
  let ?w0 = "w\<lparr>cn_state := kDisconnected\<rparr>"
  have f: "rx_chans ?w0 = rx_chans w" "rx_channels ?w0 = rx_channels w" "rx_ctl ?w0 = rx_ctl w" "rx_loop ?w0 = rx_loop w"
    by simp_all
  obtain ch where ok: "registry_ok ?w0" "can_register (cn_channel ?w0) ?w0" "buffer_inv (cn_outputBuffer ?w0)"
    and ch: "rx_chans ?w0 (cn_channel ?w0) = Some ch"
    using inv registry_frame [OF f] can_register_frame [OF f(1,2)] by (auto simp: conn_inv_def conn_ok_def)
  have "has_any kNoneEvent kWriteEvent \<longleftrightarrow> cn_state ?w0 \<noteq> kDisconnected \<and> content (cn_outputBuffer ?w0) \<noteq> []"
    by (simp add: mask_facts)
  from set_events_refines [where f = "\<lambda>_. kNoneEvent", OF ok ch this] obtain w' where
    "set_events (\<lambda>_. kNoneEvent) (cn_channel ?w0) ?w0 = Some w'" "conn_ok w'" "conn_abs w' = conn_abs ?w0"
    "conn_same ?w0 w'"
    by blast
  then have w1: "conn_ok w1" "conn_abs w1 = conn_abs ?w0" "conn_same ?w0 w1"
    using dis by (simp_all add: disableAll_def)
  have m: "accepted w1 = accepted w" "calls_made w1 = calls_made w"
    using w1(3) by (cases w; cases w1; simp add: conn_same_def)+
  show "conn_inv w1" "calls_made w1 = calls_made w" "cn_state w1 = kDisconnected"
    using inv w1 m by (simp_all add: conn_inv_def stream_ok_def conn_abs_def conn_same_def)
qed

lemma remove_inv:
  assumes inv: "conn_inv w" and rm: "Channel_remove (cn_channel w) w = Some w1"
  shows "kept [] w w1"
proof -
  have ok: "registry_ok w"
    using inv by (simp add: conn_inv_def conn_ok_def)
  obtain ch where ch: "rx_chans w (cn_channel w) = Some ch"
    using inv by (auto simp: conn_inv_def conn_ok_def)
  have loop: "ch_loop ch = rx_loop w"
    using registry_okD [OF ok ch] by (simp add: chan_ok_def)
  have ok1: "registry_ok w1"
    by (rule registry_ok_remove [OF ok rm])
  have more: "reactor.more w1 = reactor.more w"
    by (rule set_events_frame(2) [OF rm])
  have w1: "rx_alive w1 = rx_alive w" "can_register (cn_channel w) w1"
    "rx_chans w1 (cn_channel w) = Some (ch\<lparr>ch_addedToLoop := False, ch_index := kNew\<rparr>)"
    using rm unfolding Channel_remove_eq [OF ch loop]
    by (auto simp: commit_def can_register_def split: if_splits)
  have "conn_ok w1"
    using inv ch ok1 w1(2,3) unfolding conn_inv_def conn_ok_def conn_frame [OF more] by (simp add: isWriting_def)
  then show ?thesis
    using same_inv [OF inv _ more_same [OF more w1(1)]] by (simp add: kept_def)
qed

lemma tie_kept:
  assumes inv: "conn_inv w" and t: "tie obj (cn_channel w) w = Some w1"
  shows "kept [] w w1"
proof -
  have ok: "registry_ok w"
    using inv by (simp add: conn_inv_def conn_ok_def)
  obtain ch where ch: "rx_chans w (cn_channel w) = Some ch"
    using inv by (auto simp: conn_inv_def conn_ok_def)
  have m: "modify_chan (\<lambda>ch. ch\<lparr>ch_tie := Some obj, ch_tied := True\<rparr>) (cn_channel w) w = Some w1"
    using t by (simp add: tie_def)
  have ok1: "registry_ok w1"
    by (rule registry_ok_modify [OF ok _ m]) simp
  have more: "reactor.more w1 = reactor.more w"
    by (rule chan_frame(3) [OF m])
  have w1: "rx_alive w1 = rx_alive w" "rx_channels w1 = rx_channels w"
    "rx_chans w1 (cn_channel w) = Some (ch\<lparr>ch_tie := Some obj, ch_tied := True\<rparr>)"
    using m ch by (auto simp: modify_chan_def set_chan_def)
  have "conn_ok w1"
    using inv ch ok1 w1(2,3) unfolding conn_inv_def conn_ok_def conn_frame [OF more]
    by (simp add: isWriting_def can_register_def)
  then show ?thesis
    using same_inv [OF inv _ more_same [OF more w1(1)]] by (simp add: kept_def)
qed

definition full_inv :: "'c conn_world \<Rightarrow> bool" where
  "full_inv w \<longleftrightarrow> conn_inv w \<and> calls_ok w"

lemma call_kinds [simp]:
  "is_connection_call (Call_connection k)" "\<not> is_connection_call (Call_message k t)"
  "\<not> is_connection_call (Call_writeComplete k)" "\<not> is_connection_call (Call_highWaterMark k n)"
  "\<not> is_connection_call (Call_close k)" "is_close_call (Call_close k)" "\<not> is_close_call (Call_message k t)"
  "\<not> is_close_call (Call_writeComplete k)" "\<not> is_close_call (Call_highWaterMark k n)"
  "\<not> is_close_call (Call_connection k)"
  by (simp_all add: is_connection_call_def is_close_call_def)

lemma kept_full:
  assumes "full_inv w" and "kept cs w w'" and "list_all (\<lambda>c. \<not> is_connection_call c \<and> \<not> is_close_call c) cs"
  shows "full_inv w'"
proof -
  have "filter is_connection_call cs = []" "filter is_close_call cs = []"
    using assms(3) by (auto simp: filter_empty_conv list_all_iff)
  then show ?thesis
    using assms(1,2) by (auto simp: full_inv_def kept_def calls_ok_def moves_def ups_and_downs_def)
qed

lemma handleClose_full:
  assumes full: "full_inv w" and close: "handleClose (conn_client prog) w = Some w'"
  shows "full_inv w'"
proof -
  obtain w1 w2 where st: "cn_state w = kConnected \<or> cn_state w = kDisconnecting"
    and w1: "disableAll (cn_channel w) (w\<lparr>cn_state := kDisconnected\<rparr>) = Some w1"
    and w2: "run_callback (conn_client prog) Call_connection (cn_connectionCallback w1) w1 = Some w2"
    and w': "run_callback (conn_client prog) Call_close (cn_closeCallback w2) w2 = Some w'"
    using close by (auto simp: handleClose_def split: if_splits elim!: bind_SomeE)
  have inv: "conn_inv w"
    using full by (simp add: full_inv_def)
  note c1 = close_inv [OF inv w1]
  obtain k where k: "kept [Call_connection k] w1 w2"
    using callback_kept [OF c1(1) w2] by blast
  obtain k' where k': "kept [Call_close k'] w2 w'"
    using callback_kept [OF _ w'] k by (auto simp: kept_def)
  have "cn_state w' = kDisconnected" "calls_made w' = calls_made w @ [Call_connection k, Call_close k']"
    using c1 k k' by (auto simp: kept_def moves_def)
  then show ?thesis
    using full st k' by (auto simp: full_inv_def calls_ok_def kept_def ups_and_downs_def)
qed

lemma connectEstablished_full:
  assumes full: "full_inv w" and est: "connectEstablished (conn_client prog) w = Some w'"
  shows "full_inv w'"
proof -
  let ?w0 = "w\<lparr>cn_state := kConnected\<rparr>"
  obtain w1 w2 where st: "cn_state w = kConnecting" and w1: "tie (cn_obj w) (cn_channel w) ?w0 = Some w1"
    and w2: "enableReading (cn_channel w1) w1 = Some w2"
    and w': "run_callback (conn_client prog) Call_connection (cn_connectionCallback w2) w2 = Some w'"
    using est by (auto simp: connectEstablished_def split: if_splits elim!: bind_SomeE)
  have inv0: "conn_inv ?w0"
    by (rule conn_inv_frame [of w]) (use full st in \<open>simp_all add: full_inv_def\<close>)
  have k1: "kept [] ?w0 w1"
    using tie_kept [OF inv0] w1 by simp
  then have inv1: "conn_inv w1"
    by (simp add: kept_def)
  have k2: "kept [] w1 w2"
    by (rule kept_set_events [OF inv1 w2 [unfolded enableReading_def]]) (simp add: mask_facts)
  then have inv2: "conn_inv w2"
    by (simp add: kept_def)
  obtain k where k3: "kept [Call_connection k] w2 w'"
    using callback_kept [OF inv2 w'] by blast
  have "kept [Call_connection k] ?w0 w'"
    using kept_trans [OF kept_trans [OF k1 k2] k3] by simp
  then show ?thesis
    using full st by (auto simp: full_inv_def calls_ok_def kept_def ups_and_downs_def moves_def)
qed

lemma connectDestroyed_full:
  assumes full: "full_inv w" and des: "connectDestroyed (conn_client prog) w = Some w'"
  shows "full_inv w'"
proof -
  have inv: "conn_inv w"
    using full by (simp add: full_inv_def)
  show ?thesis
  proof (cases "cn_state w = kConnected")
    case True
    then obtain w1 w2 where w1: "disableAll (cn_channel w) (w\<lparr>cn_state := kDisconnected\<rparr>) = Some w1"
      and w2: "run_callback (conn_client prog) Call_connection (cn_connectionCallback w1) w1 = Some w2"
      and w': "Channel_remove (cn_channel w2) w2 = Some w'"
      using des by (auto simp: connectDestroyed_def elim!: bind_SomeE)
    note c1 = close_inv [OF inv w1]
    obtain k where k: "kept [Call_connection k] w1 w2"
      using callback_kept [OF c1(1) w2] by blast
    have "kept [] w2 w'"
      using remove_inv [OF _ w'] k by (simp add: kept_def)
    from kept_trans [OF k this] have k': "kept [Call_connection k] w1 w'"
      by simp
    have "cn_state w' = kDisconnected" "calls_made w' = calls_made w @ [Call_connection k]"
      using c1 k' by (auto simp: kept_def moves_def)
    then show ?thesis
      using full True k' by (auto simp: full_inv_def calls_ok_def kept_def ups_and_downs_def)
  next
    case False
    then have "Channel_remove (cn_channel w) w = Some w'"
      using des by (simp add: connectDestroyed_def)
    then show ?thesis
      using kept_full [OF full remove_inv [OF inv]] by simp
  qed
qed

lemma handleRead_full:
  assumes full: "full_inv w" and read: "TcpConnection_handleRead (conn_client prog) t w = Some w'"
  shows "full_inv w'"
proof -
  obtain n e inp where w: "readFd (cn_reads w (cn_read_count w)) (cn_inputBuffer w) = Some (n, e, inp)"
    using read by (auto simp: TcpConnection_handleRead_def elim!: bind_SomeE)
  define w1 where "w1 = w\<lparr>cn_inputBuffer := inp, cn_read_count := Suc (cn_read_count w)\<rparr>"
  have inv1: "conn_inv w1"
    by (rule conn_inv_frame [of w]) (use full in \<open>simp_all add: full_inv_def w1_def\<close>)
  then have full1: "full_inv w1"
    using full by (simp add: full_inv_def calls_ok_def w1_def)
  consider "run_callback (conn_client prog) (\<lambda>k. Call_message k t) (cn_messageCallback w1) w1 = Some w'"
    | "handleClose (conn_client prog) w1 = Some w'" | "w' = w1"
    using read w by (auto simp: TcpConnection_handleRead_def w1_def handleError_def Let_def split: if_splits)
  then show ?thesis
  proof cases
    case 1
    obtain k where "kept [Call_message k t] w1 w'"
      using callback_kept [OF inv1 1] by blast
    then show ?thesis
      using kept_full [OF full1] by simp
  qed (use handleClose_full full1 in auto)
qed

lemma conn_step_full:
  assumes full: "full_inv w" and step: "conn_step prog e w = Some w'"
  shows "full_inv w'"
proof -
  have inv: "conn_inv w"
    using full by (simp add: full_inv_def)
  have keep: "kept [] w w' \<Longrightarrow> full_inv w'"
    using kept_full [OF full, of "[]"] by simp
  show ?thesis
  proof (cases e)
    case (Client act)
    then show ?thesis
      using keep conn_act_kept [OF inv] step by simp
  next
    case (Run fn t)
    show ?thesis
    proof (cases fn)
      case (Cn_sendInLoop data)
      then show ?thesis
        using keep send_kept [OF inv] step Run
        by (auto simp: conn_run_def split: if_splits elim!: bind_SomeE)
    next
      case (Cn_writeComplete k)
      then have "conn_client prog (Call_writeComplete k) w = Some w'"
        using step Run by (simp add: conn_run_def)
      then show ?thesis
        using kept_full [OF full client_kept [OF inv]] by simp
    next
      case (Cn_highWaterMark k n)
      then have "conn_client prog (Call_highWaterMark k n) w = Some w'"
        using step Run by (simp add: conn_run_def)
      then show ?thesis
        using kept_full [OF full client_kept [OF inv]] by simp
    next
      case Cn_weakForceClose
      then have "w' = w \<or> forceClose (threadId w) w = Some w'"
        using step Run by (auto simp: conn_run_def WeakCallback_call_def split: if_splits)
      then show ?thesis
        using keep forceClose_kept [OF inv] full by auto
    next
      case Cn_handleWrite
      then show ?thesis
        using keep step Run handleWrite_inv [OF inv] by (simp add: conn_run_def kept_def)
    next
      case Cn_forceCloseInLoop
      then show ?thesis
        using step Run handleClose_full full by (auto simp: conn_run_def forceCloseInLoop_def split: if_splits)
    qed (use step Run keep full readInLoop_kept [OF inv] shutdownInLoop_kept [OF inv] handleClose_full [OF full]
        handleRead_full [OF full] connectEstablished_full [OF full] connectDestroyed_full [OF full] in
        \<open>auto simp: conn_run_def handleError_def\<close>)
  qed
qed

interpretation conn: machine "conn_step prog" full_inv for prog
  by unfold_locales (rule conn_step_full)

end
