(* ===== verification/TcpConnectionProps.thy ===== *)
theory TcpConnectionProps
  imports TcpConnectionInv
begin

section \<open>Properties of connections\<close>

text \<open>
  From the construction of a connection to its end: the output is a stream, a shutdown waits for the output,
  the callbacks of its life are called in pairs; and the case in which its destruction aborts.
\<close>

subsection \<open>New connections\<close>

text \<open>
  The loop before the connection is made: nothing is known of the socket, and a \<open>shared_ptr\<close> is going to
  own the object.
\<close>

definition conn_start :: "nat \<Rightarrow> int \<Rightarrow> addr \<Rightarrow> 'c conn_world \<Rightarrow> bool" where
  "conn_start obj fd ch w \<longleftrightarrow> registry_ok w \<and> rx_chans w ch = None \<and> rx_channels w fd = None \<and> rx_alive w obj
     \<and> cn_wire w = [] \<and> \<not> cn_shut w \<and> calls_made w = [] \<and> accepted w = []"

text \<open>The connection as \<open>newConnection\<close> of a server or a client makes it.\<close>

definition new_connection ::
    "nat \<Rightarrow> string \<Rightarrow> int \<Rightarrow> addr \<Rightarrow> 'c \<Rightarrow> 'c \<Rightarrow> 'c \<Rightarrow> 'c \<Rightarrow> 'c conn_world \<Rightarrow> 'c conn_world option" where
  "new_connection obj name fd ch connCb messageCb writeCb closeCb w = do {
     w1 \<leftarrow> TcpConnection_new obj name fd ch w;
     Some (TcpConnection_setCloseCallback closeCb (TcpConnection_setWriteCompleteCallback writeCb
       (TcpConnection_setMessageCallback messageCb (TcpConnection_setConnectionCallback connCb w1)))) }"

lemma read_masks: "has_any (ev OR kReadEvent) kReadEvent" "\<not> has_any 0 ev"
proof -
  have "kReadEvent \<noteq> 0"
    by (simp add: kReadEvent_def poll_masks)
  then show "has_any (ev OR kReadEvent) kReadEvent" "\<not> has_any 0 ev"
    by (simp_all add: has_any_def bit.conj_disj_distrib2 or_eq_0_iff)
qed

lemma ghost_frame:
  assumes "reactor.more w' = reactor.more w"
  shows "calls_made w' = calls_made w" "accepted w' = accepted w" "cn_messageCallback w' = cn_messageCallback w"
  using assms by (cases w; cases w'; simp)+

lemma TcpConnection_new_inv:
  assumes start: "conn_start obj fd ch w0" and new: "TcpConnection_new obj name fd ch w0 = Some w"
  shows "conn_inv w" and "cn_state w = kConnecting" and "calls_made w = []" and "accepted w = []"
    and "conn_abs w = \<lparr>a_state = kConnecting, a_queue = [], a_wire = [], a_shut = False, a_writes = cn_writes w0,
      a_count = cn_write_count w0\<rparr>" and "room (cn_outputBuffer w) = VEC_MAX - kCheapPrepend"
proof -
  obtain inp outp v w1 w2 w3 w4 where outp: "Buffer_new kInitialSize = Some outp" and
    v: "v = w0\<lparr>cn_obj := obj, cn_name := name, cn_state := kConnecting, cn_reading := True, cn_fd := fd,
                cn_channel := ch, cn_connectionCallback := None, cn_messageCallback := None,
                cn_writeCompleteCallback := None, cn_highWaterMarkCallback := None, cn_closeCallback := None,
                cn_highWaterMark := 64 * 1024 * 1024, cn_inputBuffer := inp, cn_outputBuffer := outp\<rparr>"
    and w1: "Channel_new ch fd v = Some w1" and w2: "setReadCallback (Fn_user Cn_handleRead) ch w1 = Some w2"
    and w3: "setWriteCallback (Fn_user Cn_handleWrite) ch w2 = Some w3"
    and w4: "setCloseCallback (Fn_user Cn_handleClose) ch w3 = Some w4"
    and w: "setErrorCallback (Fn_user Cn_handleError) ch w4 = Some w"
    using new by (auto simp: TcpConnection_new_def Let_def elim!: bind_SomeE)
  have f: "rx_chans v = rx_chans w0" "rx_channels v = rx_channels w0" "rx_ctl v = rx_ctl w0" "rx_loop v = rx_loop w0"
    "rx_alive v = rx_alive w0"
    by (simp_all add: v)
  have "registry_ok v"
    using start unfolding registry_frame [OF f(1-4)] by (simp add: conn_start_def)
  then have "registry_ok w1"
    using registry_ok_Channel_new w1 by blast
  then have reg: "registry_ok w"
    using w2 w3 w4 w by (auto simp: setter_ops dest!: registry_ok_modify [rotated 2])
  have more: "reactor.more w = reactor.more v"
    using chan_frame(1) [OF w1] w2 w3 w4 w by (auto simp: setter_ops dest!: chan_frame(3))
  have ch: "rx_chans w ch = Some ((channel_init (rx_loop w0) fd)\<lparr>ch_readCallback := Some (Fn_user Cn_handleRead),
      ch_writeCallback := Some (Fn_user Cn_handleWrite), ch_closeCallback := Some (Fn_user Cn_handleClose),
      ch_errorCallback := Some (Fn_user Cn_handleError)\<rparr>)"
    and cs: "rx_channels w = rx_channels w0" and al: "rx_alive w = rx_alive w0"
    using w1 w2 w3 w4 w f
    by (auto simp: Channel_new_def setter_ops modify_chan_def set_chan_def split: if_splits elim!: bind_SomeE)
  have cn: "cn_state w = kConnecting" "cn_channel w = ch" "cn_obj w = obj" "cn_wire w = []" "\<not> cn_shut w"
    "cn_outputBuffer w = outp" "calls_made w = []" "accepted w = []" "cn_writes w = cn_writes w0"
    "cn_write_count w = cn_write_count w0"
    using start unfolding conn_frame [OF more] ghost_frame [OF more] by (simp_all add: v conn_start_def)
  have "buffer_inv outp" "content outp = []" "room outp = VEC_MAX - kCheapPrepend"
    using outp Buffer_new_ok [of kInitialSize] by (auto simp: kInitialSize_def kCheapPrepend_def VEC_MAX_def room_def)
  then show "conn_inv w" "cn_state w = kConnecting" "calls_made w = []" "accepted w = []"
    "conn_abs w = \<lparr>a_state = kConnecting, a_queue = [], a_wire = [], a_shut = False, a_writes = cn_writes w0,
      a_count = cn_write_count w0\<rparr>" "room (cn_outputBuffer w) = VEC_MAX - kCheapPrepend"
    using reg ch cs al cn start
    by (simp_all add: conn_inv_def conn_ok_def stream_ok_def can_register_def conn_start_def channel_init_def isWriting_def
        read_masks conn_abs_def)
qed

lemma new_connection_full:
  assumes "conn_start obj fd ch w0" and "new_connection obj name fd ch connCb messageCb writeCb closeCb w0 = Some w"
  shows "full_inv w" and "cn_state w = kConnecting" and "cn_connectionCallback w = Some connCb"
    and "conn_abs w = \<lparr>a_state = kConnecting, a_queue = [], a_wire = [], a_shut = False, a_writes = cn_writes w0,
      a_count = cn_write_count w0\<rparr>" and "accepted w = []" and "room (cn_outputBuffer w) = VEC_MAX - kCheapPrepend"
proof -
  obtain w1 where w1: "TcpConnection_new obj name fd ch w0 = Some w1"
    and w: "w = w1\<lparr>cn_connectionCallback := Some connCb, cn_messageCallback := Some messageCb,
      cn_writeCompleteCallback := Some writeCb, cn_closeCallback := Some closeCb\<rparr>"
    using assms(2) by (auto simp: new_connection_def TcpConnection_setCloseCallback_def
        TcpConnection_setWriteCompleteCallback_def TcpConnection_setMessageCallback_def
        TcpConnection_setConnectionCallback_def elim!: bind_SomeE)
  note new = TcpConnection_new_inv [OF assms(1) w1]
  have "conn_inv w"
    by (rule conn_inv_frame [OF new(1)]) (simp_all add: w)
  then show "full_inv w"
    using new(2,3) by (simp add: full_inv_def calls_ok_def ups_and_downs_def w)
  show "cn_state w = kConnecting" "cn_connectionCallback w = Some connCb" "accepted w = []"
    "room (cn_outputBuffer w) = VEC_MAX - kCheapPrepend"
    "conn_abs w = \<lparr>a_state = kConnecting, a_queue = [], a_wire = [], a_shut = False, a_writes = cn_writes w0,
      a_count = cn_write_count w0\<rparr>"
    using new(2,4-) by (simp_all add: w conn_abs_def)
qed

lemma new_connection_returns:
  assumes "rx_chans w0 ch = None"
  shows "\<exists>w. new_connection obj name fd ch connCb messageCb writeCb closeCb w0 = Some w"
proof -
  obtain b where "Buffer_new kInitialSize = Some b"
    using Buffer_new_ok [of kInitialSize] by (auto simp: kInitialSize_def kCheapPrepend_def VEC_MAX_def)
  then show ?thesis
    using assms by (simp add: new_connection_def TcpConnection_new_def Let_def Channel_new_def setter_ops
        modify_chan_def set_chan_def)
qed

text \<open>A connection whose connection callback does nothing is established.\<close>

lemma connectEstablished_returns:
  assumes inv: "conn_inv w" and st: "cn_state w = kConnecting" and cb: "cn_connectionCallback w = Some k"
    and quiet: "prog (Call_connection k) = []"
  obtains w' ch where "connectEstablished (conn_client prog) w = Some w'" and "conn_inv w'"
    and "conn_abs w' = (conn_abs w)\<lparr>a_state := kConnected\<rparr>" and "accepted w' = accepted w"
    and "threadId w' = threadId w" and "rx_chans w' (cn_channel w') = Some ch" and "isReading ch"
    and "cn_outputBuffer w' = cn_outputBuffer w"
proof -
  let ?w0 = "w\<lparr>cn_state := kConnected\<rparr>"
  have inv0: "conn_inv ?w0"
    by (rule conn_inv_frame [OF inv]) (simp_all add: st)
  obtain ch0 where ch0: "rx_chans ?w0 (cn_channel w) = Some ch0"
    using inv by (auto simp: conn_inv_def conn_ok_def)
  obtain w1 where w1: "tie (cn_obj w) (cn_channel w) ?w0 = Some w1"
    using ch0 by (simp add: tie_def modify_chan_def)
  have more1: "reactor.more w1 = reactor.more ?w0" and alive1: "rx_alive w1 = rx_alive w"
    using w1 by (auto simp: tie_def modify_chan_def set_chan_def elim!: bind_SomeE)
  have inv1: "conn_inv w1"
    using tie_kept [OF inv0] w1 by (simp add: kept_def)
  obtain ch1 where ok1: "registry_ok w1" "rx_chans w1 (cn_channel w1) = Some ch1" "can_register (cn_channel w1) w1"
    using inv1 by (auto simp: conn_inv_def conn_ok_def)
  obtain w2 ch2 where w2: "set_events (\<lambda>ev. ev OR kReadEvent) (cn_channel w1) w1 = Some w2"
    "reactor.more w2 = reactor.more w1" "rx_chans w2 (cn_channel w1) = Some ch2"
    "ch_events ch2 = ch_events ch1 OR kReadEvent" "rx_alive w2 = rx_alive w1"
    using set_events_effect [OF ok1, of "\<lambda>ev. ev OR kReadEvent"] by metis
  have inv2: "conn_inv w2"
    using kept_set_events [OF inv1 w2(1)] by (simp add: kept_def mask_facts)
  have more2: "reactor.more w2 = reactor.more ?w0"
    using more1 w2(2) by simp
  note f = conn_frame [OF more2] ghost_frame [OF more2]
  let ?w' = "w2\<lparr>calls_made := calls_made w2 @ [Call_connection k]\<rparr>"
  have alive: "rx_alive w (cn_obj w)"
    using inv by (simp add: conn_inv_def)
  have "connectEstablished (conn_client prog) w = Some ?w'"
    using st w1 w2(1,5) alive alive1 quiet cb f
    by (simp add: connectEstablished_def enableReading_def run_callback_def shared_from_this_def conn_client_def)
  moreover have "conn_inv ?w'"
    by (rule conn_inv_frame [OF inv2]) simp_all
  moreover have "conn_abs ?w' = (conn_abs w)\<lparr>a_state := kConnected\<rparr>" "accepted ?w' = accepted w"
    "threadId ?w' = threadId w"
    using f by (simp_all add: conn_abs_def)
  moreover have "rx_chans ?w' (cn_channel ?w') = Some ch2" "isReading ch2"
    using w2(3,4) f conn_frame(2) [OF more1] by (simp_all add: isReading_def read_masks)
  moreover have "cn_outputBuffer ?w' = cn_outputBuffer w"
    using f by simp
  ultimately show thesis
    by (rule that)
qed

subsection \<open>Flushing\<close>

lemma a_flush_shuts:
  assumes "\<And>i. \<exists>n. a_writes a i = Inr (Suc n)" and "a_state a = kDisconnecting" and "a_queue a \<noteq> []" and "\<not> a_shut a"
  shows "\<exists>n \<le> length (a_queue a). a_shut ((a_flush ^^ n) a) \<and> a_queue ((a_flush ^^ n) a) = []"
  using assms
proof (induction "length (a_queue a)" arbitrary: a rule: less_induct)
  case less
  obtain k where k: "a_writes a (a_count a) = Inr (Suc k)"
    using less.prems(1) by blast
  let ?m = "min (Suc k) (length (a_queue a))"
  let ?a1 = "a\<lparr>a_count := Suc (a_count a), a_wire := a_wire a @ take ?m (a_queue a), a_queue := drop ?m (a_queue a)\<rparr>"
  have flush: "a_flush a = (if drop ?m (a_queue a) = [] then a_shutdown ?a1 else ?a1)"
    using less.prems(2-4) k by (simp add: a_flush_def a_write_def Let_def)
  show ?case
  proof (cases "drop ?m (a_queue a) = []")
    case True
    then have "a_shut ((a_flush ^^ 1) a)" "a_queue ((a_flush ^^ 1) a) = []"
      using flush by (simp_all add: a_shutdown_def)
    then show ?thesis
      using less.prems(3) by (intro exI [of _ 1]) (simp add: Suc_le_eq)
  next
    case False
    then have a1: "a_flush a = ?a1"
      using flush by simp
    have lt: "length (a_queue ?a1) < length (a_queue a)"
      using less.prems(3) by simp
    from less.hyps [OF lt] obtain n where n: "n \<le> length (a_queue ?a1)" "a_shut ((a_flush ^^ n) ?a1)"
      "a_queue ((a_flush ^^ n) ?a1) = []"
      using less.prems False by auto
    have "a_shut ((a_flush ^^ Suc n) a)" "a_queue ((a_flush ^^ Suc n) a) = []"
      unfolding funpow_Suc_right comp_def a1 using n(2,3) by simp_all
    then show ?thesis
      using n(1) lt by (intro exI [of _ "Suc n"]) simp
  qed
qed

lemma handleWrites_refine:
  assumes "conn_ok w" and "rx_alive w (cn_obj w)"
  shows "\<exists>w'. run_all (\<lambda>_. handleWrite) (replicate n ()) w = Some w' \<and> conn_same w w'
    \<and> conn_abs w' = (a_flush ^^ n) (conn_abs w)"
  using assms
proof (induction n arbitrary: w)
  case (Suc n)
  obtain w1 where w1: "handleWrite w = Some w1" "conn_ok w1" "conn_same w w1" "conn_abs w1 = a_flush (conn_abs w)"
    by (rule handleWrite_refines [OF Suc.prems])
  have "rx_alive w1 (cn_obj w1)"
    using w1(3) Suc.prems(2) by (simp add: conn_same_def)
  from Suc.IH [OF w1(2) this] show ?case
    using w1 conn_same_trans [OF w1(3)] unfolding funpow_Suc_right comp_def by auto
qed simp

lemma a_flushes_stream: "a_wire ((a_flush ^^ n) a) @ a_queue ((a_flush ^^ n) a) = a_wire a @ a_queue a"
  by (induction n arbitrary: a) (simp_all add: funpow_Suc_right a_flush_stream del: funpow.simps(2))

lemma accepted_same: "conn_same w w' \<Longrightarrow> accepted w' = accepted w"
  by (cases w; cases w'; simp add: conn_same_def)

subsection \<open>The properties\<close>

text \<open>
  C28: The output of a connection is a stream. Whatever a program does with a new connection and whatever
  \<open>write\<close> returns, the bytes the kernel took and then those in the output buffer are, in order and without
  loss or repetition, the messages that were accepted; the channel waits for the socket to become writable
  exactly while there is something to write; and when the writing end has been shut down on a connection
  that is not closed, everything that was accepted has been written.
\<close>

theorem output_stream:
  assumes "conn_start obj fd ch w0"
    and "new_connection obj name fd ch connCb messageCb writeCb closeCb w0 = Some w1"
    and "run_all (conn_step prog) es w1 = Some w"
  shows "cn_wire w @ content (cn_outputBuffer w) = concat (accepted w)
    \<and> (\<exists>c. rx_chans w (cn_channel w) = Some c
        \<and> (isWriting c \<longleftrightarrow> cn_state w \<noteq> kDisconnected \<and> content (cn_outputBuffer w) \<noteq> []))
    \<and> (cn_shut w \<and> cn_state w \<noteq> kDisconnected \<longrightarrow> cn_wire w = concat (accepted w))"
proof -
  have "full_inv w"
    by (rule conn.run_inv [OF new_connection_full(1) [OF assms(1,2)] assms(3)])
  then have stream: "stream_ok w" and ok: "conn_ok w"
    by (simp_all add: full_inv_def conn_inv_def)
  have "cn_shut w \<and> cn_state w \<noteq> kDisconnected \<longrightarrow> cn_wire w = concat (accepted w)"
    using stream unfolding stream_ok_def by (metis append_Nil2)
  then show ?thesis
    using stream ok by (simp add: stream_ok_def conn_ok_def)
qed

definition sample_conn :: "nat conn_world" where
  "sample_conn = tcp_connection.extend (event_loop.extend
     (timer_queue.extend (reactor.extend ((reactor_new 0)\<lparr>rx_alive := (\<lambda>_. True)\<rparr>)
     \<lparr>timerfd = 0, timerfdChannel = 0, timer_objs = Map.empty, timers = [], activeTimers = [],
      callingExpiredTimers = False, cancelingTimers = [], numCreated = 0, timerfd_calls = []\<rparr>)
     \<lparr>looping = False, quit = False, callingPendingFunctors = False, iteration = 0, threadId = 1,
      pollReturnTime = Timestamp_invalid, wakeupFd = 6, wakeupChannel = 10, pendingFunctors = [],
      wakeup_counter = 0, clock = (\<lambda>_. (Timestamp_of 2000000, Timestamp_of 2000000)), clock_reads = 0,
      loopInThisThread = None\<rparr>)
     \<lparr>cn_obj = 1, cn_name = '''', cn_state = kDisconnected, cn_reading = False, cn_fd = 9, cn_channel = 0,
      cn_connectionCallback = None, cn_messageCallback = None, cn_writeCompleteCallback = None,
      cn_highWaterMarkCallback = None, cn_closeCallback = None, cn_highWaterMark = 0,
      cn_inputBuffer = \<lparr>buf_data = [], readerIndex = 0, writerIndex = 0\<rparr>,
      cn_outputBuffer = \<lparr>buf_data = [], readerIndex = 0, writerIndex = 0\<rparr>, cn_wire = [], cn_shut = False,
      cn_writes = (\<lambda>_. Inr 2), cn_write_count = 0, cn_reads = (\<lambda>_ _. IO_Err 11), cn_read_count = 0\<rparr>)
     \<lparr>calls_made = [], accepted = []\<rparr>"

lemma sample_start: "conn_start 1 9 0 sample_conn"
proof -
  let ?r = "reactor_new 0 :: nat conn_fn Functor reactor"
  have f: "rx_chans sample_conn = rx_chans ?r" "rx_channels sample_conn = rx_channels ?r"
    "rx_ctl sample_conn = rx_ctl ?r" "rx_loop sample_conn = rx_loop ?r"
    by (simp_all add: sample_conn_def tcp_connection.extend_def event_loop.extend_def timer_queue.extend_def
        reactor.extend_def)
  have "registry_ok sample_conn"
    unfolding registry_ok_def chan_ok_def wanted_def f by (simp add: reactor_new_def fun_eq_iff)
  moreover have "cn_wire sample_conn = []" "\<not> cn_shut sample_conn" "calls_made sample_conn = []"
    "accepted sample_conn = []" "rx_alive sample_conn 1"
    by (simp_all add: sample_conn_def tcp_connection.extend_def event_loop.extend_def timer_queue.extend_def
        reactor.extend_def)
  ultimately show ?thesis
    using f(1,2) by (simp add: conn_start_def reactor_new_def)
qed

text \<open>A connection of a program whose callbacks do nothing, established.\<close>

definition quiet :: "nat conn_call \<Rightarrow> conn_action list" where
  "quiet call = []"

lemma sample_established:
  obtains w1 w2 c where "new_connection 1 ''c'' 9 0 0 1 2 3 sample_conn = Some w1"
    and "connectEstablished (conn_client quiet) w1 = Some w2" and "conn_inv w2" and "accepted w2 = []"
    and "conn_abs w2 = \<lparr>a_state = kConnected, a_queue = [], a_wire = [], a_shut = False, a_writes = (\<lambda>_. Inr 2),
      a_count = 0\<rparr>"
    and "room (cn_outputBuffer w2) = VEC_MAX - kCheapPrepend" and "full_inv w1"
proof -
  have s: "rx_chans sample_conn 0 = None" "cn_writes sample_conn = (\<lambda>_. Inr 2)" "cn_write_count sample_conn = 0"
    by (simp_all add: sample_conn_def tcp_connection.extend_def event_loop.extend_def timer_queue.extend_def
        reactor.extend_def reactor_new_def)
  obtain w1 where w1: "new_connection 1 ''c'' 9 0 0 1 2 3 sample_conn = Some w1"
    using new_connection_returns [OF s(1)] by blast
  note n = new_connection_full [OF sample_start w1]
  have inv: "conn_inv w1"
    using n(1) by (simp add: full_inv_def)
  obtain w2 where "connectEstablished (conn_client quiet) w1 = Some w2" "conn_inv w2"
    "conn_abs w2 = (conn_abs w1)\<lparr>a_state := kConnected\<rparr>" "accepted w2 = accepted w1"
    "cn_outputBuffer w2 = cn_outputBuffer w1"
    using connectEstablished_returns [OF inv n(2,3), of quiet] by (metis quiet_def)
  then show thesis
    using that [OF w1, of w2] n s by simp
qed

lemma sample_sent:
  obtains w1 w where "new_connection 1 ''c'' 9 0 0 1 2 3 sample_conn = Some w1"
    and "run_all (conn_step quiet) [Run Cn_connectEstablished Timestamp_invalid, Client (A_send [1, 2, 3])] w1 = Some w"
    and "conn_abs w = \<lparr>a_state = kConnected, a_queue = [3], a_wire = [1, 2], a_shut = False,
      a_writes = (\<lambda>_. Inr 2), a_count = 1\<rparr>" and "accepted w = [[1, 2, 3]]" and "conn_inv w"
proof -
  obtain w1 w2 where w1: "new_connection 1 ''c'' 9 0 0 1 2 3 sample_conn = Some w1"
    and w2: "connectEstablished (conn_client quiet) w1 = Some w2" "conn_inv w2" "accepted w2 = []"
    and a: "conn_abs w2 = \<lparr>a_state = kConnected, a_queue = [], a_wire = [], a_shut = False,
      a_writes = (\<lambda>_. Inr 2), a_count = 0\<rparr>"
    and room: "room (cn_outputBuffer w2) = VEC_MAX - kCheapPrepend"
    by (rule sample_established)
  have fits: "length [1, 2, 3 :: byte] \<le> room (cn_outputBuffer w2)"
    unfolding room by (simp add: VEC_MAX_def kCheapPrepend_def)
  have ok: "conn_ok w2" "rx_alive w2 (cn_obj w2)"
    using w2(2) by (simp_all add: conn_inv_def)
  obtain w3 where w3: "sendInLoop [1, 2, 3] w2 = Some w3" "conn_same w2 w3" "conn_abs w3 = a_send [1, 2, 3] (conn_abs w2)"
    by (rule sendInLoop_refines [OF ok fits])
  have "a_state (conn_abs w2) = kConnected" and acc: "a_accepts [1, 2, 3] (conn_abs w2)"
    by (simp_all add: a a_accepts_def a_write_def)
  then have st: "cn_state w2 = kConnected"
    by (simp add: conn_abs_def)
  let ?w = "note_accepted True [1, 2, 3] w3"
  have run: "run_all (conn_step quiet) [Run Cn_connectEstablished Timestamp_invalid, Client (A_send [1, 2, 3])] w1 = Some ?w"
    using w2(1) w3(1) st acc fits by (simp add: conn_run_def TcpConnection_send_def conn_runInLoop_def isInLoopThread_def)
  have "conn_abs ?w = conn_abs w3"
    by (simp add: note_accepted_def conn_abs_def)
  also have "\<dots> = \<lparr>a_state = kConnected, a_queue = [3], a_wire = [1, 2], a_shut = False,
      a_writes = (\<lambda>_. Inr 2), a_count = 1\<rparr>"
    using w3(3) a by (simp add: a_send_def a_write_def)
  finally have abs_w: "conn_abs ?w = \<lparr>a_state = kConnected, a_queue = [3], a_wire = [1, 2], a_shut = False,
      a_writes = (\<lambda>_. Inr 2), a_count = 1\<rparr>" .
  have acc_w: "accepted ?w = [[1, 2, 3]]"
    using w2(3) accepted_same [OF w3(2)] by (simp add: note_accepted_def)
  have inv_w: "conn_inv ?w"
    using send_inv(1) [OF w2(2) fits w3(1)] acc by simp
  show thesis
    by (rule that [OF w1 run abs_w acc_w inv_w])
qed

lemma output_stream_witness:
  "\<exists>w1 w. conn_start 1 9 0 sample_conn \<and> new_connection 1 ''c'' 9 0 0 1 2 3 sample_conn = Some w1
     \<and> run_all (conn_step quiet) [Run Cn_connectEstablished Timestamp_invalid, Client (A_send [1, 2, 3])] w1 = Some w
     \<and> cn_wire w = [1, 2] \<and> cn_wire w @ content (cn_outputBuffer w) = [1, 2, 3]"
proof -
  obtain w1 w where w1: "new_connection 1 ''c'' 9 0 0 1 2 3 sample_conn = Some w1"
    and run: "run_all (conn_step quiet) [Run Cn_connectEstablished Timestamp_invalid, Client (A_send [1, 2, 3])] w1
      = Some w"
    and w: "conn_abs w = \<lparr>a_state = kConnected, a_queue = [3], a_wire = [1, 2], a_shut = False,
      a_writes = (\<lambda>_. Inr 2), a_count = 1\<rparr>" "accepted w = [[1, 2, 3]]"
    by (rule sample_sent)
  have "cn_wire w = [1, 2]"
    using w(1) by (simp add: conn_abs_def)
  then show ?thesis
    using output_stream [OF sample_start w1 run] sample_start w1 run w(2) by auto
qed

text \<open>
  C29: Graceful shutdown: once \<open>shutdown()\<close> was called on an established connection, whatever was done
  with it before, handling at most as many writable events as there are bytes in the output buffer shuts
  down the writing end, with every accepted byte written, provided that \<open>write\<close> takes at least one byte
  each time.
\<close>

theorem shutdown_after_flush:
  assumes "conn_start obj fd ch w0"
    and "new_connection obj name fd ch connCb messageCb writeCb closeCb w0 = Some w1"
    and "run_all (conn_step prog) es w1 = Some w" and "cn_state w = kConnected"
    and "shutdown (threadId w) w = Some w2" and writes: "\<And>i. \<exists>n. cn_writes w2 i = Inr (Suc n)"
  shows "\<exists>n w'. n \<le> length (content (cn_outputBuffer w))
    \<and> run_all (\<lambda>_. handleWrite) (replicate n ()) w2 = Some w' \<and> cn_shut w' \<and> cn_wire w' = concat (accepted w)"
proof -
  have inv: "conn_inv w"
    using conn.run_inv [OF new_connection_full(1) [OF assms(1,2)] assms(3)] by (simp add: full_inv_def)
  let ?v = "w\<lparr>cn_state := kDisconnecting\<rparr>"
  have invv: "conn_inv ?v"
    by (rule conn_inv_frame [OF inv]) (simp_all add: assms(4))
  have sh: "shutdownInLoop ?v = Some w2"
    using assms(4,5) by (simp add: shutdown_def conn_runInLoop_def isInLoopThread_def)
  have okv: "conn_ok ?v"
    using invv by (simp add: conn_inv_def)
  obtain w2' where "shutdownInLoop ?v = Some w2'" "conn_ok w2'" "conn_same ?v w2'"
    "conn_abs w2' = a_shutdown (conn_abs ?v)"
    by (rule shutdownInLoop_refines [OF okv])
  then have w2: "conn_ok w2" "conn_same ?v w2" "conn_abs w2 = a_shutdown (conn_abs ?v)"
    using sh by simp_all
  have alive: "rx_alive w2 (cn_obj w2)"
    using invv w2(2) by (simp add: conn_inv_def conn_same_def)
  have stream: "a_wire (conn_abs w2) @ a_queue (conn_abs w2) = concat (accepted w)"
    using inv unfolding w2(3) by (auto simp: conn_inv_def stream_ok_def conn_abs_def a_shutdown_def)
  have len: "length (a_queue (conn_abs w2)) = length (content (cn_outputBuffer w))"
    using w2(3) by (simp add: conn_abs_def a_shutdown_def)
  have "\<exists>n \<le> length (a_queue (conn_abs w2)).
      a_shut ((a_flush ^^ n) (conn_abs w2)) \<and> a_queue ((a_flush ^^ n) (conn_abs w2)) = []"
  proof (cases "a_queue (conn_abs w2) = []")
    case True
    then show ?thesis
      using w2(3) by (intro exI [of _ 0]) (auto simp: a_shutdown_def split: if_splits)
  next
    case False
    then have "\<not> a_shut (conn_abs w2)"
      using inv w2(3) assms(4) by (auto simp: a_shutdown_def conn_abs_def conn_inv_def stream_ok_def split: if_splits)
    moreover have "a_state (conn_abs w2) = kDisconnecting"
      unfolding w2(3) by (simp add: conn_abs_def a_shutdown_def)
    moreover have "\<exists>n. a_writes (conn_abs w2) i = Inr (Suc n)" for i
      using writes by (simp add: conn_abs_def)
    ultimately show ?thesis
      using a_flush_shuts [OF _ _ False] by blast
  qed
  then obtain n where n: "n \<le> length (a_queue (conn_abs w2))" "a_shut ((a_flush ^^ n) (conn_abs w2))"
    "a_queue ((a_flush ^^ n) (conn_abs w2)) = []"
    by blast
  obtain w' where w': "run_all (\<lambda>_. handleWrite) (replicate n ()) w2 = Some w'"
    "conn_abs w' = (a_flush ^^ n) (conn_abs w2)"
    using handleWrites_refine [OF w2(1) alive] by blast
  have "a_shut (conn_abs w')" "a_wire (conn_abs w') = concat (accepted w)"
    using n(2,3) a_flushes_stream [of n "conn_abs w2"] stream unfolding w'(2) by simp_all
  then have "cn_shut w'" "cn_wire w' = concat (accepted w)"
    by (simp_all add: conn_abs_def)
  then show ?thesis
    using n(1) len w'(1) by auto
qed

lemma shutdown_after_flush_witness:
  "\<exists>w1 w w2 n w'. conn_start 1 9 0 sample_conn \<and> new_connection 1 ''c'' 9 0 0 1 2 3 sample_conn = Some w1
     \<and> run_all (conn_step quiet) [Run Cn_connectEstablished Timestamp_invalid, Client (A_send [1, 2, 3])] w1 = Some w
     \<and> shutdown (threadId w) w = Some w2 \<and> n \<le> 1 \<and> run_all (\<lambda>_. handleWrite) (replicate n ()) w2 = Some w'
     \<and> cn_shut w' \<and> cn_wire w' = [1, 2, 3]"
proof -
  obtain w1 w where w1: "new_connection 1 ''c'' 9 0 0 1 2 3 sample_conn = Some w1"
    and run: "run_all (conn_step quiet) [Run Cn_connectEstablished Timestamp_invalid, Client (A_send [1, 2, 3])] w1
      = Some w"
    and w: "conn_abs w = \<lparr>a_state = kConnected, a_queue = [3], a_wire = [1, 2], a_shut = False,
      a_writes = (\<lambda>_. Inr 2), a_count = 1\<rparr>" "accepted w = [[1, 2, 3]]" "conn_inv w"
    by (rule sample_sent)
  have f: "cn_state w = kConnected" "content (cn_outputBuffer w) = [3]" "cn_writes w = (\<lambda>_. Inr 2)"
    using w(1) by (simp_all add: conn_abs_def)
  obtain c where c: "rx_chans w (cn_channel w) = Some c"
    using w(3) by (auto simp: conn_inv_def conn_ok_def)
  then obtain w2 where w2: "shutdown (threadId w) w = Some w2" "cn_writes w2 = (\<lambda>_. Inr 2)"
    using f by (auto simp: shutdown_def conn_runInLoop_def isInLoopThread_def shutdownInLoop_def)
  have "\<exists>n. cn_writes w2 i = Inr (Suc n)" for i
    using w2(2) by (simp add: numeral_2_eq_2)
  from shutdown_after_flush [OF sample_start w1 run f(1) w2(1) this] obtain n w' where
    "n \<le> 1" "run_all (\<lambda>_. handleWrite) (replicate n ()) w2 = Some w'" "cn_shut w'" "cn_wire w' = [1, 2, 3]"
    using f(2) w(2) by auto
  then show ?thesis
    using sample_start w1 run w2(1) by blast
qed

text \<open>
  C30: The life of a connection. Whatever a program does with a new connection, its connection callback
  has been called once when the connection is established and twice when it is closed (up, then down), and
  never before; its close callback has been called at most once, and only when it is closed.
\<close>

theorem connection_lifecycle:
  assumes "conn_start obj fd ch w0"
    and "new_connection obj name fd ch connCb messageCb writeCb closeCb w0 = Some w1"
    and "run_all (conn_step prog) es w1 = Some w"
  shows "length (filter is_connection_call (calls_made w)) = ups_and_downs (cn_state w)
    \<and> length (filter is_close_call (calls_made w)) \<le> (if cn_state w = kDisconnected then 1 else 0)"
proof -
  have "calls_ok w"
    using conn.run_inv [OF new_connection_full(1) [OF assms(1,2)] assms(3)] by (simp add: full_inv_def)
  then show ?thesis
    by (auto simp: calls_ok_def)
qed

lemma connection_lifecycle_witness:
  "\<exists>w1 w. conn_start 1 9 0 sample_conn \<and> new_connection 1 ''c'' 9 0 0 1 2 3 sample_conn = Some w1
     \<and> run_all (conn_step quiet) [Run Cn_connectEstablished Timestamp_invalid, Client (A_send [1, 2, 3])] w1 = Some w
     \<and> length (filter is_connection_call (calls_made w)) = 1 \<and> filter is_close_call (calls_made w) = []"
proof -
  obtain w1 w where w1: "new_connection 1 ''c'' 9 0 0 1 2 3 sample_conn = Some w1"
    and run: "run_all (conn_step quiet) [Run Cn_connectEstablished Timestamp_invalid, Client (A_send [1, 2, 3])] w1
      = Some w"
    and w: "conn_abs w = \<lparr>a_state = kConnected, a_queue = [3], a_wire = [1, 2], a_shut = False,
      a_writes = (\<lambda>_. Inr 2), a_count = 1\<rparr>"
    by (rule sample_sent)
  have "cn_state w = kConnected"
    using w by (simp add: conn_abs_def)
  then show ?thesis
    using connection_lifecycle [OF sample_start w1 run] sample_start w1 run by (auto simp: ups_and_downs_def)
qed

text \<open>
  C31: A connection that is destroyed between \<open>shutdown()\<close> and the peer's closing aborts the program:
  \<open>connectDestroyed\<close> disables the events of the channel only in the state \<open>kConnected\<close>, and \<open>remove\<close>
  asserts that there are none.
\<close>

theorem connectDestroyed_aborts_after_shutdown:
  assumes "conn_start obj fd ch w0"
    and "new_connection obj name fd ch connCb messageCb writeCb closeCb w0 = Some w1"
    and "prog (Call_connection connCb) = []"
    and "connectEstablished (conn_client prog) w1 = Some w2" and "shutdown (threadId w2) w2 = Some w3"
  shows "cn_state w3 = kDisconnecting \<and> connectDestroyed (conn_client prog) w3 = None"
proof -
  note n = new_connection_full [OF assms(1,2)]
  have inv: "conn_inv w1"
    using n(1) by (simp add: full_inv_def)
  obtain c where w2: "conn_inv w2" "conn_abs w2 = (conn_abs w1)\<lparr>a_state := kConnected\<rparr>"
    "rx_chans w2 (cn_channel w2) = Some c" "isReading c"
    using connectEstablished_returns [OF inv n(2,3), of prog] assms(3,4) by (metis option.inject)
  have st: "cn_state w2 = kConnected"
    using arg_cong [OF w2(2), of a_state] by (simp add: conn_abs_def)
  have w3: "cn_state w3 = kDisconnecting" "rx_chans w3 = rx_chans w2" "cn_channel w3 = cn_channel w2"
    using assms(5) st w2(3) by (auto simp: shutdown_def conn_runInLoop_def isInLoopThread_def shutdownInLoop_def)
  have "\<not> isNoneEvent c"
    using w2(4) by (auto simp: isNoneEvent_def isReading_def kNoneEvent_def read_masks)
  then have "Channel_remove (cn_channel w3) w3 = None"
    using w3(2,3) w2(3) by (simp add: Channel_remove_def)
  then show ?thesis
    using w3(1) by (simp add: connectDestroyed_def)
qed

lemma connectDestroyed_aborts_after_shutdown_witness:
  "\<exists>w1 w2 w3. conn_start 1 9 0 sample_conn \<and> new_connection 1 ''c'' 9 0 0 1 2 3 sample_conn = Some w1
     \<and> connectEstablished (conn_client quiet) w1 = Some w2 \<and> shutdown (threadId w2) w2 = Some w3
     \<and> connectDestroyed (conn_client quiet) w3 = None"
proof -
  obtain w1 w2 where w1: "new_connection 1 ''c'' 9 0 0 1 2 3 sample_conn = Some w1"
    and w2: "connectEstablished (conn_client quiet) w1 = Some w2" "conn_inv w2"
    by (rule sample_established)
  obtain c where "rx_chans w2 (cn_channel w2) = Some c"
    using w2(2) by (auto simp: conn_inv_def conn_ok_def)
  then obtain w3 where w3: "shutdown (threadId w2) w2 = Some w3"
    by (cases "shutdown (threadId w2) w2")
      (auto simp: shutdown_def conn_runInLoop_def isInLoopThread_def shutdownInLoop_def split: if_splits)
  have "quiet (Call_connection 0) = []"
    by (simp add: quiet_def)
  from connectDestroyed_aborts_after_shutdown [OF sample_start w1 this w2(1) w3] show ?thesis
    using sample_start w1 w2(1) w3 by blast
qed

end
