(* ===== verification/Monitor.thy ===== *)
theory Monitor
  imports Prelude "HOL-Library.Multiset"
begin

section \<open>Mutexes, conditions and monitors\<close>

text \<open>
  \<open>MutexLock\<close> and \<open>Condition\<close> of base/mutex.h and base/condition.h, and threads that call the methods of an
  object that is protected by one mutex, interleaved in every way. A locale states what the methods of a
  producer-consumer queue promise; mutual exclusion, the order of the elements, the bound and that no
  notification is lost follow once for the blocking queues and the thread pool.
\<close>

subsection \<open>\<open>MutexLock\<close>\<close>

text \<open>The \<open>pthread\<close> mutex and the thread that holds it, 0 when there is none.\<close>

record mutex_lock =
  mx_locked :: bool
  mx_holder :: nat

definition MutexLock_new :: mutex_lock where
  "MutexLock_new = \<lparr>mx_locked = False, mx_holder = 0\<rparr>"

definition MutexLock_destroy :: "mutex_lock \<Rightarrow> unit option" where
  "MutexLock_destroy m = assert_that (mx_holder m = 0)"

definition isLockedByThisThread :: "nat \<Rightarrow> mutex_lock \<Rightarrow> bool" where
  "isLockedByThisThread tid m \<longleftrightarrow> mx_holder m = tid"

definition assertLocked :: "nat \<Rightarrow> mutex_lock \<Rightarrow> unit option" where
  "assertLocked tid m = assert_that (isLockedByThisThread tid m)"

definition unassignHolder :: "mutex_lock \<Rightarrow> mutex_lock" where
  "unassignHolder m = m\<lparr>mx_holder := 0\<rparr>"

definition assignHolder :: "nat \<Rightarrow> mutex_lock \<Rightarrow> mutex_lock" where
  "assignHolder tid m = m\<lparr>mx_holder := tid\<rparr>"

text \<open>\<open>lock\<close> from the moment the \<open>pthread\<close> mutex is free.\<close>

definition MutexLock_lock :: "nat \<Rightarrow> mutex_lock \<Rightarrow> mutex_lock" where
  "MutexLock_lock tid m = assignHolder tid (m\<lparr>mx_locked := True\<rparr>)"

definition MutexLock_unlock :: "mutex_lock \<Rightarrow> mutex_lock" where
  "MutexLock_unlock m = (unassignHolder m)\<lparr>mx_locked := False\<rparr>"

subsection \<open>\<open>Condition\<close>\<close>

text \<open>
  A method that locks a \<open>MutexLockGuard\<close> runs up to a call of \<open>wait()\<close> or to its end without being
  interrupted by another method of the object. Such a section either waits for a condition, in which case
  the method starts again at the test of its loop when it has the mutex again, or it returns, with a
  result, the new members and the notifications it has given.
\<close>

datatype 'c signal = Notify 'c | NotifyAll 'c

datatype ('c, 'r, 's) outcome = Wait 'c | Return 'r 's "'c signal list"

type_synonym ('o, 's, 'c, 'r) sections =
  "nat \<Rightarrow> 'o \<Rightarrow> mutex_lock \<Rightarrow> 's \<Rightarrow> ('c, 'r, 's) outcome option"

text \<open>
  A monitor: an object with its mutex, the calls that want the mutex (\<open>entering\<close>), the one that has it
  (\<open>inside\<close>), those that wait for a condition, and the finished ones with their results, in order. A call
  is the calling thread with the method.
\<close>

record ('o, 's, 'c, 'r) monitor =
  mon_mutex :: mutex_lock
  mon_state :: 's
  entering :: "(nat \<times> 'o) multiset"
  inside :: "(nat \<times> 'o) option"
  sleeping :: "('c \<times> nat \<times> 'o) multiset"
  finished :: "('o \<times> 'r) list"

text \<open>
  The effect of a notification on the calls that want the mutex and those that wait: \<open>notify\<close> wakes one
  of the waiting calls if there is one, \<open>notifyAll\<close> all.
\<close>

inductive wake ::
    "'c signal \<Rightarrow> (nat \<times> 'o) multiset \<times> ('c \<times> nat \<times> 'o) multiset
      \<Rightarrow> (nat \<times> 'o) multiset \<times> ('c \<times> nat \<times> 'o) multiset \<Rightarrow> bool" where
  notify: "(c, p) \<in># sl \<Longrightarrow> wake (Notify c) (en, sl) (add_mset p en, sl - {#(c, p)#})"
| notify_nobody: "\<forall>p. (c, p) \<notin># sl \<Longrightarrow> wake (Notify c) (en, sl) (en, sl)"
| notifyAll: "wake (NotifyAll c) (en, sl)
    (en + image_mset snd (filter_mset (\<lambda>x. fst x = c) sl), filter_mset (\<lambda>x. fst x \<noteq> c) sl)"

inductive wakes ::
    "'c signal list \<Rightarrow> (nat \<times> 'o) multiset \<times> ('c \<times> nat \<times> 'o) multiset
      \<Rightarrow> (nat \<times> 'o) multiset \<times> ('c \<times> nat \<times> 'o) multiset \<Rightarrow> bool" where
  wakes_none: "wakes [] x x"
| wakes_some: "wake sig x y \<Longrightarrow> wakes sigs y z \<Longrightarrow> wakes (sig # sigs) x z"

text \<open>
  The threads interleaved: a thread calls a method, gets the mutex, runs the section up to \<open>wait()\<close> or to
  the end; \<open>pthread_cond_wait\<close> may also return spuriously.
\<close>

inductive mon_run ::
    "('o, 's, 'c, 'r) sections \<Rightarrow> ('o, 's, 'c, 'r) monitor \<Rightarrow> ('o, 's, 'c, 'r) monitor \<Rightarrow> bool"
  for sec where
  acquire: "\<not> mx_locked (mon_mutex m) \<Longrightarrow> p \<in># entering m
    \<Longrightarrow> mon_run sec m (m\<lparr>mon_mutex := MutexLock_lock (fst p) (mon_mutex m), entering := entering m - {#p#},
          inside := Some p\<rparr>)"
| wait: "inside m = Some p \<Longrightarrow> sec (fst p) (snd p) (mon_mutex m) (mon_state m) = Some (Wait c)
    \<Longrightarrow> mon_run sec m (m\<lparr>mon_mutex := MutexLock_unlock (mon_mutex m), inside := None,
          sleeping := add_mset (c, p) (sleeping m)\<rparr>)"
| leave: "inside m = Some p \<Longrightarrow> sec (fst p) (snd p) (mon_mutex m) (mon_state m) = Some (Return r s sigs)
    \<Longrightarrow> wakes sigs (entering m, sleeping m) (en, sl)
    \<Longrightarrow> mon_run sec m (m\<lparr>mon_mutex := MutexLock_unlock (mon_mutex m), mon_state := s, inside := None,
          entering := en, sleeping := sl, finished := finished m @ [(snd p, r)]\<rparr>)"
| spurious: "(c, p) \<in># sleeping m
    \<Longrightarrow> mon_run sec m (m\<lparr>entering := add_mset p (entering m), sleeping := sleeping m - {#(c, p)#}\<rparr>)"

definition call_op :: "nat \<Rightarrow> 'o \<Rightarrow> ('o, 's, 'c, 'r) monitor \<Rightarrow> ('o, 's, 'c, 'r) monitor" where
  "call_op tid op m = m\<lparr>entering := add_mset (tid, op) (entering m)\<rparr>"

inductive mon_step ::
    "('o, 's, 'c, 'r) sections \<Rightarrow> ('o, 's, 'c, 'r) monitor \<Rightarrow> ('o, 's, 'c, 'r) monitor \<Rightarrow> bool"
  for sec where
  call: "tid \<noteq> 0 \<Longrightarrow> mon_step sec m (call_op tid op m)"
| run: "mon_run sec m m' \<Longrightarrow> mon_step sec m m'"

lemma mon_stepE [consumes 1, case_names call acquire wait leave spurious]:
  assumes "mon_step sec m m'"
  obtains tid op where "m' = m\<lparr>entering := add_mset (tid, op) (entering m)\<rparr>" and "tid \<noteq> 0"
  | p where "m' = m\<lparr>mon_mutex := MutexLock_lock (fst p) (mon_mutex m), entering := entering m - {#p#},
        inside := Some p\<rparr>" and "\<not> mx_locked (mon_mutex m)" and "p \<in># entering m"
  | p c where "m' = m\<lparr>mon_mutex := MutexLock_unlock (mon_mutex m), inside := None,
        sleeping := add_mset (c, p) (sleeping m)\<rparr>" and "inside m = Some p"
      and "sec (fst p) (snd p) (mon_mutex m) (mon_state m) = Some (Wait c)"
  | p r s sigs en sl where "m' = m\<lparr>mon_mutex := MutexLock_unlock (mon_mutex m), mon_state := s, inside := None,
        entering := en, sleeping := sl, finished := finished m @ [(snd p, r)]\<rparr>" and "inside m = Some p"
      and "sec (fst p) (snd p) (mon_mutex m) (mon_state m) = Some (Return r s sigs)"
      and "wakes sigs (entering m, sleeping m) (en, sl)"
  | c p where "m' = m\<lparr>entering := add_mset p (entering m), sleeping := sleeping m - {#(c, p)#}\<rparr>"
      and "(c, p) \<in># sleeping m"
  using assms
proof cases
  case run
  from run show thesis
  proof cases
    case (acquire p)
    then show thesis by (rule that(2))
  next
    case (wait p c)
    then show thesis by (rule that(3))
  next
    case (leave p r s sigs en sl)
    then show thesis by (rule that(4))
  next
    case (spurious c p)
    then show thesis by (rule that(5))
  qed
next
  case (call tid op)
  then show thesis
    unfolding call_op_def by (rule that(1))
qed

inductive_cases wake_NotifyE: "wake (Notify c) x y"
inductive_cases wake_NotifyAllE: "wake (NotifyAll c) x y"
inductive_cases wakes_ConsE: "wakes (sig # sigs) x z"
inductive_simps wakes_Nil [simp]: "wakes [] x y"

definition mon_start :: "'s \<Rightarrow> ('o, 's, 'c, 'r) monitor" where
  "mon_start s = \<lparr>mon_mutex = MutexLock_new, mon_state = s, entering = {#}, inside = None, sleeping = {#},
     finished = []\<rparr>"

subsection \<open>Notifications\<close>

text \<open>The calls that have the mutex or want it: they need no notification to go on.\<close>

definition awake :: "('o, 's, 'c, 'r) monitor \<Rightarrow> (nat \<times> 'o) multiset" where
  "awake m = entering m + (case inside m of None \<Rightarrow> {#} | Some p \<Rightarrow> {#p#})"

lemma wake_only_moves: "wake sig (en, sl) (en', sl') \<Longrightarrow> en \<subseteq># en' \<and> sl' \<subseteq># sl"
  by (induction sig "(en, sl)" "(en', sl')" rule: wake.induct) auto

lemma wakes_only_moves: "wakes sigs (en, sl) (en', sl') \<Longrightarrow> en \<subseteq># en' \<and> sl' \<subseteq># sl"
proof (induction sigs arbitrary: en sl)
  case (Cons sig sigs)
  obtain e s where "wake sig (en, sl) (e, s)" and "wakes sigs (e, s) (en', sl')"
    using Cons.prems by (auto elim!: wakes_ConsE)
  then show ?case
    using Cons.IH wake_only_moves by (meson subset_mset.order_trans)
qed simp

text \<open>After a \<open>notify\<close> nobody waits for the condition any more, or one more call is awake.\<close>

lemma notify_wakes:
  assumes "wakes sigs (en, sl) (en', sl')" and "Notify c \<in> set sigs"
  shows "(\<forall>p. (c, p) \<notin># sl') \<or> (\<exists>p. (c, p) \<in># sl \<and> add_mset p en \<subseteq># en')"
  using assms
proof (induction sigs arbitrary: en sl)
  case (Cons sig sigs)
  obtain e s where first: "wake sig (en, sl) (e, s)" and rest: "wakes sigs (e, s) (en', sl')"
    using Cons.prems(1) by (auto elim!: wakes_ConsE)
  note moved = wake_only_moves [OF first] wakes_only_moves [OF rest]
  show ?case
  proof (cases "sig = Notify c")
    case True
    with first show ?thesis
      using moved by (auto elim!: wake_NotifyE dest: mset_subset_eqD)
  next
    case False
    then have "Notify c \<in> set sigs"
      using Cons.prems(2) by auto
    from Cons.IH [OF rest this] show ?thesis
      using moved by (meson mset_subset_eqD mset_subset_eq_add_mset_cancel subset_mset.order_trans)
  qed
qed simp

lemma notifyAll_wakes:
  assumes "wakes sigs (en, sl) (en', sl')" and "NotifyAll c \<in> set sigs"
  shows "(c, p) \<notin># sl'"
  using assms
proof (induction sigs arbitrary: en sl)
  case (Cons sig sigs)
  obtain e s where first: "wake sig (en, sl) (e, s)" and rest: "wakes sigs (e, s) (en', sl')"
    using Cons.prems(1) by (auto elim!: wakes_ConsE)
  show ?case
  proof (cases "sig = NotifyAll c")
    case True
    then have "(c, p) \<notin># s"
      using first by (auto elim!: wake_NotifyAllE)
    then show ?thesis
      using wakes_only_moves [OF rest] by (meson mset_subset_eqD)
  next
    case False
    then show ?thesis
      using Cons.prems(2) Cons.IH [OF rest] by auto
  qed
qed simp

subsection \<open>Mutual exclusion\<close>

text \<open>The mutex is locked exactly while a call is inside, and its holder is the thread of that call.\<close>

definition lock_ok :: "('o, 's, 'c, 'r) monitor \<Rightarrow> bool" where
  "lock_ok m \<longleftrightarrow> mon_mutex m = (case inside m of None \<Rightarrow> MutexLock_new
     | Some p \<Rightarrow> \<lparr>mx_locked = True, mx_holder = fst p\<rparr>)"

lemmas mutex_ops = MutexLock_new_def MutexLock_lock_def MutexLock_unlock_def assignHolder_def unassignHolder_def

lemma step_lock_ok:
  assumes "lock_ok m" and "mon_step sec m m'"
  shows "lock_ok m'"
  using assms(2)
  by (cases rule: mon_stepE) (use assms(1) in \<open>auto simp: lock_ok_def mutex_ops split: option.splits\<close>)

lemma acquire_inside: "lock_ok m \<Longrightarrow> \<not> mx_locked (mon_mutex m) \<Longrightarrow> inside m = None"
  by (auto simp: lock_ok_def split: option.splits)

subsection \<open>Monitors around a queue\<close>

text \<open>The elements put and taken by a series of finished calls, and how many calls are of a kind.\<close>

definition put_values :: "('o \<Rightarrow> 'a option) \<Rightarrow> ('o \<times> 'r) list \<Rightarrow> 'a list" where
  "put_values put_of h = List.map_filter (\<lambda>(op, r). put_of op) h"

definition taken_values :: "('o \<Rightarrow> bool) \<Rightarrow> ('o \<times> 'a option) list \<Rightarrow> 'a list" where
  "taken_values takes h = List.map_filter (\<lambda>(op, r). if takes op then r else None) h"

definition is_put :: "('o \<Rightarrow> 'a option) \<Rightarrow> 'o \<Rightarrow> bool" where
  "is_put put_of op \<longleftrightarrow> put_of op \<noteq> None"

definition calls_of :: "('o \<Rightarrow> bool) \<Rightarrow> (nat \<times> 'o) multiset \<Rightarrow> nat" where
  "calls_of kind ps = size (filter_mset (\<lambda>p. kind (snd p)) ps)"

text \<open>
  What the methods of a producer-consumer queue promise: \<open>put_of\<close> tells which methods put something,
  \<open>takes\<close> which ones take. A method waits for \<open>ne\<close> only when it takes and the queue is empty, for \<open>nf\<close> only
  when it puts and the queue is at its bound; putting appends at the end and notifies \<open>ne\<close>; taking removes
  the front and, when there is a bound, notifies \<open>nf\<close>, or returns nothing from an empty queue.
\<close>

locale queue_monitor =
  fixes sec :: "('o, 's, 'c, 'a option) sections"
    and content_of :: "'s \<Rightarrow> 'a list"
    and bound_of :: "'s \<Rightarrow> nat option"
    and put_of :: "'o \<Rightarrow> 'a option"
    and takes :: "'o \<Rightarrow> bool"
    and ne nf :: 'c
    and ok :: "'s \<Rightarrow> bool"
  assumes conds: "ne \<noteq> nf"
    and not_both: "takes op \<Longrightarrow> put_of op = None"
    and waits: "ok s \<Longrightarrow> sec tid op mx s = Some (Wait c) \<Longrightarrow>
      c = ne \<and> takes op \<and> content_of s = []
      \<or> c = nf \<and> put_of op \<noteq> None \<and> bound_of s = Some (length (content_of s))"
    and puts: "ok s \<Longrightarrow> sec tid op mx s = Some (Return r s' sigs) \<Longrightarrow> put_of op = Some x \<Longrightarrow>
      content_of s' = content_of s @ [x] \<and> bound_of s \<noteq> Some (length (content_of s))
      \<and> Notify ne \<in> set sigs \<and> r = None"
    and taken: "ok s \<Longrightarrow> sec tid op mx s = Some (Return r s' sigs) \<Longrightarrow> takes op \<Longrightarrow>
      (case r of Some x \<Rightarrow> content_of s = x # content_of s' \<and> (bound_of s \<noteq> None \<longrightarrow> Notify nf \<in> set sigs)
       | None \<Rightarrow> content_of s = [] \<and> content_of s' = [])"
    and others: "ok s \<Longrightarrow> sec tid op mx s = Some (Return r s' sigs) \<Longrightarrow> put_of op = None \<Longrightarrow> \<not> takes op \<Longrightarrow>
      content_of s' = content_of s"
    and keeps: "ok s \<Longrightarrow> sec tid op mx s = Some (Return r s' sigs) \<Longrightarrow> ok s' \<and> bound_of s' = bound_of s"
begin

abbreviation takers :: "(nat \<times> 'o) multiset \<Rightarrow> nat" where
  "takers ps \<equiv> calls_of takes ps"

abbreviation putters :: "(nat \<times> 'o) multiset \<Rightarrow> nat" where
  "putters ps \<equiv> calls_of (is_put put_of) ps"

text \<open>The order of the elements is kept and the bound is respected.\<close>

definition fifo_ok :: "('o, 's, 'c, 'a option) monitor \<Rightarrow> bool" where
  "fifo_ok m \<longleftrightarrow> ok (mon_state m)
     \<and> put_values put_of (finished m) = taken_values takes (finished m) @ content_of (mon_state m)
     \<and> (\<forall>n. bound_of (mon_state m) = Some n \<longrightarrow> length (content_of (mon_state m)) \<le> n)"

text \<open>
  No notification is lost: while somebody waits for \<open>ne\<close> there are at least as many takers awake as there
  are elements, while somebody waits for \<open>nf\<close> at least as many putters as there are free places.
\<close>

definition wake_ok :: "('o, 's, 'c, 'a option) monitor \<Rightarrow> bool" where
  "wake_ok m \<longleftrightarrow>
     (\<forall>c p. (c, p) \<in># sleeping m \<longrightarrow> c = ne \<and> takes (snd p) \<or> c = nf \<and> put_of (snd p) \<noteq> None)
     \<and> ((\<exists>p. (ne, p) \<in># sleeping m) \<longrightarrow> length (content_of (mon_state m)) \<le> takers (awake m))
     \<and> ((\<exists>p. (nf, p) \<in># sleeping m) \<longrightarrow>
          (\<forall>n. bound_of (mon_state m) = Some n \<longrightarrow> n - length (content_of (mon_state m)) \<le> putters (awake m)))"

definition queue_inv :: "('o, 's, 'c, 'a option) monitor \<Rightarrow> bool" where
  "queue_inv m \<longleftrightarrow> lock_ok m \<and> fifo_ok m \<and> wake_ok m"

lemma counts_mono:
  "ps \<subseteq># qs \<Longrightarrow> takers ps \<le> takers qs" "ps \<subseteq># qs \<Longrightarrow> putters ps \<le> putters qs"
  unfolding calls_of_def by (intro size_mset_mono multiset_filter_mono; assumption)+

lemma counts_add:
  "takers (add_mset p ps) = takers ps + (if takes (snd p) then 1 else 0)"
  "putters (add_mset p ps) = putters ps + (if put_of (snd p) = None then 0 else 1)"
  by (simp_all add: calls_of_def is_put_def)

lemma history_snoc:
  "put_values put_of (h @ [(op, r)]) = put_values put_of h @ (case put_of op of None \<Rightarrow> [] | Some x \<Rightarrow> [x])"
  "taken_values takes (h @ [(op, r)]) = taken_values takes h @ (if takes op then case r of None \<Rightarrow> [] | Some x \<Rightarrow> [x] else [])"
  by (simp_all add: put_values_def taken_values_def List.map_filter_def split: option.split)

lemma leave_fifo:
  assumes fifo: "fifo_ok m" and ret: "sec (fst p) (snd p) (mon_mutex m) (mon_state m) = Some (Return r s sigs)"
    and m': "mon_state m' = s" "finished m' = finished m @ [(snd p, r)]"
  shows "fifo_ok m'"
proof -
  have ok: "ok (mon_state m)"
    using fifo by (simp add: fifo_ok_def)
  consider x where "put_of (snd p) = Some x" "\<not> takes (snd p)" | "takes (snd p)" "put_of (snd p) = None"
    | "put_of (snd p) = None" "\<not> takes (snd p)"
    using not_both [of "snd p"] by (cases "put_of (snd p)") auto
  then show ?thesis
  proof cases
    case 1
    then show ?thesis
      using fifo puts [OF ok ret 1(1)] keeps [OF ok ret] m' 
      by (auto simp: fifo_ok_def history_snoc le_less)
  next
    case 2
    then show ?thesis
      using fifo taken [OF ok ret 2(1)] keeps [OF ok ret] m'
      by (auto simp: fifo_ok_def history_snoc split: option.splits)
  next
    case 3
    then show ?thesis
      using fifo others [OF ok ret 3] keeps [OF ok ret] m'
      by (auto simp: fifo_ok_def history_snoc)
  qed
qed

end

context queue_monitor
begin

lemma wake_okD:
  assumes "wake_ok m"
  shows "(c, p) \<in># sleeping m \<Longrightarrow> c = ne \<and> takes (snd p) \<or> c = nf \<and> put_of (snd p) \<noteq> None"
    and "(ne, p) \<in># sleeping m \<Longrightarrow> length (content_of (mon_state m)) \<le> takers (awake m)"
    and "(nf, p) \<in># sleeping m \<Longrightarrow> bound_of (mon_state m) = Some n
      \<Longrightarrow> n - length (content_of (mon_state m)) \<le> putters (awake m)"
  using assms unfolding wake_ok_def by blast+

lemma wake_okI:
  assumes "\<And>c p. (c, p) \<in># sleeping m \<Longrightarrow> c = ne \<and> takes (snd p) \<or> c = nf \<and> put_of (snd p) \<noteq> None"
    and "\<And>p. (ne, p) \<in># sleeping m \<Longrightarrow> length (content_of (mon_state m)) \<le> takers (awake m)"
    and "\<And>p n. (nf, p) \<in># sleeping m \<Longrightarrow> bound_of (mon_state m) = Some n
      \<Longrightarrow> n - length (content_of (mon_state m)) \<le> putters (awake m)"
  shows "wake_ok m"
  using assms unfolding wake_ok_def by blast

lemma leave_wake:
  assumes inv: "queue_inv m" and p: "inside m = Some p"
    and ret: "sec (fst p) (snd p) (mon_mutex m) (mon_state m) = Some (Return r s sigs)"
    and wk: "wakes sigs (entering m, sleeping m) (en, sl)"
    and m': "mon_state m' = s" "entering m' = en" "sleeping m' = sl" "inside m' = None"
  shows "wake_ok m'"
proof -
  have ok: "ok (mon_state m)" and wok: "wake_ok m"
    using inv by (simp_all add: queue_inv_def fifo_ok_def)
  note sub = wakes_only_moves [OF wk]
  have old: "x \<in># sl \<Longrightarrow> x \<in># sleeping m" for x
    using sub by (blast dest: mset_subset_eqD)
  have typed: "\<And>c q. (c, q) \<in># sl \<Longrightarrow> c = ne \<and> takes (snd q) \<or> c = nf \<and> put_of (snd q) \<noteq> None"
    using wake_okD(1) [OF wok] old by blast
  have aw: "awake m = add_mset p (entering m)" "awake m' = en"
    using p m' by (simp_all add: awake_def)
  have mono: "takers (entering m) \<le> takers en" "putters (entering m) \<le> putters en"
    using counts_mono sub by blast+
  let ?q = "content_of (mon_state m)"
  have bound: "bound_of s = bound_of (mon_state m)"
    using keeps [OF ok ret] by blast
  have old_ne: "length ?q \<le> takers (entering m) + (if takes (snd p) then 1 else 0)" if "(ne, q) \<in># sl" for q
    using wake_okD(2) [OF wok old [OF that]] by (simp add: aw counts_add)
  have old_nf: "n - length ?q \<le> putters (entering m) + (if put_of (snd p) = None then 0 else 1)"
    if "(nf, q) \<in># sl" "bound_of (mon_state m) = Some n" for q n
    using wake_okD(3) [OF wok old [OF that(1)] that(2)] by (simp add: aw counts_add)
  have more_ne: "takers (entering m) < takers en" if n: "Notify ne \<in> set sigs" and q: "(ne, q) \<in># sl" for q
  proof -
    obtain q' where q': "(ne, q') \<in># sleeping m" "add_mset q' (entering m) \<subseteq># en"
      using notify_wakes [OF wk n] q by blast
    then have "takes (snd q')"
      using wake_okD(1) [OF wok] conds by blast
    then show ?thesis
      using counts_mono(1) [OF q'(2)] by (simp add: counts_add)
  qed
  have more_nf: "putters (entering m) < putters en" if n: "Notify nf \<in> set sigs" and q: "(nf, q) \<in># sl" for q
  proof -
    obtain q' where q': "(nf, q') \<in># sleeping m" "add_mset q' (entering m) \<subseteq># en"
      using notify_wakes [OF wk n] q by blast
    then have "put_of (snd q') \<noteq> None"
      using wake_okD(1) [OF wok] conds by blast
    then show ?thesis
      using counts_mono(2) [OF q'(2)] by (auto simp: counts_add split: if_splits)
  qed
  have "length (content_of s) \<le> takers en" if q: "(ne, q) \<in># sl" for q
  proof (cases "put_of (snd p)")
    case (Some x)
    then show ?thesis
      using puts [OF ok ret Some] old_ne [OF q] more_ne [OF _ q] not_both [of "snd p"] by (cases "takes (snd p)") simp_all
  next
    case None
    show ?thesis
    proof (cases "takes (snd p)")
      case True
      then show ?thesis
        using taken [OF ok ret True] old_ne [OF q] mono(1) by (auto split: option.splits)
    next
      case False
      then show ?thesis
        using others [OF ok ret None False] old_ne [OF q] mono(1) by simp
    qed
  qed
  moreover have "n - length (content_of s) \<le> putters en" if q: "(nf, q) \<in># sl" "bound_of s = Some n" for q n
  proof -
    have b: "bound_of (mon_state m) = Some n"
      using bound q(2) by simp
    note old = old_nf [OF q(1) b]
    show ?thesis
    proof (cases "put_of (snd p)")
      case (Some x)
      then show ?thesis
        using puts [OF ok ret Some] old mono(2) by auto
    next
      case None
      show ?thesis
      proof (cases "takes (snd p)")
        case True
        then show ?thesis
          using taken [OF ok ret True] old mono(2) more_nf [OF _ q(1)] b None by (auto split: option.splits)
      next
        case False
        then show ?thesis
          using others [OF ok ret None False] old mono(2) None by simp
      qed
    qed
  qed
  ultimately show ?thesis
    using typed by (intro wake_okI) (simp_all add: m' aw(2))
qed

lemma wait_wake:
  assumes inv: "queue_inv m" and p: "inside m = Some p"
    and ret: "sec (fst p) (snd p) (mon_mutex m) (mon_state m) = Some (Wait c)"
    and m': "mon_state m' = mon_state m" "entering m' = entering m" "sleeping m' = add_mset (c, p) (sleeping m)"
      "inside m' = None"
  shows "wake_ok m'"
proof -
  have ok: "ok (mon_state m)" and wok: "wake_ok m"
    using inv by (simp_all add: queue_inv_def fifo_ok_def)
  have aw: "awake m = add_mset p (entering m)" "awake m' = entering m"
    using p m' by (simp_all add: awake_def)
  from waits [OF ok ret] show ?thesis
  proof (elim disjE conjE)
    assume c: "c = ne" "takes (snd p)" "content_of (mon_state m) = []"
    then have "put_of (snd p) = None"
      using not_both by blast
    then show ?thesis
      using c conds wake_okD [OF wok] by (intro wake_okI) (auto simp: m' aw counts_add)
  next
    assume c: "c = nf" "put_of (snd p) \<noteq> None" "bound_of (mon_state m) = Some (length (content_of (mon_state m)))"
    then have "\<not> takes (snd p)"
      using not_both by auto
    then show ?thesis
      using c conds wake_okD [OF wok] by (intro wake_okI) (auto simp: m' aw counts_add)
  qed
qed

lemma awake_more:
  assumes "wake_ok m" and "mon_state m' = mon_state m" and "awake m \<subseteq># awake m'" and "sleeping m' \<subseteq># sleeping m"
  shows "wake_ok m'"
proof -
  have sub: "x \<in># sleeping m' \<Longrightarrow> x \<in># sleeping m" for x
    using assms(4) by (rule mset_subset_eqD)
  show ?thesis
  proof (rule wake_okI, goal_cases)
    case (1 c p)
    then show ?case
      using wake_okD(1) [OF assms(1) sub] by blast
  next
    case (2 p)
    then show ?case
      using wake_okD(2) [OF assms(1) sub] counts_mono(1) [OF assms(3)] by (fastforce simp: assms(2))
  next
    case (3 p n)
    then show ?case
      using wake_okD(3) [OF assms(1) sub] counts_mono(2) [OF assms(3)] by (fastforce simp: assms(2))
  qed
qed

lemma step_wake:
  assumes inv: "queue_inv m" and step: "mon_step sec m m'"
  shows "wake_ok m'"
  using step
proof (cases rule: mon_stepE)
  case (acquire p)
  have "inside m = None"
    using inv acquire(2) acquire_inside by (auto simp: queue_inv_def)
  then show ?thesis
    using inv acquire by (intro awake_more [of m m']) (auto simp: queue_inv_def awake_def)
next
  case (wait p c)
  then show ?thesis
    by (intro wait_wake [OF inv wait(2,3)]) simp_all
next
  case (leave p r s sigs en sl)
  then show ?thesis
    by (intro leave_wake [OF inv leave(2-4)]) simp_all
next
  case (call tid op)
  then show ?thesis
    using inv by (intro awake_more [of m m']) (simp_all add: queue_inv_def awake_def)
next
  case (spurious c p)
  then show ?thesis
    using inv by (intro awake_more [of m m']) (simp_all add: queue_inv_def awake_def)
qed

lemma step_fifo:
  assumes inv: "queue_inv m" and step: "mon_step sec m m'"
  shows "fifo_ok m'"
proof -
  have fifo: "fifo_ok m"
    using inv by (simp add: queue_inv_def)
  have same: "fifo_ok m'" if "mon_state m' = mon_state m" "finished m' = finished m"
    using fifo unfolding fifo_ok_def that .
  from step show ?thesis
  proof (cases rule: mon_stepE)
    case (leave p r s sigs en sl)
    show ?thesis
      by (rule leave_fifo [OF fifo leave(3)]) (simp_all add: leave(1))
  qed (rule same; simp)+
qed

end

text \<open>Every monitor around a queue is a transition system with that invariant.\<close>

sublocale queue_monitor \<subseteq> transition_system
  "\<lambda>m. \<exists>s. m = mon_start s \<and> ok s \<and> content_of s = []" "mon_step sec" queue_inv
proof unfold_locales
  fix m :: "('o, 's, 'c, 'a option) monitor"
  assume "\<exists>s. m = mon_start s \<and> ok s \<and> content_of s = []"
  then obtain s where m: "m = mon_start s" and s: "ok s" "content_of s = []"
    by blast
  have "lock_ok m" "fifo_ok m" "wake_ok m"
    using s by (simp_all add: m lock_ok_def fifo_ok_def wake_ok_def mon_start_def put_values_def taken_values_def
        List.map_filter_def)
  then show "queue_inv m"
    by (simp add: queue_inv_def)
next
  fix m m' :: "('o, 's, 'c, 'a option) monitor"
  assume inv: "queue_inv m" and step: "mon_step sec m m'"
  have "lock_ok m"
    using inv by (simp add: queue_inv_def)
  then have "lock_ok m'"
    using step by (rule step_lock_ok)
  then show "queue_inv m'"
    using step_fifo [OF inv step] step_wake [OF inv step] by (simp add: queue_inv_def)
qed

text \<open>What follows for a call that waits: if it could go on, another of its kind is awake.\<close>

context queue_monitor
begin

lemma awake_some: "0 < calls_of kind (awake m) \<Longrightarrow> \<exists>p. p \<in># awake m \<and> kind (snd p)"
proof -
  assume "0 < calls_of kind (awake m)"
  then have "filter_mset (\<lambda>p. kind (snd p)) (awake m) \<noteq> {#}"
    unfolding calls_of_def nonempty_has_size .
  then obtain p where "p \<in># filter_mset (\<lambda>p. kind (snd p)) (awake m)"
    by (rule multiset_nonemptyE)
  then have "p \<in># awake m \<and> kind (snd p)"
    by simp
  then show ?thesis ..
qed

lemma no_lost_notification:
  assumes "queue_inv m"
  shows "(ne, p) \<in># sleeping m \<Longrightarrow> content_of (mon_state m) \<noteq> [] \<Longrightarrow> \<exists>q. q \<in># awake m \<and> takes (snd q)"
    and "(nf, p) \<in># sleeping m \<Longrightarrow> bound_of (mon_state m) = Some n \<Longrightarrow> length (content_of (mon_state m)) < n
      \<Longrightarrow> \<exists>q. q \<in># awake m \<and> is_put put_of (snd q)"
proof -
  have wok: "wake_ok m"
    using assms by (simp add: queue_inv_def)
  show "(ne, p) \<in># sleeping m \<Longrightarrow> content_of (mon_state m) \<noteq> [] \<Longrightarrow> \<exists>q. q \<in># awake m \<and> takes (snd q)"
    using wake_okD(2) [OF wok, of p] by (intro awake_some) (cases "content_of (mon_state m)"; simp)
  show "(nf, p) \<in># sleeping m \<Longrightarrow> bound_of (mon_state m) = Some n \<Longrightarrow> length (content_of (mon_state m)) < n
      \<Longrightarrow> \<exists>q. q \<in># awake m \<and> is_put put_of (snd q)"
    using wake_okD(3) [OF wok, of p n] by (intro awake_some) simp
qed

lemma reachable_queue:
  assumes "ok s" and "content_of s = []" and "(mon_step sec)\<^sup>*\<^sup>* (mon_start s) m"
  shows "queue_inv m"
  using assms by (intro reachable_inv [of "mon_start s" m]) auto

lemma bound_constant:
  assumes "ok s" and "content_of s = []" and "(mon_step sec)\<^sup>*\<^sup>* (mon_start s) m"
  shows "bound_of (mon_state m) = bound_of s"
  using assms(3)
proof (induction rule: rtranclp_induct)
  case base
  then show ?case
    by (simp add: mon_start_def)
next
  case (step m m')
  have ok: "ok (mon_state m)"
    using reachable_queue [OF assms(1,2) step(1)] by (simp add: queue_inv_def fifo_ok_def)
  from step(2) have "bound_of (mon_state m') = bound_of (mon_state m)"
  proof (cases rule: mon_stepE)
    case (leave p r s sigs en sl)
    then show ?thesis
      using keeps [OF ok leave(3)] by simp
  qed simp_all
  then show ?case
    using step(3) by simp
qed

end

end
