(* ===== verification/Queues.thy ===== *)
theory Queues
  imports Monitor
begin

section \<open>Blocking queues and the latch\<close>

text \<open>
  \<open>BlockingQueue\<close>, \<open>BoundedBlockingQueue\<close> and \<open>CountDownLatch\<close> of base/: the critical sections of their
  methods, and that they are correct in every interleaving of the threads that use them.
\<close>

datatype queue_cond = NotEmpty | NotFull

datatype 'a queue_op = Q_put 'a | Q_take

fun put_arg :: "'a queue_op \<Rightarrow> 'a option" where
  "put_arg (Q_put x) = Some x"
| "put_arg Q_take = None"

definition is_take :: "'a queue_op \<Rightarrow> bool" where
  "is_take op \<longleftrightarrow> op = Q_take"

lemma is_take_simps [simp]: "is_take Q_take" "\<not> is_take (Q_put x)" "is_take op \<Longrightarrow> put_arg op = None"
  by (simp_all add: is_take_def)

subsection \<open>\<open>BlockingQueue\<close>\<close>

text \<open>The deque \<open>queue_\<close> is a list. Both overloads of \<open>put\<close> do the same.\<close>

definition BlockingQueue_put :: "'a \<Rightarrow> 'a list \<Rightarrow> (queue_cond, 'a option, 'a list) outcome option" where
  "BlockingQueue_put x q = Some (Return None (q @ [x]) [Notify NotEmpty])"

definition BlockingQueue_take :: "'a list \<Rightarrow> (queue_cond, 'a option, 'a list) outcome option" where
  "BlockingQueue_take q =
     (if q = [] then Some (Wait NotEmpty)
      else do { assert_that (q \<noteq> []); Some (Return (Some (hd q)) (tl q) []) })"

definition BlockingQueue_size :: "'a list \<Rightarrow> nat" where
  "BlockingQueue_size q = length q"

definition blocking_sections :: "('a queue_op, 'a list, queue_cond, 'a option) sections" where
  "blocking_sections tid op mx q = (case op of Q_put x \<Rightarrow> BlockingQueue_put x q | Q_take \<Rightarrow> BlockingQueue_take q)"

lemmas blocking_defs = blocking_sections_def BlockingQueue_put_def BlockingQueue_take_def

interpretation blocking: queue_monitor blocking_sections "\<lambda>q. q" "\<lambda>_. None" put_arg is_take NotEmpty NotFull
  "\<lambda>_. True"
  by unfold_locales (auto simp: blocking_defs split: queue_op.splits if_splits)

subsection \<open>\<open>BoundedBlockingQueue\<close>\<close>

text \<open>
  \<open>boost::circular_buffer\<close> is not part of the repository: its operations are a parameter, and what its
  documentation promises about them the hypothesis \<open>circular_laws\<close>, where \<open>view\<close> gives the elements of a buffer.
\<close>

record ('q, 'a) circular_buffer =
  cb_make :: "int \<Rightarrow> 'q"
  cb_empty :: "'q \<Rightarrow> bool"
  cb_full :: "'q \<Rightarrow> bool"
  cb_size :: "'q \<Rightarrow> nat"
  cb_capacity :: "'q \<Rightarrow> nat"
  cb_push_back :: "'a \<Rightarrow> 'q \<Rightarrow> 'q"
  cb_front :: "'q \<Rightarrow> 'a"
  cb_pop_front :: "'q \<Rightarrow> 'q"

definition circular_laws :: "('q, 'a) circular_buffer \<Rightarrow> ('q \<Rightarrow> 'a list) \<Rightarrow> bool" where
  "circular_laws cb view \<longleftrightarrow>
     (\<forall>n. 0 \<le> n \<longrightarrow> view (cb_make cb n) = [] \<and> cb_capacity cb (cb_make cb n) = nat n)
     \<and> (\<forall>q. cb_empty cb q \<longleftrightarrow> view q = [])
     \<and> (\<forall>q. cb_size cb q = length (view q))
     \<and> (\<forall>q. cb_full cb q \<longleftrightarrow> length (view q) = cb_capacity cb q)
     \<and> (\<forall>q x. \<not> cb_full cb q \<longrightarrow> view (cb_push_back cb x q) = view q @ [x]
          \<and> cb_capacity cb (cb_push_back cb x q) = cb_capacity cb q)
     \<and> (\<forall>q. view q \<noteq> [] \<longrightarrow> cb_front cb q = hd (view q) \<and> view (cb_pop_front cb q) = tl (view q)
          \<and> cb_capacity cb (cb_pop_front cb q) = cb_capacity cb q)"

definition BoundedBlockingQueue_new :: "('q, 'a) circular_buffer \<Rightarrow> int \<Rightarrow> 'q" where
  "BoundedBlockingQueue_new cb maxSize = cb_make cb maxSize"

definition BoundedBlockingQueue_put ::
    "('q, 'a) circular_buffer \<Rightarrow> 'a \<Rightarrow> 'q \<Rightarrow> (queue_cond, 'a option, 'q) outcome option" where
  "BoundedBlockingQueue_put cb x q =
     (if cb_full cb q then Some (Wait NotFull)
      else do {
        assert_that (\<not> cb_full cb q);
        Some (Return None (cb_push_back cb x q) [Notify NotEmpty]) })"

definition BoundedBlockingQueue_take ::
    "('q, 'a) circular_buffer \<Rightarrow> 'q \<Rightarrow> (queue_cond, 'a option, 'q) outcome option" where
  "BoundedBlockingQueue_take cb q =
     (if cb_empty cb q then Some (Wait NotEmpty)
      else do {
        assert_that (\<not> cb_empty cb q);
        Some (Return (Some (cb_front cb q)) (cb_pop_front cb q) [Notify NotFull]) })"

definition BoundedBlockingQueue_empty :: "('q, 'a) circular_buffer \<Rightarrow> 'q \<Rightarrow> bool" where
  "BoundedBlockingQueue_empty cb q = cb_empty cb q"

definition BoundedBlockingQueue_full :: "('q, 'a) circular_buffer \<Rightarrow> 'q \<Rightarrow> bool" where
  "BoundedBlockingQueue_full cb q = cb_full cb q"

definition BoundedBlockingQueue_size :: "('q, 'a) circular_buffer \<Rightarrow> 'q \<Rightarrow> nat" where
  "BoundedBlockingQueue_size cb q = cb_size cb q"

definition BoundedBlockingQueue_capacity :: "('q, 'a) circular_buffer \<Rightarrow> 'q \<Rightarrow> nat" where
  "BoundedBlockingQueue_capacity cb q = cb_capacity cb q"

definition bounded_sections ::
    "('q, 'a) circular_buffer \<Rightarrow> ('a queue_op, 'q, queue_cond, 'a option) sections" where
  "bounded_sections cb tid op mx q =
     (case op of Q_put x \<Rightarrow> BoundedBlockingQueue_put cb x q | Q_take \<Rightarrow> BoundedBlockingQueue_take cb q)"

lemmas bounded_defs = bounded_sections_def BoundedBlockingQueue_put_def BoundedBlockingQueue_take_def

lemma circular_lawsD:
  assumes "circular_laws cb view"
  shows "0 \<le> n \<Longrightarrow> view (cb_make cb n) = []" "0 \<le> n \<Longrightarrow> cb_capacity cb (cb_make cb n) = nat n"
    "cb_empty cb q \<longleftrightarrow> view q = []" "cb_full cb q \<longleftrightarrow> length (view q) = cb_capacity cb q"
    "length (view q) \<noteq> cb_capacity cb q \<Longrightarrow> view (cb_push_back cb x q) = view q @ [x]"
    "length (view q) \<noteq> cb_capacity cb q \<Longrightarrow> cb_capacity cb (cb_push_back cb x q) = cb_capacity cb q"
    "view q \<noteq> [] \<Longrightarrow> view q = cb_front cb q # view (cb_pop_front cb q)"
    "view q \<noteq> [] \<Longrightarrow> cb_capacity cb (cb_pop_front cb q) = cb_capacity cb q"
  using assms unfolding circular_laws_def by (auto simp: circular_laws_def)

interpretation bounded: queue_monitor "bounded_sections cb" view "\<lambda>q. Some (cb_capacity cb q)" put_arg is_take
  NotEmpty NotFull "\<lambda>_. circular_laws cb view" for cb :: "('q, 'a) circular_buffer" and view :: "'q \<Rightarrow> 'a list"
  by unfold_locales
    (auto simp: bounded_defs circular_lawsD(3-6,8)
      split: queue_op.splits if_splits option.splits dest: circular_lawsD(7))

subsection \<open>\<open>CountDownLatch\<close>\<close>

text \<open>The member \<open>count_\<close>; there is one condition.\<close>

datatype latch_op = L_wait | L_countDown | L_getCount

definition CountDownLatch_wait :: "int \<Rightarrow> (unit, int option, int) outcome option" where
  "CountDownLatch_wait cnt = (if cnt > 0 then Some (Wait ()) else Some (Return None cnt []))"

definition CountDownLatch_countDown :: "int \<Rightarrow> (unit, int option, int) outcome option" where
  "CountDownLatch_countDown cnt = do {
     count1 \<leftarrow> ck32 (cnt - 1);
     Some (Return None count1 (if count1 = 0 then [NotifyAll ()] else []))
   }"

definition CountDownLatch_getCount :: "int \<Rightarrow> (unit, int option, int) outcome option" where
  "CountDownLatch_getCount cnt = Some (Return (Some cnt) cnt [])"

definition latch_sections :: "(latch_op, int, unit, int option) sections" where
  "latch_sections tid op mx cnt = (case op of L_wait \<Rightarrow> CountDownLatch_wait cnt
     | L_countDown \<Rightarrow> CountDownLatch_countDown cnt | L_getCount \<Rightarrow> CountDownLatch_getCount cnt)"

lemmas latch_defs = latch_sections_def CountDownLatch_wait_def CountDownLatch_countDown_def
  CountDownLatch_getCount_def

definition downs :: "(latch_op \<times> 'r) list \<Rightarrow> nat" where
  "downs h = length (filter (\<lambda>c. fst c = L_countDown) h)"

text \<open>
  The count is what is left, nobody sleeps when it is not positive, and every \<open>wait()\<close> that has returned
  was preceded by enough calls of \<open>countDown()\<close>.
\<close>

definition latch_inv :: "int \<Rightarrow> (latch_op, int, unit, int option) monitor \<Rightarrow> bool" where
  "latch_inv n m \<longleftrightarrow> mon_state m = n - int (downs (finished m))
     \<and> (sleeping m \<noteq> {#} \<longrightarrow> 0 < mon_state m)
     \<and> (\<forall>h1 r h2. finished m = h1 @ (L_wait, r) # h2 \<longrightarrow> n \<le> int (downs h1))"

lemma downs_snoc: "downs (h @ [(op, r)]) = downs h + (if op = L_countDown then 1 else 0)"
  by (simp add: downs_def)

lemma split_snoc:
  "h @ [c] = h1 @ d # h2 \<longleftrightarrow> (h1 = h \<and> d = c \<and> h2 = []) \<or> (\<exists>h3. h2 = h3 @ [c] \<and> h = h1 @ d # h3)"
  by (cases h2 rule: rev_cases) auto

lemma latch_leave:
  assumes inv: "latch_inv n m" and ret: "latch_sections tid op (mon_mutex m) (mon_state m) = Some (Return r s sigs)"
    and wk: "wakes sigs (entering m, sleeping m) (en, sl)"
    and m': "mon_state m' = s" "sleeping m' = sl" "finished m' = finished m @ [(op, r)]"
  shows "latch_inv n m'"
proof -
  have s: "s = mon_state m - (if op = L_countDown then 1 else 0)"
    and w: "op = L_wait \<Longrightarrow> mon_state m \<le> 0"
    and all: "op = L_countDown \<Longrightarrow> s = 0 \<Longrightarrow> NotifyAll () \<in> set sigs"
    using ret by (auto simp: latch_defs ck32_def split: latch_op.splits if_splits elim!: bind_SomeE)
  have "0 < s" if "sl \<noteq> {#}"
  proof -
    have "sleeping m \<noteq> {#}"
      using that wakes_only_moves [OF wk] by auto
    then have pos: "0 < mon_state m"
      using inv by (simp add: latch_inv_def)
    obtain p where "((), p) \<in># sl"
      using \<open>sl \<noteq> {#}\<close> by (auto elim!: multiset_nonemptyE)
    then have "\<not> (op = L_countDown \<and> s = 0)"
      using all notifyAll_wakes [OF wk] by blast
    then show ?thesis
      using pos s by (auto split: if_splits)
  qed
  then show ?thesis
    using inv s w m' by (auto simp: latch_inv_def downs_snoc split_snoc)
qed

lemma latch_step:
  assumes inv: "latch_inv n m" and step: "mon_step latch_sections m m'"
  shows "latch_inv n m'"
  using step
proof (cases rule: mon_stepE)
  case (wait p c)
  then have "0 < mon_state m"
    by (auto simp: latch_defs ck32_def split: latch_op.splits if_splits elim!: bind_SomeE)
  then show ?thesis
    using inv wait(1) by (simp add: latch_inv_def)
next
  case (leave p r s sigs en sl)
  show ?thesis
    by (rule latch_leave [OF inv leave(3,4)]) (simp_all add: leave(1))
next
  case (spurious c p)
  have "sleeping m \<noteq> {#}"
    using spurious(2) by auto
  then show ?thesis
    using inv spurious(1) by (simp add: latch_inv_def)
qed (use inv in \<open>auto simp: latch_inv_def\<close>)

interpretation latch: transition_system "\<lambda>m. m = mon_start n" "mon_step latch_sections" "latch_inv n" for n
proof unfold_locales
  show "m = mon_start n \<Longrightarrow> latch_inv n m" for m :: "(latch_op, int, unit, int option) monitor"
    by (simp add: latch_inv_def mon_start_def downs_def)
qed (rule latch_step)

subsection \<open>The properties\<close>

text \<open>
  C32: A \<open>BoundedBlockingQueue\<close> used by any number of threads, in every interleaving, spurious wakeups
  included, and with any circular buffer that behaves as documented: no assertion of \<open>put\<close> or \<open>take\<close> fails,
  at most one thread is inside, elements are taken in the order in which they were put, there are never
  more than \<open>maxSize\<close>, and no notification is lost: when a consumer waits although there is an element, or
  a producer although there is room, another one of its kind is on its way.
\<close>

theorem bounded_queue_correct:
  assumes laws: "circular_laws cb view" and size: "0 \<le> maxSize"
    and run: "(mon_step (bounded_sections cb))\<^sup>*\<^sup>* (mon_start (BoundedBlockingQueue_new cb maxSize)) m"
  shows "bounded_sections cb tid op (mon_mutex m) (mon_state m) \<noteq> None
    \<and> (mx_locked (mon_mutex m) \<longleftrightarrow> inside m \<noteq> None)
    \<and> put_values put_arg (finished m) = taken_values is_take (finished m) @ view (mon_state m)
    \<and> int (length (view (mon_state m))) \<le> maxSize
    \<and> ((NotEmpty, p) \<in># sleeping m \<and> view (mon_state m) \<noteq> [] \<longrightarrow> (\<exists>q. q \<in># awake m \<and> is_take (snd q)))
    \<and> ((NotFull, p) \<in># sleeping m \<and> int (length (view (mon_state m))) < maxSize
         \<longrightarrow> (\<exists>q. q \<in># awake m \<and> is_put put_arg (snd q)))"
proof -
  let ?s = "BoundedBlockingQueue_new cb maxSize"
  have start: "view ?s = []" "cb_capacity cb ?s = nat maxSize"
    using circular_lawsD(1,2) [OF laws size] by (simp_all add: BoundedBlockingQueue_new_def)
  note inv = bounded.reachable_queue [OF laws start(1) run]
  have cap: "cb_capacity cb (mon_state m) = nat maxSize"
    using bounded.bound_constant [OF laws start(1) run] start(2) by simp
  have "bounded_sections cb tid op (mon_mutex m) (mon_state m) \<noteq> None"
    by (simp add: bounded_defs split: queue_op.split)
  moreover have "mx_locked (mon_mutex m) \<longleftrightarrow> inside m \<noteq> None"
    using inv by (auto simp: bounded.queue_inv_def lock_ok_def MutexLock_new_def split: option.splits)
  moreover have "put_values put_arg (finished m) = taken_values is_take (finished m) @ view (mon_state m)"
    "length (view (mon_state m)) \<le> nat maxSize"
    using inv cap by (simp_all add: bounded.queue_inv_def bounded.fifo_ok_def)
  ultimately show ?thesis
    using bounded.no_lost_notification [OF inv, of p] cap size by auto
qed

definition list_buffer :: "(nat list \<times> nat, nat) circular_buffer" where
  "list_buffer = \<lparr>cb_make = (\<lambda>n. ([], nat n)), cb_empty = (\<lambda>q. fst q = []), cb_full = (\<lambda>q. length (fst q) = snd q),
     cb_size = (\<lambda>q. length (fst q)), cb_capacity = snd, cb_push_back = (\<lambda>x q. (fst q @ [x], snd q)),
     cb_front = (\<lambda>q. hd (fst q)), cb_pop_front = (\<lambda>q. (tl (fst q), snd q))\<rparr>"

lemma list_buffer_laws: "circular_laws list_buffer fst"
  by (simp add: circular_laws_def list_buffer_def)

lemma bounded_queue_correct_witness:
  "\<exists>m. circular_laws list_buffer fst
     \<and> (mon_step (bounded_sections list_buffer))\<^sup>*\<^sup>* (mon_start (BoundedBlockingQueue_new list_buffer 1)) m
     \<and> entering m = {#(1, Q_put 5)#} \<and> put_values put_arg (finished m) = taken_values is_take (finished m) @ fst (mon_state m)"
proof -
  let ?m = "(mon_start (BoundedBlockingQueue_new list_buffer 1) :: (nat queue_op, nat list \<times> nat, queue_cond, nat option) monitor)"
  let ?m1 = "call_op 1 (Q_put 5) ?m"
  have "mon_step (bounded_sections list_buffer) ?m ?m1"
    by (rule mon_step.call) simp
  then have run: "(mon_step (bounded_sections list_buffer))\<^sup>*\<^sup>* ?m ?m1"
    by blast
  have "entering ?m1 = {#(1, Q_put 5)#}"
    by (simp add: mon_start_def call_op_def)
  moreover have "put_values put_arg (finished ?m1) = taken_values is_take (finished ?m1) @ fst (mon_state ?m1)"
    using bounded_queue_correct [OF list_buffer_laws _ run] by simp
  ultimately show ?thesis
    using run list_buffer_laws by blast
qed

text \<open>
  C33: A \<open>CountDownLatch\<close> made with \<open>count\<close> and used by any number of threads, in every interleaving: the
  count is \<open>count\<close> less the calls of \<open>countDown()\<close>; a \<open>wait()\<close> returns only after \<open>count\<close> such calls; and when
  the count has reached zero no thread waits any more, so that every one of them returns.
\<close>

theorem count_down_latch_correct:
  assumes "(mon_step latch_sections)\<^sup>*\<^sup>* (mon_start n) m"
  shows "mon_state m = n - int (downs (finished m))
    \<and> (finished m = h1 @ (L_wait, r) # h2 \<longrightarrow> n \<le> int (downs h1))
    \<and> (n \<le> int (downs (finished m)) \<longrightarrow> sleeping m = {#}
         \<and> latch_sections tid L_wait mx (mon_state m) = Some (Return None (mon_state m) []))"
  using latch.reachable_inv [OF refl assms] by (auto simp: latch_inv_def latch_defs)

lemma count_down_latch_correct_witness:
  "\<exists>m. (mon_step latch_sections)\<^sup>*\<^sup>* (mon_start 1) m \<and> entering m = {#(1, L_wait)#}
     \<and> mon_state m = 1 - int (downs (finished m))"
proof -
  let ?m = "mon_start 1 :: (latch_op, int, unit, int option) monitor"
  let ?m1 = "call_op 1 L_wait ?m"
  have "mon_step latch_sections ?m ?m1"
    by (rule mon_step.call) simp
  then have run: "(mon_step latch_sections)\<^sup>*\<^sup>* ?m ?m1"
    by blast
  have "entering ?m1 = {#(1, L_wait)#}"
    by (simp add: mon_start_def call_op_def)
  then show ?thesis
    using run count_down_latch_correct [OF run] by blast
qed

end
