(* ===== verification/ThreadPool.thy ===== *)
theory ThreadPool
  imports LogStream Queues
begin

section \<open>The thread pool\<close>

text \<open>
  \<open>ThreadPool\<close> of base/thread_pool.h and base/thread_pool.cc: the critical sections of its methods, the loop of
  its threads, and that in every interleaving no task is lost or started twice.
\<close>

subsection \<open>The pool\<close>

text \<open>Tasks and the initialisation callback are values; \<open>tp_threads\<close> are the names of the threads.\<close>

record 't thread_pool =
  tp_name :: string
  tp_threadInitCallback :: "'t option"
  tp_threads :: "string list"
  tp_queue :: "'t list"
  tp_maxQueueSize :: nat
  tp_running :: bool

definition ThreadPool_new :: "string \<Rightarrow> 't thread_pool" where
  "ThreadPool_new nameArg = \<lparr>tp_name = nameArg, tp_threadInitCallback = None, tp_threads = [], tp_queue = [],
     tp_maxQueueSize = 0, tp_running = False\<rparr>"

text \<open>The \<open>int\<close> argument is converted to \<open>size_t\<close>.\<close>

definition setMaxQueueSize :: "int \<Rightarrow> 't thread_pool \<Rightarrow> 't thread_pool" where
  "setMaxQueueSize maxSize p = p\<lparr>tp_maxQueueSize := nat (maxSize mod 2 ^ 64)\<rparr>"

definition setThreadInitCallback :: "'t \<Rightarrow> 't thread_pool \<Rightarrow> 't thread_pool" where
  "setThreadInitCallback cb p = p\<lparr>tp_threadInitCallback := Some cb\<rparr>"

text \<open>
  \<open>start\<close> returns the tasks it runs itself as well: the initialisation callback when there is no thread.
  Thread \<open>i\<close> of the pool gets the name of the pool followed by \<open>i + 1\<close>; \<open>reserve\<close> throws when the
  number is negative.
\<close>

definition ThreadPool_start :: "int \<Rightarrow> 't thread_pool \<Rightarrow> ('t list \<times> 't thread_pool) option" where
  "ThreadPool_start numThreads p = do {
     assert_that (tp_threads p = []);
     assert_that (0 \<le> numThreads);
     let p1 = p\<lparr>tp_running := True,
       tp_threads := map (\<lambda>i. tp_name p @ decimal (int i + 1)) [0..<nat numThreads]\<rparr>;
     Some (if numThreads = 0 then (case tp_threadInitCallback p1 of None \<Rightarrow> [] | Some cb \<Rightarrow> [cb]) else [], p1)
   }"

definition ThreadPool_queueSize :: "'t thread_pool \<Rightarrow> nat" where
  "ThreadPool_queueSize p = length (tp_queue p)"

subsection \<open>The critical sections\<close>

datatype 't pool_op = P_run 't | P_take | P_stop

definition ThreadPool_isFull :: "nat \<Rightarrow> mutex_lock \<Rightarrow> 't thread_pool \<Rightarrow> bool option" where
  "ThreadPool_isFull tid mx p = do {
     assertLocked tid mx;
     Some (tp_maxQueueSize p > 0 \<and> length (tp_queue p) \<ge> tp_maxQueueSize p)
   }"

text \<open>\<open>run\<close> when the pool has threads; otherwise the caller runs the task.\<close>

definition ThreadPool_run ::
    "nat \<Rightarrow> 't \<Rightarrow> mutex_lock \<Rightarrow> 't thread_pool \<Rightarrow> (queue_cond, 't option, 't thread_pool) outcome option" where
  "ThreadPool_run tid task mx p = do {
     full \<leftarrow> ThreadPool_isFull tid mx p;
     if full then Some (Wait NotFull)
     else do {
       full1 \<leftarrow> ThreadPool_isFull tid mx p;
       assert_that (\<not> full1);
       Some (Return None (p\<lparr>tp_queue := tp_queue p @ [task]\<rparr>) [Notify NotEmpty]) }
   }"

definition ThreadPool_take ::
    "'t thread_pool \<Rightarrow> (queue_cond, 't option, 't thread_pool) outcome option" where
  "ThreadPool_take p =
     (if tp_queue p = [] \<and> tp_running p then Some (Wait NotEmpty)
      else if tp_queue p \<noteq> []
      then Some (Return (Some (hd (tp_queue p))) (p\<lparr>tp_queue := tl (tp_queue p)\<rparr>)
             (if tp_maxQueueSize p > 0 then [Notify NotFull] else []))
      else Some (Return None p []))"

text \<open>The critical section of \<open>stop\<close>; the threads are joined after it.\<close>

definition ThreadPool_stop ::
    "'t thread_pool \<Rightarrow> (queue_cond, 't option, 't thread_pool) outcome option" where
  "ThreadPool_stop p = Some (Return None (p\<lparr>tp_running := False\<rparr>) [NotifyAll NotEmpty])"

definition ThreadPool_destroy ::
    "'t thread_pool \<Rightarrow> (queue_cond, 't option, 't thread_pool) outcome option" where
  "ThreadPool_destroy p = (if tp_running p then ThreadPool_stop p else Some (Return None p []))"

definition pool_sections :: "('t pool_op, 't thread_pool, queue_cond, 't option) sections" where
  "pool_sections tid op mx p = (case op of P_run task \<Rightarrow> ThreadPool_run tid task mx p
     | P_take \<Rightarrow> ThreadPool_take p | P_stop \<Rightarrow> ThreadPool_stop p)"

subsection \<open>The threads of the pool\<close>

text \<open>
  A thread of the pool runs \<open>runInThread\<close>: the initialisation callback, then the loop: test \<open>running_\<close>, which
  it reads without the mutex, take, run the task if it got one. Thread \<open>i\<close> has the number \<open>i + 1\<close>. Any other
  thread may call \<open>run\<close> and \<open>stop\<close>. Recorded are the tasks in the order in which they were started.
\<close>

datatype 't worker = W_init | W_check | W_taking | W_got "'t option" | W_exit

record 't pool_sys =
  ps_mon :: "('t pool_op, 't thread_pool, queue_cond, 't option) monitor"
  ps_workers :: "'t worker list"
  ps_direct :: "'t list"
  ps_executed :: "'t list"

text \<open>What a worker has got when its call of \<open>take\<close> returns.\<close>

definition deliver ::
    "('t pool_op, 't thread_pool, queue_cond, 't option) monitor
      \<Rightarrow> ('t pool_op, 't thread_pool, queue_cond, 't option) monitor \<Rightarrow> 't worker list \<Rightarrow> 't worker list" where
  "deliver m m' ws = (case inside m of
       Some (tid, P_take) \<Rightarrow>
         if length (finished m') = Suc (length (finished m)) then ws[tid - 1 := W_got (snd (last (finished m')))] else ws
     | _ \<Rightarrow> ws)"

inductive pool_step :: "'t pool_sys \<Rightarrow> 't pool_sys \<Rightarrow> bool" where
  init: "i < length (ps_workers y) \<Longrightarrow> ps_workers y ! i = W_init
    \<Longrightarrow> pool_step y (y\<lparr>ps_workers := (ps_workers y)[i := W_check]\<rparr>)"
| check_running: "i < length (ps_workers y) \<Longrightarrow> ps_workers y ! i = W_check \<Longrightarrow> tp_running (mon_state (ps_mon y))
    \<Longrightarrow> pool_step y (y\<lparr>ps_workers := (ps_workers y)[i := W_taking], ps_mon := call_op (Suc i) P_take (ps_mon y)\<rparr>)"
| check_stopped: "i < length (ps_workers y) \<Longrightarrow> ps_workers y ! i = W_check \<Longrightarrow> \<not> tp_running (mon_state (ps_mon y))
    \<Longrightarrow> pool_step y (y\<lparr>ps_workers := (ps_workers y)[i := W_exit]\<rparr>)"
| got_task: "i < length (ps_workers y) \<Longrightarrow> ps_workers y ! i = W_got (Some task)
    \<Longrightarrow> pool_step y (y\<lparr>ps_workers := (ps_workers y)[i := W_check], ps_executed := ps_executed y @ [task]\<rparr>)"
| got_nothing: "i < length (ps_workers y) \<Longrightarrow> ps_workers y ! i = W_got None
    \<Longrightarrow> pool_step y (y\<lparr>ps_workers := (ps_workers y)[i := W_check]\<rparr>)"
| run_direct: "tp_threads (mon_state (ps_mon y)) = []
    \<Longrightarrow> pool_step y (y\<lparr>ps_direct := ps_direct y @ [task], ps_executed := ps_executed y @ [task]\<rparr>)"
| run_queued: "tp_threads (mon_state (ps_mon y)) \<noteq> [] \<Longrightarrow> tid \<noteq> 0
    \<Longrightarrow> pool_step y (y\<lparr>ps_mon := call_op tid (P_run task) (ps_mon y)\<rparr>)"
| stop: "tid \<noteq> 0 \<Longrightarrow> pool_step y (y\<lparr>ps_mon := call_op tid P_stop (ps_mon y)\<rparr>)"
| in_section: "mon_run pool_sections (ps_mon y) m'
    \<Longrightarrow> pool_step y (y\<lparr>ps_mon := m', ps_workers := deliver (ps_mon y) m' (ps_workers y)\<rparr>)"

subsection \<open>The pool is a queue monitor\<close>

fun pool_put :: "'t pool_op \<Rightarrow> 't option" where
  "pool_put (P_run task) = Some task"
| "pool_put P_take = None"
| "pool_put P_stop = None"

definition pool_take :: "'t pool_op \<Rightarrow> bool" where
  "pool_take op \<longleftrightarrow> op = P_take"

definition pool_bound :: "'t thread_pool \<Rightarrow> nat option" where
  "pool_bound p = (if tp_maxQueueSize p = 0 then None else Some (tp_maxQueueSize p))"

definition pool_ok :: "'t thread_pool \<Rightarrow> bool" where
  "pool_ok p \<longleftrightarrow> tp_maxQueueSize p = 0 \<or> length (tp_queue p) \<le> tp_maxQueueSize p"

lemmas pool_defs = pool_sections_def ThreadPool_run_def ThreadPool_take_def ThreadPool_stop_def
  ThreadPool_isFull_def assertLocked_def

interpretation pool: queue_monitor pool_sections tp_queue pool_bound pool_put pool_take NotEmpty NotFull pool_ok
  by unfold_locales
    (auto simp: pool_defs pool_bound_def pool_ok_def pool_take_def split: pool_op.splits if_splits)

subsection \<open>The invariant\<close>

text \<open>The calls that have not returned.\<close>

definition pending :: "('o, 's, 'c, 'r) monitor \<Rightarrow> (nat \<times> 'o) multiset" where
  "pending m = awake m + image_mset snd (sleeping m)"

lemma wake_conserves: "wake sig (en, sl) (en', sl') \<Longrightarrow> en' + image_mset snd sl' = en + image_mset snd sl"
proof (induction sig "(en, sl)" "(en', sl')" rule: wake.induct)
  case (notify c p)
  then show ?case
    by (auto dest!: multi_member_split)
next
  case (notifyAll c)
  have "image_mset snd (filter_mset (\<lambda>x. fst x = c) sl) + image_mset snd (filter_mset (\<lambda>x. fst x \<noteq> c) sl)
      = image_mset snd sl"
    unfolding image_mset_union [symmetric] by (simp add: multiset_partition [symmetric])
  then show ?case
    unfolding notifyAll [symmetric] by (simp only: add.assoc)
qed simp

lemma wakes_conserve: "wakes sigs (en, sl) (en', sl') \<Longrightarrow> en' + image_mset snd sl' = en + image_mset snd sl"
proof (induction sigs arbitrary: en sl)
  case (Cons sig sigs)
  obtain e s where "wake sig (en, sl) (e, s)" and "wakes sigs (e, s) (en', sl')"
    using Cons.prems by (auto elim!: wakes_ConsE)
  then show ?case
    using Cons.IH wake_conserves by metis
qed simp

text \<open>A section that does not return keeps the calls; one that returns ends its call.\<close>

lemma run_pending:
  assumes "lock_ok m" and "mon_run sec m m'"
  shows "(finished m' = finished m \<and> pending m' = pending m \<and> mon_state m' = mon_state m
        \<and> (\<forall>c p. (c, p) \<in># sleeping m' \<longrightarrow> (c, p) \<in># sleeping m
             \<or> sec (fst p) (snd p) (mon_mutex m) (mon_state m) = Some (Wait c)))
    \<or> (\<exists>p r sigs. inside m = Some p \<and> finished m' = finished m @ [(snd p, r)] \<and> pending m = add_mset p (pending m')
        \<and> sec (fst p) (snd p) (mon_mutex m) (mon_state m) = Some (Return r (mon_state m') sigs)
        \<and> wakes sigs (entering m, sleeping m) (entering m', sleeping m'))"
  using assms(2)
proof cases
  case (acquire p)
  have "inside m = None"
    using acquire_inside [OF assms(1) acquire(2)] .
  then show ?thesis
    using acquire(1,3) by (auto simp: pending_def awake_def dest!: multi_member_split)
next
  case (wait p c)
  then show ?thesis
    by (simp add: pending_def awake_def)
next
  case (leave p r s sigs en sl)
  have "pending m = add_mset p (pending m')"
    using wakes_conserve [OF leave(4)] leave(1,2) by (simp add: pending_def awake_def add.assoc)
  then show ?thesis
    using leave by auto
next
  case (spurious c p)
  then show ?thesis
    by (auto simp: pending_def awake_def dest!: multi_member_split dest: in_diffD)
qed

definition hold :: "'t worker \<Rightarrow> 't list" where
  "hold w = (case w of W_got (Some task) \<Rightarrow> [task] | _ \<Rightarrow> [])"

lemma hold_simps [simp]: "hold W_init = []" "hold W_check = []" "hold W_taking = []" "hold W_exit = []"
  "hold (W_got None) = []" "hold (W_got (Some task)) = [task]"
  by (simp_all add: hold_def)

definition hands :: "'t worker list \<Rightarrow> 't multiset" where
  "hands ws = mset (concat (map hold ws))"

lemma hands_update:
  "i < length ws \<Longrightarrow> hands (ws[i := w]) + mset (hold (ws ! i)) = hands ws + mset (hold w)"
proof (induction ws arbitrary: i)
  case (Cons v ws)
  then show ?case
    by (cases i) (auto simp: hands_def ac_simps)
qed simp

definition taking :: "'t worker list \<Rightarrow> nat \<Rightarrow> nat" where
  "taking ws tid = (if 0 < tid \<and> tid \<le> length ws \<and> ws ! (tid - 1) = W_taking then 1 else 0)"

lemma taking_update:
  "i < length ws \<Longrightarrow> taking (ws[i := w]) tid = (if tid = Suc i then if w = W_taking then 1 else 0 else taking ws tid)"
  by (cases tid) (auto simp: taking_def nth_list_update)

definition pool_inv :: "'t pool_sys \<Rightarrow> bool" where
  "pool_inv y \<longleftrightarrow> pool.queue_inv (ps_mon y)
     \<and> (\<forall>tid. count (pending (ps_mon y)) (tid, P_take) = taking (ps_workers y) tid)
     \<and> mset (taken_values pool_take (finished (ps_mon y))) + mset (ps_direct y)
         = mset (ps_executed y) + hands (ps_workers y)
     \<and> (\<not> tp_running (mon_state (ps_mon y)) \<longrightarrow> (\<forall>p. (NotEmpty, p) \<notin># sleeping (ps_mon y)))"

lemma pending_call: "pending (call_op tid op m) = add_mset (tid, op) (pending m)"
  by (simp add: pending_def awake_def call_op_def)

lemma call_fields [simp]:
  "mon_state (call_op tid op m) = mon_state m" "sleeping (call_op tid op m) = sleeping m"
  "finished (call_op tid op m) = finished m"
  by (simp_all add: call_op_def)

lemma call_inv:
  assumes "pool.queue_inv m" and "tid \<noteq> 0"
  shows "pool.queue_inv (call_op tid op m)"
  by (rule pool.trans_inv [OF assms(1) mon_step.call [OF assms(2)]])

lemma running_kept:
  assumes "pool_sections tid op mx p = Some (Return r p' sigs)"
  shows "tp_running p' \<longleftrightarrow> tp_running p \<and> op \<noteq> P_stop" and "op = P_stop \<Longrightarrow> NotifyAll NotEmpty \<in> set sigs"
  using assms by (auto simp: pool_defs split: pool_op.splits if_splits)

lemma waiting_runs: "pool_sections tid op mx p = Some (Wait NotEmpty) \<Longrightarrow> tp_running p"
  by (auto simp: pool_defs split: pool_op.splits if_splits)

lemma section_inv:
  assumes inv: "pool_inv y" and run: "mon_run pool_sections (ps_mon y) m'"
  shows "pool_inv (y\<lparr>ps_mon := m', ps_workers := deliver (ps_mon y) m' (ps_workers y)\<rparr>)"
proof -
  let ?m = "ps_mon y" and ?ws = "ps_workers y"
  have q: "pool.queue_inv ?m" and cnt: "\<And>tid. count (pending ?m) (tid, P_take) = taking ?ws tid"
    and tasks: "mset (taken_values pool_take (finished ?m)) + mset (ps_direct y) = mset (ps_executed y) + hands ?ws"
    and stopped: "\<And>p. \<not> tp_running (mon_state ?m) \<Longrightarrow> (NotEmpty, p) \<notin># sleeping ?m"
    using inv unfolding pool_inv_def by blast+
  have q': "pool.queue_inv m'"
    by (rule pool.trans_inv [OF q mon_step.run [OF run]])
  have lock: "lock_ok ?m"
    using q by (simp add: pool.queue_inv_def)
  from run_pending [OF lock run] show ?thesis
  proof (elim disjE exE conjE)
    assume fin: "finished m' = finished ?m" and pend: "pending m' = pending ?m" and st: "mon_state m' = mon_state ?m"
      and sl: "\<forall>c p. (c, p) \<in># sleeping m' \<longrightarrow> (c, p) \<in># sleeping ?m
        \<or> pool_sections (fst p) (snd p) (mon_mutex ?m) (mon_state ?m) = Some (Wait c)"
    have "deliver ?m m' ?ws = ?ws"
      using fin by (auto simp: deliver_def split: option.split pool_op.split)
    moreover have "(NotEmpty, p) \<notin># sleeping m'" if "\<not> tp_running (mon_state ?m)" for p
      using sl stopped [OF that] that waiting_runs by blast
    ultimately show ?thesis
      using q' cnt tasks fin pend st by (simp add: pool_inv_def)
  next
    fix p r sigs
    assume p: "inside ?m = Some p" and fin: "finished m' = finished ?m @ [(snd p, r)]"
      and pend: "pending ?m = add_mset p (pending m')"
      and ret: "pool_sections (fst p) (snd p) (mon_mutex ?m) (mon_state ?m) = Some (Return r (mon_state m') sigs)"
      and wk: "wakes sigs (entering ?m, sleeping ?m) (entering m', sleeping m')"
    have "(NotEmpty, x) \<notin># sleeping m'" if "\<not> tp_running (mon_state m')" for x
    proof (cases "snd p = P_stop")
      case True
      then show ?thesis
        using notifyAll_wakes [OF wk] running_kept(2) [OF ret] by blast
    next
      case False
      then have "(NotEmpty, x) \<notin># sleeping ?m"
        using stopped that running_kept(1) [OF ret] by blast
      then show ?thesis
        using wakes_only_moves [OF wk] by (meson mset_subset_eqD)
    qed
    moreover have "(\<forall>tid. count (pending m') (tid, P_take) = taking (deliver ?m m' ?ws) tid)
        \<and> mset (taken_values pool_take (finished m')) + mset (ps_direct y)
          = mset (ps_executed y) + hands (deliver ?m m' ?ws)"
    proof (cases "snd p = P_take")
      case True
      then obtain tid where tid: "p = (tid, P_take)"
        by (cases p) simp
      have "taking ?ws tid \<noteq> 0"
        using cnt [of tid] pend tid by auto
      then obtain i where i: "tid = Suc i" "i < length ?ws" "?ws ! i = W_taking"
        by (cases tid) (auto simp: taking_def split: if_splits)
      have del: "deliver ?m m' ?ws = ?ws[i := W_got r]"
        using p tid fin i(1) by (simp add: deliver_def)
      have "count (pending m') (t, P_take) = taking (?ws[i := W_got r]) t" for t
        using cnt [of t] pend tid i by (auto simp: taking_update) (simp add: taking_def)
      moreover have "hands (?ws[i := W_got r]) = hands ?ws + mset (hold (W_got r))"
        using hands_update [OF i(2), of "W_got r"] i(3) by simp
      ultimately show ?thesis
        using tasks True unfolding del fin
        by (cases r) (simp_all add: pool.history_snoc pool_take_def)
    next
      case False
      then have "deliver ?m m' ?ws = ?ws"
        using p by (cases p) (auto simp: deliver_def split: pool_op.split)
      moreover have "count (pending m') (t, P_take) = count (pending ?m) (t, P_take)" for t
        using pend False by (cases p) simp
      ultimately show ?thesis
        using cnt tasks False unfolding fin by (simp add: pool.history_snoc pool_take_def)
    qed
    ultimately show ?thesis
      using q' by (simp add: pool_inv_def)
  qed
qed

lemma worker_inv:
  assumes "pool_inv y" and "i < length (ps_workers y)" and "ps_workers y ! i \<noteq> W_taking" and "w \<noteq> W_taking"
    and "xs = hold (ps_workers y ! i)" and "hold w = []"
  shows "pool_inv (y\<lparr>ps_workers := (ps_workers y)[i := w], ps_executed := ps_executed y @ xs\<rparr>)"
proof -
  have "taking ((ps_workers y)[i := w]) tid = taking (ps_workers y) tid" for tid
  proof (cases "tid = Suc i")
    case True
    then show ?thesis
      using assms(2-4) by (simp add: taking_update) (simp add: taking_def)
  next
    case False
    then show ?thesis
      using assms(2) by (simp add: taking_update)
  qed
  moreover have "hands (ps_workers y) = hands ((ps_workers y)[i := w]) + mset xs"
    using hands_update [OF assms(2), of w] assms(5,6) by simp
  ultimately show ?thesis
    using assms(1) by (simp add: pool_inv_def ac_simps)
qed

lemma pool_step_inv:
  assumes inv: "pool_inv y" and step: "pool_step y y'"
  shows "pool_inv y'"
  using step
proof cases
  case (check_running i)
  then have tk: "taking (ps_workers y) (Suc i) = 0"
    by (simp add: taking_def)
  have "hands ((ps_workers y)[i := W_taking]) = hands (ps_workers y)"
    using hands_update [OF check_running(2), of W_taking] check_running(3) by simp
  then show ?thesis
    using inv check_running tk call_inv [of "ps_mon y" "Suc i" P_take]
    by (auto simp: pool_inv_def pending_call taking_update)
next
  case (run_queued tid task)
  then show ?thesis
    using inv call_inv [of "ps_mon y" tid "P_run task"] by (auto simp: pool_inv_def pending_call)
next
  case (stop tid)
  then show ?thesis
    using inv call_inv [of "ps_mon y" tid P_stop] by (auto simp: pool_inv_def pending_call)
next
  case (run_direct task)
  then show ?thesis
    using inv by (simp add: pool_inv_def)
next
  case (in_section m')
  then show ?thesis
    using section_inv [OF inv] by simp
next
  case (init i)
  then show ?thesis
    using worker_inv [OF inv init(2), of W_check "[]"] by simp
next
  case (check_stopped i)
  then show ?thesis
    using worker_inv [OF inv check_stopped(2), of W_exit "[]"] by simp
next
  case (got_task i task)
  then show ?thesis
    using worker_inv [OF inv got_task(2), of W_check "[task]"] by simp
next
  case (got_nothing i)
  then show ?thesis
    using worker_inv [OF inv got_nothing(2), of W_check "[]"] by simp
qed

subsection \<open>The property\<close>

definition pool_start :: "string \<Rightarrow> int \<Rightarrow> int \<Rightarrow> 't pool_sys option" where
  "pool_start name maxSize numThreads = do {
     (_, p) \<leftarrow> ThreadPool_start numThreads (setMaxQueueSize maxSize (ThreadPool_new name));
     Some \<lparr>ps_mon = mon_start p, ps_workers = replicate (length (tp_threads p)) W_init, ps_direct = [], ps_executed = []\<rparr>
   }"

lemma pool_start_inv:
  assumes "pool_start name maxSize numThreads = Some y"
  shows "pool_inv y" and "mon_state (ps_mon y) = mon_state (ps_mon y)\<lparr>tp_queue := [], tp_running := True,
    tp_maxQueueSize := nat (maxSize mod 2 ^ 64)\<rparr>"
proof -
  obtain p where p: "tp_queue p = []" "tp_running p" "tp_maxQueueSize p = nat (maxSize mod 2 ^ 64)"
    and y: "y = \<lparr>ps_mon = mon_start p, ps_workers = replicate (length (tp_threads p)) W_init, ps_direct = [], ps_executed = []\<rparr>"
  proof
    let ?p = "\<lparr>tp_name = name, tp_threadInitCallback = None,
      tp_threads = map (\<lambda>i. name @ decimal (int i + 1)) [0..<nat numThreads], tp_queue = [],
      tp_maxQueueSize = nat (maxSize mod 2 ^ 64), tp_running = True\<rparr> :: 'a thread_pool"
    show "tp_queue ?p = []" "tp_running ?p" "tp_maxQueueSize ?p = nat (maxSize mod 2 ^ 64)"
      by simp_all
    show "y = \<lparr>ps_mon = mon_start ?p, ps_workers = replicate (length (tp_threads ?p)) W_init, ps_direct = [],
        ps_executed = []\<rparr>"
      using assms by (auto simp: pool_start_def ThreadPool_start_def ThreadPool_new_def setMaxQueueSize_def Let_def
          split: if_splits)
  qed
  have "pool.queue_inv (mon_start p)"
    using p(1) by (intro pool.init_inv) (auto simp: pool_ok_def)
  moreover have "hands (replicate (length (tp_threads p)) W_init) = {#}"
    by (simp add: hands_def)
  ultimately show "pool_inv y"
    using p(2) by (auto simp: pool_inv_def y mon_start_def pending_def awake_def taken_values_def
        List.map_filter_def taking_def)
  show "mon_state (ps_mon y) = mon_state (ps_mon y)\<lparr>tp_queue := [], tp_running := True,
    tp_maxQueueSize := nat (maxSize mod 2 ^ 64)\<rparr>"
    using p by (cases p) (simp add: y mon_start_def)
qed

interpretation pool_threads: transition_system
  "\<lambda>y. pool_start name maxSize numThreads = Some y" pool_step pool_inv for name maxSize numThreads
  by unfold_locales (fact pool_start_inv(1), fact pool_step_inv)

text \<open>The bound of the pool does not change.\<close>

lemma run_bound:
  assumes "pool.queue_inv m" and "mon_step pool_sections m m'"
  shows "tp_maxQueueSize (mon_state m') = tp_maxQueueSize (mon_state m)"
  using assms(2)
proof (cases rule: mon_stepE)
  case (leave p r s sigs en sl)
  then show ?thesis
    by (auto simp: pool_defs split: pool_op.splits if_splits)
qed simp_all

lemma pool_step_bound:
  assumes inv: "pool_inv y" and step: "pool_step y y'"
  shows "tp_maxQueueSize (mon_state (ps_mon y')) = tp_maxQueueSize (mon_state (ps_mon y))"
  using step
proof cases
  case (in_section m')
  have "pool.queue_inv (ps_mon y)"
    using inv by (simp add: pool_inv_def)
  then show ?thesis
    using run_bound [OF _ mon_step.run [OF in_section(2)]] in_section(1) by simp
qed simp_all

lemma pool_bound_constant:
  assumes start: "pool_start name maxSize numThreads = Some y0" and run: "pool_step\<^sup>*\<^sup>* y0 y"
  shows "tp_maxQueueSize (mon_state (ps_mon y)) = nat (maxSize mod 2 ^ 64)"
  using run
proof (induction rule: rtranclp_induct)
  case base
  show ?case
    by (subst pool_start_inv(2) [OF start]) simp
next
  case (step y y')
  then show ?case
    using pool_step_bound [OF pool_threads.reachable_inv [OF start step(1)] step(2)] by simp
qed

text \<open>
  C34: The thread pool neither loses a task nor starts one twice. In every interleaving of its threads with
  threads that call \<open>run\<close> and \<open>stop\<close>: the tasks whose \<open>run\<close> has returned are, each counted once, those that were
  started, those that a thread of the pool has taken and is about to start, and those in the queue, where they
  stay when the pool is stopped before a thread takes them; they leave the queue in the order of submission; the queue
  respects \<open>maxQueueSize_\<close> unless that is 0; a thread of the pool waits in \<open>take\<close> while there is a task only if
  another one is on its way to take it; and once \<open>stop\<close> has reset \<open>running_\<close>, nobody waits for \<open>notEmpty_\<close> and no
  call of \<open>take\<close> waits at all, so that the threads of the pool come to their end.
\<close>

theorem thread_pool_correct:
  assumes start: "pool_start name maxSize numThreads = Some y0" and run: "pool_step\<^sup>*\<^sup>* y0 y"
  defines "m \<equiv> ps_mon y"
  shows "mset (put_values pool_put (finished m)) + mset (ps_direct y)
      = mset (ps_executed y) + hands (ps_workers y) + mset (tp_queue (mon_state m))
    \<and> put_values pool_put (finished m) = taken_values pool_take (finished m) @ tp_queue (mon_state m)
    \<and> (0 < maxSize \<and> maxSize < 2 ^ 31 \<longrightarrow> int (length (tp_queue (mon_state m))) \<le> maxSize)
    \<and> ((NotEmpty, p) \<in># sleeping m \<and> tp_queue (mon_state m) \<noteq> [] \<longrightarrow> (\<exists>q. q \<in># awake m \<and> snd q = P_take))
    \<and> (\<not> tp_running (mon_state m) \<longrightarrow> (NotEmpty, p) \<notin># sleeping m \<and> (c, (tid, P_take)) \<notin># sleeping m)"
proof -
  have inv: "pool_inv y"
    by (rule pool_threads.reachable_inv [OF start run])
  then have q: "pool.queue_inv m"
    by (simp add: pool_inv_def m_def)
  have fifo: "put_values pool_put (finished m) = taken_values pool_take (finished m) @ tp_queue (mon_state m)"
    using q by (simp add: pool.queue_inv_def pool.fifo_ok_def)
  have "int (length (tp_queue (mon_state m))) \<le> maxSize" if "0 < maxSize" "maxSize < 2 ^ 31"
  proof -
    have "tp_maxQueueSize (mon_state m) = nat maxSize"
      using pool_bound_constant [OF start run] that by (simp add: m_def)
    then show ?thesis
      using q that by (auto simp: pool.queue_inv_def pool.fifo_ok_def pool_ok_def)
  qed
  moreover have "(NotEmpty, p) \<in># sleeping m \<and> tp_queue (mon_state m) \<noteq> [] \<longrightarrow> (\<exists>q. q \<in># awake m \<and> snd q = P_take)"
    using pool.no_lost_notification(1) [OF q, of p] by (auto simp: pool_take_def)
  moreover have "\<not> tp_running (mon_state m) \<longrightarrow> (NotEmpty, p) \<notin># sleeping m" for p
    using inv unfolding pool_inv_def m_def by blast
  moreover have "c = NotEmpty" if "(c, (tid, P_take)) \<in># sleeping m"
    using q that unfolding pool.queue_inv_def pool.wake_ok_def by fastforce
  moreover have "mset (taken_values pool_take (finished m)) + mset (ps_direct y) = mset (ps_executed y) + hands (ps_workers y)"
    using inv by (simp add: pool_inv_def m_def)
  ultimately show ?thesis
    using fifo by (auto simp: ac_simps)
qed

lemma thread_pool_correct_witness:
  "\<exists>y0 y. pool_start ''pool'' 4 2 = Some y0 \<and> pool_step\<^sup>*\<^sup>* y0 y
     \<and> ps_workers y = [W_check, W_init :: nat worker]
     \<and> put_values pool_put (finished (ps_mon y)) = taken_values pool_take (finished (ps_mon y)) @ tp_queue (mon_state (ps_mon y))"
proof -
  obtain y0 :: "nat pool_sys" where y0: "pool_start ''pool'' 4 2 = Some y0" and ws: "ps_workers y0 = [W_init, W_init]"
    by (simp add: pool_start_def ThreadPool_start_def ThreadPool_new_def setMaxQueueSize_def Let_def upt_rec)
  let ?y = "y0\<lparr>ps_workers := (ps_workers y0)[0 := W_check]\<rparr>"
  have "pool_step y0 ?y"
    by (rule pool_step.init) (simp_all add: ws)
  then have run: "pool_step\<^sup>*\<^sup>* y0 ?y"
    by blast
  have "ps_workers ?y = [W_check, W_init]"
    by (simp add: ws)
  then show ?thesis
    using y0 run thread_pool_correct [OF y0 run] by blast
qed

end
