(* ===== verification/Sudoku.thy ===== *)
theory Sudoku
  imports Prelude
begin

section \<open>The Sudoku solver\<close>

text \<open>
  \<open>SudokuSolver\<close> and \<open>solveSudoku\<close> of net/sudoku/sudoku.cc: the constructor, which builds the matrix of an exact
  cover problem as rings of nodes, \<open>cover\<close> and \<open>uncover\<close>, which take a column and its rows out of the rings
  and put them back, and the backtracking search of \<open>solve\<close>.
\<close>

subsection \<open>State\<close>

definition kCells :: nat where "kCells = 81"
definition kMaxNodes :: nat where "kMaxNodes = 1 + 81 * 4 + 9 * 9 * 9 * 4"
definition kRow :: nat where "kRow = 100"
definition kCol :: nat where "kCol = 200"
definition kBox :: nat where "kBox = 300"
definition kNoSolution :: string where "kNoSolution = ''NoSolution''"

text \<open>
  A pointer to a node is its index in \<open>nodes_\<close>; every field of the nodes is a function of the index.
  \<open>inout_\<close> is the board.
\<close>

record sudoku_solver =
  sv_left :: "nat \<Rightarrow> nat"
  sv_right :: "nat \<Rightarrow> nat"
  sv_up :: "nat \<Rightarrow> nat"
  sv_down :: "nat \<Rightarrow> nat"
  sv_col :: "nat \<Rightarrow> nat"
  sv_name :: "nat \<Rightarrow> nat"
  sv_size :: "nat \<Rightarrow> int"
  sv_root :: nat
  sv_inout :: "int list"
  sv_columns :: "nat \<Rightarrow> nat option"
  sv_stack :: "nat list"
  sv_cur_node :: nat

subsection \<open>Building the matrix\<close>

definition new_column :: "nat \<Rightarrow> sudoku_solver \<Rightarrow> (nat \<times> sudoku_solver) option" where
  "new_column n s = do {
     assert_that (sv_cur_node s < kMaxNodes);
     let c = sv_cur_node s;
     Some (c, s\<lparr>sv_cur_node := Suc c, sv_left := (sv_left s)(c := c), sv_right := (sv_right s)(c := c),
       sv_up := (sv_up s)(c := c), sv_down := (sv_down s)(c := c), sv_col := (sv_col s)(c := c),
       sv_name := (sv_name s)(c := n), sv_size := (sv_size s)(c := 0)\<rparr>)
   }"

definition put_left :: "nat \<Rightarrow> nat \<Rightarrow> sudoku_solver \<Rightarrow> sudoku_solver" where
  "put_left old nnew s =
     (let s1 = s\<lparr>sv_left := (sv_left s)(nnew := sv_left s old)\<rparr>;
          s2 = s1\<lparr>sv_right := (sv_right s1)(nnew := old)\<rparr>;
          s3 = s2\<lparr>sv_right := (sv_right s2)(sv_left s2 old := nnew)\<rparr>
      in s3\<lparr>sv_left := (sv_left s3)(old := nnew)\<rparr>)"

definition put_up :: "nat \<Rightarrow> nat \<Rightarrow> sudoku_solver \<Rightarrow> sudoku_solver" where
  "put_up old nnew s =
     (let s1 = s\<lparr>sv_up := (sv_up s)(nnew := sv_up s old)\<rparr>;
          s2 = s1\<lparr>sv_down := (sv_down s1)(nnew := old)\<rparr>;
          s3 = s2\<lparr>sv_down := (sv_down s2)(sv_up s2 old := nnew)\<rparr>;
          s4 = s3\<lparr>sv_up := (sv_up s3)(old := nnew)\<rparr>;
          s5 = s4\<lparr>sv_size := (sv_size s4)(old := sv_size s4 old + 1)\<rparr>
      in s5\<lparr>sv_col := (sv_col s5)(nnew := old)\<rparr>)"

text \<open>\<open>columns_\<close> has 400 elements.\<close>

definition append_column :: "nat \<Rightarrow> sudoku_solver \<Rightarrow> sudoku_solver option" where
  "append_column n s = do {
     assert_that (n < 400);
     assert_that (sv_columns s n = None);
     (c, s1) \<leftarrow> new_column n s;
     let s2 = put_left (sv_root s1) c s1;
     Some (s2\<lparr>sv_columns := (sv_columns s2)(n \<mapsto> c)\<rparr>)
   }"

definition new_row :: "nat \<Rightarrow> sudoku_solver \<Rightarrow> (nat \<times> sudoku_solver) option" where
  "new_row col s = do {
     assert_that (col < 400);
     c \<leftarrow> sv_columns s col;
     assert_that (sv_cur_node s < kMaxNodes);
     let r = sv_cur_node s;
     let s1 = s\<lparr>sv_cur_node := Suc r, sv_left := (sv_left s)(r := r), sv_right := (sv_right s)(r := r),
       sv_up := (sv_up s)(r := r), sv_down := (sv_down s)(r := r), sv_name := (sv_name s)(r := col),
       sv_size := (sv_size s)(r := 0), sv_col := (sv_col s)(r := c)\<rparr>;
     Some (r, put_up (sv_col s1 r) r s1)
   }"

definition get_row_col :: "nat \<Rightarrow> nat \<Rightarrow> nat" where "get_row_col row val = kRow + row * 10 + val"
definition get_col_col :: "nat \<Rightarrow> nat \<Rightarrow> nat" where "get_col_col col val = kCol + col * 10 + val"
definition get_box_col :: "nat \<Rightarrow> nat \<Rightarrow> nat" where "get_box_col box val = kBox + box * 10 + val"

text \<open>The row, column and box of a cell.\<close>

definition row_of :: "nat \<Rightarrow> nat" where "row_of i = i div 9"
definition col_of :: "nat \<Rightarrow> nat" where "col_of i = i mod 9"
definition box_of :: "nat \<Rightarrow> nat" where "box_of i = row_of i div 3 * 3 + col_of i div 3"

text \<open>
  The tables \<open>rows\<close>, \<open>cols\<close> and \<open>boxes\<close>: which values are given in which row, column and box. A table has ten
  places for the values of a row, and the board 81 cells: an access outside them is undefined, which
  \<open>tables_in_bounds\<close> excludes.
\<close>

definition tables_in_bounds :: "int list \<Rightarrow> bool" where
  "tables_in_bounds board \<longleftrightarrow> length board = kCells \<and> list_all (\<lambda>val. 0 \<le> val \<and> val < 10) board"

definition mark_given :: "(nat \<Rightarrow> nat) \<Rightarrow> int list \<Rightarrow> nat \<Rightarrow> nat \<Rightarrow> bool" where
  "mark_given unit_of board =
     fold (\<lambda>i t. t(unit_of i := (t (unit_of i))(nat (board ! i) := True))) [0..<kCells] (\<lambda>_ _. False)"

definition append_columns :: "nat list \<Rightarrow> sudoku_solver \<Rightarrow> sudoku_solver option" where
  "append_columns ns s = run_all append_column ns s"

text \<open>The columns: one per empty cell, one per value that is missing in a row, a column or a box.\<close>

definition column_names :: "int list \<Rightarrow> nat list" where
  "column_names board =
     (let rows = mark_given row_of board; cols = mark_given col_of board; boxes = mark_given box_of board
      in filter (\<lambda>i. board ! i = 0) [0..<kCells]
         @ concat (map (\<lambda>i. concat (map (\<lambda>v.
             (if \<not> rows i v then [get_row_col i v] else [])
             @ (if \<not> cols i v then [get_col_col i v] else [])
             @ (if \<not> boxes i v then [get_box_col i v] else [])) [1..<10])) [0..<9]))"

text \<open>The candidates: a value that is missing in the row, the column and the box of an empty cell.\<close>

definition candidates :: "int list \<Rightarrow> (nat \<times> nat) list" where
  "candidates board =
     (let rows = mark_given row_of board; cols = mark_given col_of board; boxes = mark_given box_of board
      in concat (map (\<lambda>i. if board ! i = 0
             then map (Pair i) (filter (\<lambda>v. \<not> (rows (row_of i) v \<or> cols (col_of i) v \<or> boxes (box_of i) v)) [1..<10])
             else []) [0..<kCells]))"

definition add_candidate :: "nat \<times> nat \<Rightarrow> sudoku_solver \<Rightarrow> sudoku_solver option" where
  "add_candidate iv s = (case iv of (i, v) \<Rightarrow> do {
     (n0, s1) \<leftarrow> new_row i s;
     (nr, s2) \<leftarrow> new_row (get_row_col (row_of i) v) s1;
     (nc, s3) \<leftarrow> new_row (get_col_col (col_of i) v) s2;
     (nb, s4) \<leftarrow> new_row (get_box_col (box_of i) v) s3;
     Some (put_left n0 nb (put_left n0 nc (put_left n0 nr s4)))
   })"

definition SudokuSolver_new :: "int list \<Rightarrow> sudoku_solver \<Rightarrow> sudoku_solver option" where
  "SudokuSolver_new board s = do {
     assert_that (tables_in_bounds board);
     (root, s1) \<leftarrow> new_column 0 (s\<lparr>sv_inout := board, sv_cur_node := 0, sv_stack := []\<rparr>);
     let s2 = s1\<lparr>sv_root := root, sv_left := (sv_left s1)(root := root), sv_right := (sv_right s1)(root := root),
       sv_columns := Map.empty\<rparr>;
     s3 \<leftarrow> append_columns (column_names board) s2;
     run_all add_candidate (candidates board) s3
   }"

subsection \<open>Covering and uncovering\<close>

text \<open>The body of the inner loop of \<open>cover\<close> and of \<open>uncover\<close>.\<close>

definition unlink_node :: "nat \<Rightarrow> sudoku_solver \<Rightarrow> sudoku_solver" where
  "unlink_node j s =
     (let s1 = s\<lparr>sv_up := (sv_up s)(sv_down s j := sv_up s j)\<rparr>;
          s2 = s1\<lparr>sv_down := (sv_down s1)(sv_up s1 j := sv_down s1 j)\<rparr>
      in s2\<lparr>sv_size := (sv_size s2)(sv_col s2 j := sv_size s2 (sv_col s2 j) - 1)\<rparr>)"

definition relink_node :: "nat \<Rightarrow> sudoku_solver \<Rightarrow> sudoku_solver" where
  "relink_node j s =
     (let s1 = s\<lparr>sv_size := (sv_size s)(sv_col s j := sv_size s (sv_col s j) + 1)\<rparr>;
          s2 = s1\<lparr>sv_up := (sv_up s1)(sv_down s1 j := j)\<rparr>
      in s2\<lparr>sv_down := (sv_down s2)(sv_up s2 j := j)\<rparr>)"

text \<open>
  A loop along the links has not come back after as many steps as there are nodes only if it never does;
  the first argument counts the steps.
\<close>

fun cover_row :: "nat \<Rightarrow> nat \<Rightarrow> nat \<Rightarrow> sudoku_solver \<Rightarrow> sudoku_solver option" where
  "cover_row 0 row j s = None"
| "cover_row (Suc k) row j s =
     (if j = row then Some s else let s1 = unlink_node j s in cover_row k row (sv_right s1 j) s1)"

fun cover_rows :: "nat \<Rightarrow> nat \<Rightarrow> nat \<Rightarrow> sudoku_solver \<Rightarrow> sudoku_solver option" where
  "cover_rows 0 c row s = None"
| "cover_rows (Suc k) c row s =
     (if row = c then Some s
      else do { s1 \<leftarrow> cover_row kMaxNodes row (sv_right s row) s; cover_rows k c (sv_down s1 row) s1 })"

definition cover :: "nat \<Rightarrow> sudoku_solver \<Rightarrow> sudoku_solver option" where
  "cover c s =
     (let s1 = s\<lparr>sv_left := (sv_left s)(sv_right s c := sv_left s c)\<rparr>;
          s2 = s1\<lparr>sv_right := (sv_right s1)(sv_left s1 c := sv_right s1 c)\<rparr>
      in cover_rows kMaxNodes c (sv_down s2 c) s2)"

fun uncover_row :: "nat \<Rightarrow> nat \<Rightarrow> nat \<Rightarrow> sudoku_solver \<Rightarrow> sudoku_solver option" where
  "uncover_row 0 row j s = None"
| "uncover_row (Suc k) row j s =
     (if j = row then Some s else let s1 = relink_node j s in uncover_row k row (sv_left s1 j) s1)"

fun uncover_rows :: "nat \<Rightarrow> nat \<Rightarrow> nat \<Rightarrow> sudoku_solver \<Rightarrow> sudoku_solver option" where
  "uncover_rows 0 c row s = None"
| "uncover_rows (Suc k) c row s =
     (if row = c then Some s
      else do { s1 \<leftarrow> uncover_row kMaxNodes row (sv_left s row) s; uncover_rows k c (sv_up s1 row) s1 })"

definition uncover :: "nat \<Rightarrow> sudoku_solver \<Rightarrow> sudoku_solver option" where
  "uncover c s = do {
     s1 \<leftarrow> uncover_rows kMaxNodes c (sv_up s c) s;
     let s2 = s1\<lparr>sv_left := (sv_left s1)(sv_right s1 c := c)\<rparr>;
     Some (s2\<lparr>sv_right := (sv_right s2)(sv_left s2 c := c)\<rparr>)
   }"

subsection \<open>Solving\<close>

fun min_column_loop :: "nat \<Rightarrow> nat \<Rightarrow> nat \<Rightarrow> int \<Rightarrow> sudoku_solver \<Rightarrow> nat option" where
  "min_column_loop 0 cc c min_size s = None"
| "min_column_loop (Suc k) cc c min_size s =
     (if cc = sv_root s then Some c
      else if min_size > sv_size s cc
      then if sv_size s cc \<le> 1 then Some cc else min_column_loop k (sv_right s cc) cc (sv_size s cc) s
      else min_column_loop k (sv_right s cc) c min_size s)"

definition get_min_column :: "sudoku_solver \<Rightarrow> nat option" where
  "get_min_column s =
     (let c = sv_right s (sv_root s); min_size = sv_size s c
      in if min_size > 1 then min_column_loop kMaxNodes (sv_right s c) c min_size s else Some c)"

text \<open>The value of a chosen row is read from the names of its nodes, going right from the one on the stack.\<close>

fun read_row :: "nat \<Rightarrow> nat \<Rightarrow> int \<Rightarrow> int \<Rightarrow> sudoku_solver \<Rightarrow> (int \<times> int) option" where
  "read_row 0 n cell val s = None"
| "read_row (Suc k) n cell val s =
     (if cell = - 1 \<or> val = - 1
      then if sv_name s n < 100 then read_row k (sv_right s n) (int (sv_name s n)) val s
           else read_row k (sv_right s n) cell (int (sv_name s n mod 10)) s
      else Some (cell, val))"

definition write_row :: "nat \<Rightarrow> sudoku_solver \<Rightarrow> sudoku_solver option" where
  "write_row n s = do {
     (cell, val) \<leftarrow> read_row kMaxNodes n (- 1) (- 1) s;
     assert_that (nat cell < kCells);
     Some (s\<lparr>sv_inout := (sv_inout s)[nat cell := val]\<rparr>)
   }"

fun cover_others :: "nat \<Rightarrow> nat \<Rightarrow> nat \<Rightarrow> sudoku_solver \<Rightarrow> sudoku_solver option" where
  "cover_others 0 row j s = None"
| "cover_others (Suc k) row j s =
     (if j = row then Some s else do { s1 \<leftarrow> cover (sv_col s j) s; cover_others k row (sv_right s1 j) s1 })"

fun uncover_others :: "nat \<Rightarrow> nat \<Rightarrow> nat \<Rightarrow> sudoku_solver \<Rightarrow> sudoku_solver option" where
  "uncover_others 0 row j s = None"
| "uncover_others (Suc k) row j s =
     (if j = row then Some s else do { s1 \<leftarrow> uncover (sv_col s j) s; uncover_others k row (sv_left s1 j) s1 })"

text \<open>
  \<open>solve\<close> and its loop over the rows of the column it covers. The first argument bounds the depth of the
  recursion, the iterations of the loops included.
\<close>

fun solve :: "nat \<Rightarrow> sudoku_solver \<Rightarrow> (bool \<times> sudoku_solver) option"
  and try_rows :: "nat \<Rightarrow> nat \<Rightarrow> nat \<Rightarrow> sudoku_solver \<Rightarrow> (bool \<times> sudoku_solver) option" where
  "solve 0 s = None"
| "solve (Suc k) s =
     (if sv_left s (sv_root s) = sv_root s
      then do { s1 \<leftarrow> run_all write_row (sv_stack s) s; Some (True, s1) }
      else do {
        col \<leftarrow> get_min_column s;
        s1 \<leftarrow> cover col s;
        try_rows k col (sv_down s1 col) s1 })"
| "try_rows 0 col row s = None"
| "try_rows (Suc k) col row s =
     (if row = col then do { s1 \<leftarrow> uncover col s; Some (False, s1) }
      else do {
        let s1 = s\<lparr>sv_stack := sv_stack s @ [row]\<rparr>;
        s2 \<leftarrow> cover_others kMaxNodes row (sv_right s1 row) s1;
        (done, s3) \<leftarrow> solve k s2;
        if done then Some (True, s3)
        else do {
          let s4 = s3\<lparr>sv_stack := butlast (sv_stack s3)\<rparr>;
          s5 \<leftarrow> uncover_others kMaxNodes row (sv_left s4 row) s4;
          try_rows k col (sv_down s5 row) s5 } })"

definition solve_depth :: nat where
  "solve_depth = Suc kMaxNodes * (kMaxNodes + 3)"

text \<open>
  \<open>char\<close> is signed; a digit character is the digit plus the character 0. The memory of the solver is
  not initialised before the constructor runs: \<open>s\<close> is anything.
\<close>

definition digit_of :: "char \<Rightarrow> int" where
  "digit_of ch = (let n = int (of_char ch :: nat) in (if n < 128 then n else n - 256) - 48)"

definition digit_char :: "int \<Rightarrow> char" where
  "digit_char d = char_of (nat ((d + 48) mod 256))"

definition solveSudoku :: "sudoku_solver \<Rightarrow> string \<Rightarrow> string option" where
  "solveSudoku s puzzle = do {
     assert_that (length puzzle = kCells);
     let board = map (\<lambda>i. digit_of (puzzle ! i)) [0..<kCells];
     if list_all (\<lambda>d. 0 \<le> d \<and> d \<le> 9) board
     then do {
       s1 \<leftarrow> SudokuSolver_new board s;
       (solved, s2) \<leftarrow> solve solve_depth s1;
       Some (if solved then map digit_char (sv_inout s2) else kNoSolution) }
     else Some kNoSolution
   }"

end
