(* ===== verification/SudokuServer.thy ===== *)
theory SudokuServer
  imports Sudoku Buffer LogStream
begin

section \<open>The Sudoku server and its client\<close>

text \<open>
  The programs net/sudoku/server_threadpool.cc and net/sudoku/batch.cc. A connection of the library appears as its input
  buffer and the calls made of it: the server takes requests from the buffer and passes them to its thread pool as
  tasks, each of which sends an answer; the client sends its puzzles and counts the answers.
\<close>

subsection \<open>The server\<close>

text \<open>
  The bytes of a buffer as the characters of a \<open>std::string\<close>, and back.
\<close>

definition chars_of :: "byte list \<Rightarrow> string" where
  "chars_of bs = map (\<lambda>b. char_of (unat b)) bs"

definition bytes_of :: "string \<Rightarrow> byte list" where
  "bytes_of cs = map (\<lambda>c. of_nat (of_char c)) cs"

text \<open>Calls of a connection made by a server or client, in order.\<close>

datatype conn_call = Call_send "byte list" | Call_shutdown

text \<open>
  What the server does for one connection: \<open>ss_input\<close> is the input buffer of the connection, \<open>ss_tasks\<close> are the
  arguments \<open>puzzle\<close> and \<open>id\<close> of the tasks passed to \<open>threadPool_.run\<close>, and \<open>ss_calls\<close> the calls of the connection.
\<close>

record sudoku_session =
  ss_input :: buffer
  ss_tasks :: "(string \<times> string) list"
  ss_calls :: "conn_call list"

definition processRequest :: "string \<Rightarrow> sudoku_session \<Rightarrow> bool \<times> sudoku_session" where
  "processRequest request s =
     (let colon = dropWhile (\<lambda>c. c \<noteq> CHR '':'') request;
          id = (if colon \<noteq> [] then takeWhile (\<lambda>c. c \<noteq> CHR '':'') request else []);
          puzzle = (if colon \<noteq> [] then tl colon else request)
      in if length puzzle = kCells then (True, s\<lparr>ss_tasks := ss_tasks s @ [(puzzle, id)]\<rparr>) else (False, s))"

text \<open>
  The loop of \<open>onMessage\<close>. The severity \<open>FATAL\<close> ends the program. The counter \<open>aa\<close> is only logged.
\<close>

partial_function (option) server_loop :: "nat \<Rightarrow> sudoku_session \<Rightarrow> sudoku_session option" where
  "server_loop len s =
     (if len \<ge> kCells + 2
      then if findCRLF (ss_input s) \<noteq> None
        then do {
          crlf \<leftarrow> findCRLF (ss_input s);
          request \<leftarrow> peek_bytes (ss_input s) (crlf - readerIndex (ss_input s));
          buf \<leftarrow> retrieveUntil (ss_input s) (crlf + 2);
          let r = processRequest (chars_of request) (s\<lparr>ss_input := buf\<rparr>);
          if fst r then server_loop (readableBytes buf) (snd r)
          else Some ((snd r)\<lparr>ss_calls := ss_calls (snd r) @ [Call_send (bytes_of ''Bad Request!'' @ kCRLF), Call_shutdown]\<rparr>) }
        else if len > 100
          then Some (s\<lparr>ss_calls := ss_calls s @ [Call_send (bytes_of ''Id too long!'' @ kCRLF), Call_shutdown]\<rparr>)
          else None
      else Some s)"

declare server_loop.simps [code]

definition server_onMessage :: "sudoku_session \<Rightarrow> sudoku_session option" where
  "server_onMessage s = server_loop (readableBytes (ss_input s)) s"

text \<open>The task of a request: what it sends, for a solver constructed in any memory.\<close>

definition server_solve :: "sudoku_solver \<Rightarrow> string \<times> string \<Rightarrow> conn_call option" where
  "server_solve mem = (\<lambda>(puzzle, id). do {
     result \<leftarrow> solveSudoku mem puzzle;
     Some (Call_send (if id = [] then bytes_of result @ kCRLF else bytes_of (id @ '':'' @ result) @ kCRLF))
   })"

text \<open>A message: bytes that arrive at the end of the input buffer, and the callback.\<close>

definition server_receive :: "byte list \<Rightarrow> sudoku_session \<Rightarrow> sudoku_session option" where
  "server_receive bs s = do {
     buf \<leftarrow> append_raw (ss_input s) bs (length bs);
     server_onMessage (s\<lparr>ss_input := buf\<rparr>)
   }"

definition session_new :: "sudoku_session option" where
  "session_new = do { buf \<leftarrow> Buffer_new kInitialSize; Some \<lparr>ss_input = buf, ss_tasks = [], ss_calls = []\<rparr> }"

subsection \<open>The client\<close>

definition verify :: "string \<Rightarrow> bool" where
  "verify result = True"

text \<open>
  One client: \<open>sc_puzzles\<close> is \<open>*input_\<close>, \<open>sc_input\<close> the input buffer of the connection, \<open>sc_calls\<close> the calls of the
  connection, and \<open>sc_done\<close> the counts passed to \<open>cb_\<close>.
\<close>

record sudoku_client =
  sc_puzzles :: "string list"
  sc_count :: int
  sc_input :: buffer
  sc_calls :: "conn_call list"
  sc_done :: "int list"

definition SudokuClient_new :: "string list \<Rightarrow> sudoku_client option" where
  "SudokuClient_new input = do {
     buf \<leftarrow> Buffer_new kInitialSize;
     Some \<lparr>sc_puzzles = input, sc_count = 0, sc_input = buf, sc_calls = [], sc_done = []\<rparr> }"

text \<open>\<open>onConnection\<close>, when the connection is up; \<open>junk\<close> is what the array of the log stream holds at first.\<close>

definition send_request :: "string \<Rightarrow> string \<Rightarrow> sudoku_client \<Rightarrow> sudoku_client option" where
  "send_request junk p s = do {
     buf \<leftarrow> put_items [LString p, LCstr (Some [CHR 0x0D, CHR 0x0A])] (FixedBuffer_new junk);
     Some (s\<lparr>sc_calls := sc_calls s @ [Call_send (bytes_of (fb_toString buf))]\<rparr>) }"

definition client_onConnection :: "string \<Rightarrow> sudoku_client \<Rightarrow> sudoku_client option" where
  "client_onConnection junk s = run_all (send_request junk) (sc_puzzles s) s"

partial_function (option) client_loop :: "nat \<Rightarrow> sudoku_client \<Rightarrow> sudoku_client option" where
  "client_loop len s =
     (if len \<ge> kCells + 2
      then if findCRLF (sc_input s) \<noteq> None
        then do {
          crlf \<leftarrow> findCRLF (sc_input s);
          response \<leftarrow> peek_bytes (sc_input s) (crlf - readerIndex (sc_input s));
          buf \<leftarrow> retrieveUntil (sc_input s) (crlf + 2);
          count \<leftarrow> ck32 (sc_count s + 1);
          let s1 = s\<lparr>sc_input := buf, sc_count := count\<rparr>;
          if \<not> verify (chars_of response) then Some (s1\<lparr>sc_calls := sc_calls s1 @ [Call_shutdown]\<rparr>)
          else client_loop (readableBytes buf) s1 }
        else if len > 100 then Some (s\<lparr>sc_calls := sc_calls s @ [Call_shutdown]\<rparr>)
          else Some s
      else Some s)"

declare client_loop.simps [code]

definition client_onMessage :: "sudoku_client \<Rightarrow> sudoku_client option" where
  "client_onMessage s = do {
     s1 \<leftarrow> client_loop (readableBytes (sc_input s)) s;
     Some (if sc_count s1 = cast_int32 (int (length (sc_puzzles s1)))
       then s1\<lparr>sc_done := sc_done s1 @ [sc_count s1], sc_calls := sc_calls s1 @ [Call_shutdown]\<rparr> else s1)
   }"

definition client_receive :: "byte list \<Rightarrow> sudoku_client \<Rightarrow> sudoku_client option" where
  "client_receive bs s = do {
     buf \<leftarrow> append_raw (sc_input s) bs (length bs);
     client_onMessage (s\<lparr>sc_input := buf\<rparr>)
   }"

end
