(* ===== verification/LinkedRings.thy ===== *)
theory LinkedRings
  imports Main
begin

section \<open>Doubly linked rings\<close>

text \<open>
  The two directions of a doubly linked ring as two functions from nodes to nodes, and what removing a node from a
  ring and inserting one does to the nodes one meets along it.
\<close>

subsection \<open>Rings of nodes\<close>

text \<open>
  \<open>links nx pv xs\<close>: each node of the list is followed by the next one along \<open>nx\<close>, which points back to it
  along \<open>pv\<close>. A ring is a header with the nodes one meets until one is back.
\<close>

fun links :: "('a \<Rightarrow> 'a) \<Rightarrow> ('a \<Rightarrow> 'a) \<Rightarrow> 'a list \<Rightarrow> bool" where
  "links nx pv (a # b # ys) \<longleftrightarrow> nx a = b \<and> pv b = a \<and> links nx pv (b # ys)"
| "links nx pv _ \<longleftrightarrow> True"

definition ring :: "('a \<Rightarrow> 'a) \<Rightarrow> ('a \<Rightarrow> 'a) \<Rightarrow> 'a \<Rightarrow> 'a list \<Rightarrow> bool" where
  "ring nx pv h xs \<longleftrightarrow> distinct (h # xs) \<and> links nx pv (h # xs @ [h])"

fun path :: "('a \<Rightarrow> 'a) \<Rightarrow> 'a \<Rightarrow> 'a list \<Rightarrow> 'a \<Rightarrow> bool" where
  "path nx x [] y \<longleftrightarrow> x = y"
| "path nx x (a # as) y \<longleftrightarrow> x = a \<and> path nx (nx a) as y"

lemma links_Cons: "links nx pv (a # ys) \<longleftrightarrow> (ys = [] \<or> nx a = hd ys \<and> pv (hd ys) = a \<and> links nx pv ys)"
  by (cases ys) auto

lemma links_append:
  "links nx pv (xs @ b # ys) \<longleftrightarrow> links nx pv (xs @ [b]) \<and> links nx pv (b # ys)"
  by (induction xs) (auto simp: links_Cons hd_append split: if_splits)

lemma links_append2:
  "links nx pv (xs @ a # b # ys) \<longleftrightarrow> links nx pv (xs @ [a]) \<and> nx a = b \<and> pv b = a \<and> links nx pv (b # ys)"
  using links_append [of nx pv xs a "b # ys"] by simp

lemma links_cong:
  assumes "\<And>x. x \<in> set (butlast xs) \<Longrightarrow> nx' x = nx x" and "\<And>x. x \<in> set (tl xs) \<Longrightarrow> pv' x = pv x"
  shows "links nx' pv' xs \<longleftrightarrow> links nx pv xs"
  using assms
proof (induction xs)
  case (Cons a ys)
  show ?case
  proof (cases ys)
    case (Cons b zs)
    have "links nx' pv' ys \<longleftrightarrow> links nx pv ys"
      by (rule Cons.IH) (use Cons.prems Cons in auto)
    then show ?thesis
      using Cons.prems Cons by simp
  qed simp
qed simp

lemma links_path: "links nx pv (a # xs @ [b]) \<Longrightarrow> path nx (nx a) xs b"
  by (induction xs arbitrary: a) auto

lemma links_last: "links nx pv (a # xs @ [b]) \<Longrightarrow> nx (last (a # xs)) = b \<and> pv b = last (a # xs)"
  by (induction xs arbitrary: a) auto

lemma links_rev: "links nx pv xs \<longleftrightarrow> links pv nx (rev xs)"
proof (induction xs)
  case (Cons a xs)
  then show ?case
    by (cases xs) (auto simp: links_append2)
qed simp

lemma ring_rev: "ring nx pv h xs \<longleftrightarrow> ring pv nx h (rev xs)"
  by (simp add: ring_def links_rev [of nx pv])

lemma ring_path: "ring nx pv h xs \<Longrightarrow> path nx (nx h) xs h"
  unfolding ring_def by (blast intro: links_path)

lemma ring_cong:
  assumes "\<And>x. x \<in> set (h # xs) \<Longrightarrow> nx' x = nx x" and "\<And>x. x \<in> set (h # xs) \<Longrightarrow> pv' x = pv x"
  shows "ring nx' pv' h xs \<longleftrightarrow> ring nx pv h xs"
proof -
  have "links nx' pv' (h # xs @ [h]) \<longleftrightarrow> links nx pv (h # xs @ [h])"
    by (rule links_cong) (use assms in \<open>auto dest: in_set_butlastD\<close>)
  then show ?thesis
    by (simp add: ring_def)
qed

text \<open>The neighbours of a node of a ring.\<close>

lemma ring_split:
  assumes "ring nx pv h (as @ j # bs)"
  shows "nx j = hd (bs @ [h])" and "pv j = last (h # as)" and "nx (last (h # as)) = j" and "pv (hd (bs @ [h])) = j"
proof -
  have l: "links nx pv ((h # as) @ j # (bs @ [h]))"
    using assms by (simp add: ring_def)
  then have l1: "links nx pv (j # bs @ [h])" and l2: "links nx pv (h # as @ [j])"
    using links_append [of nx pv "h # as" j "bs @ [h]"] by simp_all
  show "nx j = hd (bs @ [h])" "pv (hd (bs @ [h])) = j"
    using l1 by (simp_all add: links_Cons)
  show "pv j = last (h # as)" "nx (last (h # as)) = j"
    using links_last [OF l2] by simp_all
qed

lemma ring_neighbours:
  assumes "ring nx pv h xs" and "j \<in> set xs"
  shows "nx j \<in> set (h # xs)" and "pv j \<in> set (h # xs)" and "nx j \<noteq> j" and "pv j \<noteq> j"
    and "nx (pv j) = j" and "pv (nx j) = j"
proof -
  obtain as bs where xs: "xs = as @ j # bs"
    using assms(2) by (auto simp: in_set_conv_decomp)
  note r = ring_split [OF assms(1) [unfolded xs]]
  have d: "distinct (h # as @ j # bs)"
    using assms(1) by (simp add: ring_def xs)
  show "nx j \<in> set (h # xs)" "nx j \<noteq> j"
    using r(1) d by (cases bs; auto simp: xs)+
  show "pv j \<in> set (h # xs)" "pv j \<noteq> j"
    using r(2) d by (cases as rule: rev_cases; auto simp: xs)+
  show "nx (pv j) = j" "pv (nx j) = j"
    using r by simp_all
qed

lemma ring_remove:
  assumes "ring nx pv h (as @ j # bs)"
  shows "ring (nx(pv j := nx j)) (pv(nx j := pv j)) h (as @ bs)"
proof -
  let ?a = "last (h # as)" and ?b = "hd (bs @ [h])"
  let ?p = "butlast (h # as)" and ?q = "tl (bs @ [h])"
  note r = ring_split [OF assms]
  have d: "distinct (h # as @ j # bs)"
    using assms by (simp add: ring_def)
  have ap: "?p @ [?a] = h # as" and bq: "?b # ?q = bs @ [h]"
    by simp_all
  have l: "links nx pv ((h # as) @ j # (bs @ [h]))"
    using assms by (simp add: ring_def)
  have la: "links nx pv (?p @ [?a])" and lb: "links nx pv (?b # ?q)"
  proof -
    have "links nx pv (?p @ ?a # j # (bs @ [h]))"
      using l ap by (metis append.assoc append_Cons append_Nil)
    then show "links nx pv (?p @ [?a])"
      by (simp add: links_append2)
    have "links nx pv (j # bs @ [h])"
      using l links_append [of nx pv "h # as" j "bs @ [h]"] by simp
    then show "links nx pv (?b # ?q)"
      unfolding bq by (simp add: links_Cons [of _ _ j])
  qed
  have eq1: "links (nx(?a := ?b)) (pv(?b := ?a)) (?p @ [?a]) \<longleftrightarrow> links nx pv (?p @ [?a])"
  proof (rule links_cong)
    show "(nx(?a := ?b)) x = nx x" if "x \<in> set (butlast (?p @ [?a]))" for x
    proof -
      have "distinct (?p @ [?a])"
        unfolding ap using d by simp
      moreover have "x \<in> set ?p"
        using that by (simp only: butlast_snoc)
      ultimately have "x \<noteq> ?a"
        by (metis distinct_append disjoint_iff list.set_intros(1))
      then show ?thesis by simp
    qed
    show "(pv(?b := ?a)) x = pv x" if "x \<in> set (tl (?p @ [?a]))" for x
    proof -
      have "x \<in> set as"
        using that unfolding ap by simp
      moreover have "?b \<in> set bs \<or> ?b = h"
        by (cases bs) auto
      ultimately have "x \<noteq> ?b"
        using d by auto
      then show ?thesis by simp
    qed
  qed
  have eq2: "links (nx(?a := ?b)) (pv(?b := ?a)) (?b # ?q) \<longleftrightarrow> links nx pv (?b # ?q)"
  proof (rule links_cong)
    show "(nx(?a := ?b)) x = nx x" if "x \<in> set (butlast (?b # ?q))" for x
    proof -
      have "x \<in> set bs"
        using that unfolding bq by simp
      moreover have "?a \<in> set as \<or> ?a = h"
        by (cases as rule: rev_cases) auto
      ultimately have "x \<noteq> ?a"
        using d by auto
      then show ?thesis by simp
    qed
    show "(pv(?b := ?a)) x = pv x" if "x \<in> set (tl (?b # ?q))" for x
    proof -
      have "distinct (bs @ [h])"
        using d by auto
      then have "x \<noteq> ?b"
        using that bq by (metis distinct.simps(2) list.sel(3))
      then show ?thesis by simp
    qed
  qed
  have "links (nx(?a := ?b)) (pv(?b := ?a)) (?p @ ?a # ?b # ?q)"
    using la lb unfolding links_append2 eq1 eq2 by (simp only: fun_upd_same simp_thms)
  then have "links (nx(?a := ?b)) (pv(?b := ?a)) (h # (as @ bs) @ [h])"
    using ap bq by (metis append.assoc append_Cons append_Nil)
  then show ?thesis
    using d r by (simp add: ring_def)
qed

subsection \<open>Growing a ring\<close>

lemma ring_snoc:
  assumes r: "ring nx pv h xs" and x: "x \<notin> set (h # xs)"
  shows "ring (nx(x := h, pv h := x)) (pv(x := pv h, h := x)) h (xs @ [x])"
proof -
  let ?nx = "nx(x := h, pv h := x)" and ?pv = "pv(x := pv h, h := x)"
  obtain ys l where ys: "h # xs = ys @ [l]"
    by (metis list.distinct(1) rev_exhaust)
  have d: "distinct (ys @ [l])" "x \<notin> set (ys @ [l])" and "links nx pv ((ys @ [l]) @ [h])"
    using r x unfolding ring_def ys [symmetric] append_Cons [symmetric] by blast+
  then have l: "links nx pv (ys @ l # [h])"
    by simp
  have p: "pv h = l"
    using l links_append [of nx pv ys l "[h]"] by simp
  have l1: "links nx pv (ys @ [l])"
    using l links_append [of nx pv ys l "[h]"] by simp
  have "tl (ys @ [l]) = xs"
    by (simp flip: ys)
  then have "links ?nx ?pv (ys @ [l]) \<longleftrightarrow> links nx pv (ys @ [l])"
    using d p r x by (intro links_cong) (auto simp: ring_def)
  then have "links ?nx ?pv (ys @ l # [x, h])"
    using l1 p d(2) x links_append2 [of ?nx ?pv ys l x "[h]"] by simp
  moreover have "ys @ l # [x, h] = h # (xs @ [x]) @ [h]"
    using ys by (metis append.assoc append_Cons append_Nil)
  ultimately show ?thesis
    using r x by (auto simp: ring_def)
qed

lemma ring_rotate:
  assumes "ring nx pv h (as @ j # bs)"
  shows "ring nx pv j (bs @ h # as)"
proof -
  have "links nx pv (h # as @ [j])" "links nx pv (j # bs @ [h])"
    using assms links_append [of nx pv "h # as" j "bs @ [h]"] by (simp_all add: ring_def)
  then show ?thesis
    using assms links_append [of nx pv "j # bs" h "as @ [j]"] by (auto simp: ring_def)
qed

end
