(* ===== verification/DancingLinks.thy ===== *)
theory DancingLinks
  imports Sudoku LinkedRings
begin

section \<open>Covering and uncovering columns\<close>

text \<open>
  What the links of \<open>SudokuSolver\<close> represent while it solves: the active columns and their nodes. \<open>cover\<close> takes a
  column and the rows with a node in it out, \<open>uncover\<close> restores exactly the state before.
\<close>

subsection \<open>The matrix\<close>

text \<open>
  The part of the links that does not change while solving: the nodes \<open>N\<close>, the headers \<open>H\<close> (the root
  among them), the column of each node and the other nodes of its row, going right.
\<close>

locale matrix =
  fixes orow :: "nat \<Rightarrow> nat list"
    and colf :: "nat \<Rightarrow> nat"
    and N H :: "nat set"
  assumes row_distinct: "n \<in> N \<Longrightarrow> distinct (map colf (n # orow n))"
    and row_nodes: "n \<in> N \<Longrightarrow> j \<in> set (orow n) \<Longrightarrow> j \<in> N"
    and row_same: "n \<in> N \<Longrightarrow> j \<in> set (orow n) \<Longrightarrow> set (j # orow j) = set (n # orow n)"
    and headers: "n \<in> N \<Longrightarrow> colf n \<in> H"
    and disjoint: "N \<inter> H = {}"
    and finite_N: "finite N"
    and few_nodes: "card N < kMaxNodes"
    and finite_H: "finite H"
    and few_headers: "card H < kMaxNodes"
begin

text \<open>The columns of the row of a node, its own first.\<close>

definition rowcols :: "nat \<Rightarrow> nat list" where
  "rowcols n = map colf (n # orow n)"

text \<open>
  The active columns \<open>cols\<close> and their nodes \<open>nd\<close>: the other nodes of the row of an active node are active, too.
\<close>

definition awf :: "nat list \<Rightarrow> (nat \<Rightarrow> nat list) \<Rightarrow> bool" where
  "awf cols nd \<longleftrightarrow> distinct cols \<and> set cols \<subseteq> H
     \<and> (\<forall>c \<in> set cols. distinct (nd c) \<and> (\<forall>n \<in> set (nd c). n \<in> N \<and> colf n = c
          \<and> (\<forall>j \<in> set (orow n). colf j \<in> set cols \<and> j \<in> set (nd (colf j)))))"

text \<open>The columns as rings of nodes, with their sizes.\<close>

definition vertical :: "sudoku_solver \<Rightarrow> nat list \<Rightarrow> (nat \<Rightarrow> nat list) \<Rightarrow> bool" where
  "vertical s cols nd \<longleftrightarrow> (\<forall>n \<in> N. sv_col s n = colf n)
     \<and> (\<forall>c \<in> set cols. c \<in> H \<and> (\<forall>n \<in> set (nd c). n \<in> N \<and> colf n = c)
          \<and> ring (sv_down s) (sv_up s) c (nd c) \<and> sv_size s c = int (length (nd c)))"

text \<open>The rows as rings of nodes.\<close>

definition horizontal :: "sudoku_solver \<Rightarrow> bool" where
  "horizontal s \<longleftrightarrow> (\<forall>n \<in> N. ring (sv_right s) (sv_left s) n (orow n))"

text \<open>The links represent the active part of the matrix.\<close>

definition rep :: "sudoku_solver \<Rightarrow> nat list \<Rightarrow> (nat \<Rightarrow> nat list) \<Rightarrow> bool" where
  "rep s cols nd \<longleftrightarrow> awf cols nd \<and> vertical s cols nd \<and> horizontal s \<and> sv_root s \<in> H
     \<and> ring (sv_right s) (sv_left s) (sv_root s) cols"

lemma few: "distinct xs \<Longrightarrow> set xs \<subseteq> N \<Longrightarrow> length xs < kMaxNodes"
  using card_mono [OF finite_N, of "set xs"] few_nodes by (simp add: distinct_card)

lemma row_distinct_nodes: "n \<in> N \<Longrightarrow> distinct (n # orow n)"
  using row_distinct [of n] by (simp only: distinct_map)

lemma few_others: "n \<in> N \<Longrightarrow> length (orow n) < kMaxNodes"
  using row_distinct_nodes row_nodes by (intro few) auto

subsection \<open>Unlinking nodes\<close>

lemma unlink_fields [simp]:
  "sv_left (unlink_node j s) = sv_left s" "sv_right (unlink_node j s) = sv_right s"
  "sv_col (unlink_node j s) = sv_col s" "sv_name (unlink_node j s) = sv_name s"
  "sv_root (unlink_node j s) = sv_root s" "sv_inout (unlink_node j s) = sv_inout s"
  "sv_stack (unlink_node j s) = sv_stack s"
  by (simp_all add: unlink_node_def Let_def)

lemma relink_fields [simp]:
  "sv_left (relink_node j s) = sv_left s" "sv_right (relink_node j s) = sv_right s"
  "sv_col (relink_node j s) = sv_col s"
  by (simp_all add: relink_node_def Let_def)

lemma unlink_eq:
  assumes "sv_down s j \<noteq> j"
  shows "unlink_node j s = s\<lparr>sv_up := (sv_up s)(sv_down s j := sv_up s j),
    sv_down := (sv_down s)(sv_up s j := sv_down s j),
    sv_size := (sv_size s)(sv_col s j := sv_size s (sv_col s j) - 1)\<rparr>"
  using assms by (simp add: unlink_node_def Let_def)

lemma verticalD:
  assumes "vertical s cols nd" and "c \<in> set cols"
  shows "c \<in> H" "n \<in> set (nd c) \<Longrightarrow> n \<in> N" "n \<in> set (nd c) \<Longrightarrow> colf n = c"
    "ring (sv_down s) (sv_up s) c (nd c)" "sv_size s c = int (length (nd c))"
  using assms by (auto simp: vertical_def)

lemma columns_disjoint:
  assumes v: "vertical s cols nd" and c: "c \<in> set cols" "c2 \<in> set cols" "c2 \<noteq> c" and x: "x \<in> set (c2 # nd c2)"
  shows "x \<notin> set (c # nd c)"
proof -
  have "set (nd c) \<subseteq> {n \<in> N. colf n = c}" "set (nd c2) \<subseteq> {n \<in> N. colf n = c2}" "c \<in> H" "c2 \<in> H"
    using verticalD(1-3) [OF v] c by auto
  then show ?thesis
    using c(3) x disjoint by auto
qed

lemma unlink_relink:
  assumes v: "vertical s cols nd" and c: "c \<in> set cols" and j: "j \<in> set (nd c)"
  shows "relink_node j (unlink_node j s) = s"
proof -
  note r = ring_neighbours [OF verticalD(4) [OF v c] j]
  have "(sv_up s)(sv_down s j := j) = sv_up s" "(sv_down s)(sv_up s j := j) = sv_down s"
    using r(5,6) by (auto simp: fun_eq_iff)
  moreover have "sv_down s j \<noteq> j" "sv_up s j \<noteq> j"
    using r(3,4) by simp_all
  ultimately show ?thesis
    by (simp add: unlink_eq relink_node_def Let_def)
qed

lemma unlink_vertical:
  assumes v: "vertical s cols nd" and c: "c \<in> set cols" and j: "j \<in> set (nd c)"
  shows "vertical (unlink_node j s) cols (\<lambda>c2. filter (\<lambda>n. n \<noteq> j) (nd c2))"
proof -
  note rc = verticalD [OF v c]
  note r = ring_neighbours [OF rc(4) j]
  have j': "j \<in> N" "colf j = c" "sv_col s j = c"
    using rc(2,3) [OF j] v by (auto simp: vertical_def)
  have eq: "unlink_node j s = s\<lparr>sv_up := (sv_up s)(sv_down s j := sv_up s j),
    sv_down := (sv_down s)(sv_up s j := sv_down s j), sv_size := (sv_size s)(c := sv_size s c - 1)\<rparr>"
    using unlink_eq [OF r(3)] j'(3) by simp
  obtain as bs where nd: "nd c = as @ j # bs"
    using j by (auto simp: in_set_conv_decomp)
  have d: "distinct (nd c)"
    using rc(4) by (simp add: ring_def)
  have "filter (\<lambda>n. n \<noteq> j) as = as" "filter (\<lambda>n. n \<noteq> j) bs = bs"
    using d nd by (auto simp: filter_id_conv)
  then have "filter (\<lambda>n. n \<noteq> j) (nd c) = as @ bs"
    by (simp add: nd)
  then have own: "ring (sv_down (unlink_node j s)) (sv_up (unlink_node j s)) c (filter (\<lambda>n. n \<noteq> j) (nd c))"
    "sv_size (unlink_node j s) c = int (length (filter (\<lambda>n. n \<noteq> j) (nd c)))"
    using ring_remove [OF rc(4) [unfolded nd]] rc(5) nd by (simp_all add: eq)
  have other: "ring (sv_down (unlink_node j s)) (sv_up (unlink_node j s)) c2 (filter (\<lambda>n. n \<noteq> j) (nd c2))
      \<and> sv_size (unlink_node j s) c2 = int (length (filter (\<lambda>n. n \<noteq> j) (nd c2)))"
    if c2: "c2 \<in> set cols" "c2 \<noteq> c" for c2
  proof -
    note r2 = verticalD [OF v c2(1)]
    have "sv_down s j \<notin> set (c2 # nd c2)" "sv_up s j \<notin> set (c2 # nd c2)"
      using r(1,2) columns_disjoint [OF v c c2] by blast+
    then have "ring (sv_down (unlink_node j s)) (sv_up (unlink_node j s)) c2 (nd c2)"
      using r2(4) by (subst ring_cong [where nx = "sv_down s" and pv = "sv_up s"]) (auto simp: eq)
    moreover have "filter (\<lambda>n. n \<noteq> j) (nd c2) = nd c2"
      using r2(3) j'(2) c2(2) by (intro filter_True) auto
    ultimately show ?thesis
      using r2(5) c2(2) by (simp add: eq)
  qed
  have "\<forall>n \<in> N. sv_col (unlink_node j s) n = colf n"
    using v by (simp add: vertical_def)
  then show ?thesis
    using own other verticalD(1-3) [OF v] unfolding vertical_def by (auto simp: vertical_def)
qed

lemma unlinks:
  assumes "vertical s cols nd" and "distinct js" and "\<And>j. j \<in> set js \<Longrightarrow> \<exists>c \<in> set cols. j \<in> set (nd c)"
  shows "vertical (fold unlink_node js s) cols (\<lambda>c. filter (\<lambda>n. n \<notin> set js) (nd c))
    \<and> fold relink_node (rev js) (fold unlink_node js s) = s"
  using assms
proof (induction js arbitrary: s nd)
  case (Cons j js)
  obtain c where c: "c \<in> set cols" "j \<in> set (nd c)"
    using Cons.prems(3) [of j] by auto
  note v1 = unlink_vertical [OF Cons.prems(1) c]
  have d: "distinct js" "j \<notin> set js"
    using Cons.prems(2) by simp_all
  have m: "\<exists>c \<in> set cols. i \<in> set (filter (\<lambda>n. n \<noteq> j) (nd c))" if "i \<in> set js" for i
    using Cons.prems(3) [of i] d(2) that by auto
  have "filter (\<lambda>n. n \<notin> set js) (filter (\<lambda>n. n \<noteq> j) (nd c)) = filter (\<lambda>n. n \<notin> set (j # js)) (nd c)" for c
    by (auto intro!: filter_cong)
  then show ?case
    using Cons.IH [OF v1 d(1) m] unlink_relink [OF Cons.prems(1) c] by simp
qed simp

lemma unlinks_fields [simp]:
  "sv_left (fold unlink_node js s) = sv_left s" "sv_right (fold unlink_node js s) = sv_right s"
  "sv_col (fold unlink_node js s) = sv_col s" "sv_name (fold unlink_node js s) = sv_name s"
  "sv_root (fold unlink_node js s) = sv_root s" "sv_inout (fold unlink_node js s) = sv_inout s"
  "sv_stack (fold unlink_node js s) = sv_stack s"
  by (induction js arbitrary: s) simp_all

subsection \<open>The loops of \<open>cover\<close> and \<open>uncover\<close>\<close>

lemma cover_row_eq:
  "path (sv_right s) j xs row \<Longrightarrow> row \<notin> set xs \<Longrightarrow> length xs < k \<Longrightarrow> cover_row k row j s = Some (fold unlink_node xs s)"
proof (induction xs arbitrary: j s k)
  case Nil
  then show ?case by (cases k) simp_all
next
  case (Cons x xs)
  then show ?case by (cases k) (simp_all add: Let_def)
qed

lemma uncover_row_eq:
  "path (sv_left s) j xs row \<Longrightarrow> row \<notin> set xs \<Longrightarrow> length xs < k \<Longrightarrow> uncover_row k row j s = Some (fold relink_node xs s)"
proof (induction xs arbitrary: j s k)
  case Nil
  then show ?case by (cases k) simp_all
next
  case (Cons x xs)
  then show ?case by (cases k) (simp_all add: Let_def)
qed

lemma awfD:
  assumes "awf cols nd" and "c \<in> set cols"
  shows "c \<in> H" "distinct (nd c)" "n \<in> set (nd c) \<Longrightarrow> n \<in> N" "n \<in> set (nd c) \<Longrightarrow> colf n = c"
    "n \<in> set (nd c) \<Longrightarrow> j \<in> set (orow n) \<Longrightarrow> colf j \<in> set cols \<and> j \<in> set (nd (colf j))"
  using assms by (auto simp: awf_def)

lemma row_unique:
  assumes "n \<in> N" "m \<in> set (n # orow n)" "colf m = colf n"
  shows "m = n"
  using row_distinct [OF assms(1)] assms(2,3) by (auto simp: image_iff)

lemma rows_disjoint:
  assumes "n \<in> N" "m \<in> N" "colf m = colf n" "j \<in> set (orow n)" "j \<in> set (orow m)"
  shows "m = n"
proof -
  have "set (n # orow n) = set (m # orow m)"
    using row_same [OF assms(1,4)] row_same [OF assms(2,5)] by simp
  then have "m \<in> set (n # orow n)"
    by auto
  then show ?thesis
    using row_unique assms(1,3) by blast
qed

lemma others_active:
  assumes a: "awf cols nd" and c: "c \<in> set cols" and ds: "distinct ds" "set ds \<subseteq> set (nd c)"
  shows "distinct (concat (map orow ds))"
    and "j \<in> set (concat (map orow ds)) \<Longrightarrow> \<exists>c2 \<in> set cols. j \<in> set (nd c2)"
    and "j \<in> set (concat (map orow ds)) \<Longrightarrow> j \<notin> set (nd c)"
proof -
  note A = awfD [OF a c]
  show "distinct (concat (map orow ds))"
    using ds
  proof (induction ds)
    case (Cons d ds)
    have "set (orow d) \<inter> set (orow e) = {}" if "e \<in> set ds" for e
      using rows_disjoint [of d e] A(3,4) [of d] A(3,4) [of e] Cons.prems that by auto
    moreover have "distinct (orow d)"
      using row_distinct_nodes [OF A(3) [of d]] Cons.prems by simp
    ultimately show ?case
      using Cons by fastforce
  qed simp
  show "\<exists>c2 \<in> set cols. j \<in> set (nd c2)" if "j \<in> set (concat (map orow ds))"
    using that ds A(5) by fastforce
  show "j \<notin> set (nd c)" if j: "j \<in> set (concat (map orow ds))"
  proof
    assume jc: "j \<in> set (nd c)"
    obtain d where d: "d \<in> set (nd c)" "j \<in> set (orow d)"
      using j ds by auto
    have "j = d"
      using row_unique [of d j] A(3,4) d jc by simp
    then show False
      using row_distinct_nodes [OF A(3) [OF d(1)]] d(2) by simp
  qed
qed

lemma rows_unlinked:
  assumes a: "awf cols nd" and v: "vertical s cols nd" and c: "c \<in> set cols"
    and ds: "distinct ds" "set ds \<subseteq> set (nd c)"
  shows "vertical (fold unlink_node (concat (map orow ds)) s) cols
      (\<lambda>c2. filter (\<lambda>n. n \<notin> set (concat (map orow ds))) (nd c2))"
    and "ring (sv_down (fold unlink_node (concat (map orow ds)) s)) (sv_up (fold unlink_node (concat (map orow ds)) s)) c (nd c)"
proof -
  note o = others_active [OF a c ds]
  show v': "vertical (fold unlink_node (concat (map orow ds)) s) cols
      (\<lambda>c2. filter (\<lambda>n. n \<notin> set (concat (map orow ds))) (nd c2))"
    using unlinks [OF v o(1,2)] by blast
  have "filter (\<lambda>n. n \<notin> set (concat (map orow ds))) (nd c) = nd c"
    by (rule filter_True) (use o(3) in blast)
  then show "ring (sv_down (fold unlink_node (concat (map orow ds)) s)) (sv_up (fold unlink_node (concat (map orow ds)) s)) c (nd c)"
    using verticalD(4) [OF v' c] by simp
qed

lemma horizontal_path:
  assumes "horizontal s" "n \<in> N"
  shows "path (sv_right s) (sv_right s n) (orow n) n" "path (sv_left s) (sv_left s n) (rev (orow n)) n"
  using assms ring_path [of "sv_right s" "sv_left s" n "orow n"] ring_path [of "sv_left s" "sv_right s" n "rev (orow n)"]
    ring_rev [of "sv_right s" "sv_left s" n "orow n"] by (simp_all add: horizontal_def)

lemma others_loop:
  assumes "horizontal s" "n \<in> N"
  shows "cover_row kMaxNodes n (sv_right s n) s = Some (fold unlink_node (orow n) s)"
    and "uncover_row kMaxNodes n (sv_left s n) s = Some (fold relink_node (rev (orow n)) s)"
proof -
  have "n \<notin> set (orow n)"
    using row_distinct_nodes [OF assms(2)] by simp
  then show "cover_row kMaxNodes n (sv_right s n) s = Some (fold unlink_node (orow n) s)"
    "uncover_row kMaxNodes n (sv_left s n) s = Some (fold relink_node (rev (orow n)) s)"
    using horizontal_path [OF assms] few_others [OF assms(2)]
    by (auto intro!: cover_row_eq uncover_row_eq)
qed

lemma horizontal_unlinks [simp]: "horizontal (fold unlink_node js s) = horizontal s"
  by (simp add: horizontal_def)

lemma cover_rows_eq:
  assumes a: "awf cols nd" and v: "vertical s cols nd" and h: "horizontal s" and c: "c \<in> set cols"
  shows "nd c = ds @ rs \<Longrightarrow> length rs < k \<Longrightarrow>
    cover_rows k c (hd (rs @ [c])) (fold unlink_node (concat (map orow ds)) s)
      = Some (fold unlink_node (concat (map orow (nd c))) s)"
proof (induction rs arbitrary: ds k)
  case Nil
  then show ?case
    by (cases k) simp_all
next
  case (Cons r rs)
  note A = awfD [OF a c]
  let ?t = "fold unlink_node (concat (map orow ds)) s"
  let ?t' = "fold unlink_node (concat (map orow (ds @ [r]))) s"
  obtain k' where k: "k = Suc k'" "length rs < k'"
    using Cons.prems(2) by (cases k) simp_all
  have r: "r \<in> N" "r \<noteq> c"
    using A(1,3) Cons.prems(1) disjoint by auto
  have "ring (sv_down ?t') (sv_up ?t') c (nd c)"
    by (rule rows_unlinked [OF a v c]) (use A(2) Cons.prems(1) in auto)
  then have "sv_down ?t' r = hd (rs @ [c])"
    using ring_split(1) [of "sv_down ?t'" "sv_up ?t'" c ds r rs] Cons.prems(1) by simp
  moreover have "cover_row kMaxNodes r (sv_right ?t r) ?t = Some ?t'"
    using others_loop(1) [of ?t r] h r(1) by simp
  ultimately show ?case
    using Cons.IH [of "ds @ [r]" k'] Cons.prems(1) k r(2) by simp
qed

lemma uncover_rows_eq:
  assumes a: "awf cols nd" and v: "vertical s cols nd" and h: "horizontal s" and c: "c \<in> set cols"
  shows "nd c = ds @ rs \<Longrightarrow> length ds < k \<Longrightarrow>
    uncover_rows k c (last (c # ds)) (fold unlink_node (concat (map orow ds)) s) = Some s"
proof (induction ds arbitrary: rs k rule: rev_induct)
  case Nil
  then show ?case
    by (cases k) simp_all
next
  case (snoc r ds)
  note A = awfD [OF a c]
  let ?t = "fold unlink_node (concat (map orow ds)) s"
  let ?t' = "fold unlink_node (orow r) ?t"
  obtain k' where k: "k = Suc k'" "length ds < k'"
    using snoc.prems(2) by (cases k) simp_all
  have r: "r \<in> N" "r \<noteq> c"
    using A(1,3) snoc.prems(1) disjoint by auto
  have ds: "distinct ds" "set ds \<subseteq> set (nd c)" and ds1: "distinct (ds @ [r])" "set (ds @ [r]) \<subseteq> set (nd c)"
    using A(2) snoc.prems(1) by auto
  note u = rows_unlinked [OF a v c ds]
  note o = others_active [OF a c ds1]
  have act: "\<exists>c2 \<in> set cols. j \<in> set (filter (\<lambda>n. n \<notin> set (concat (map orow ds))) (nd c2))"
    if "j \<in> set (orow r)" for j
  proof -
    have "j \<in> set (concat (map orow (ds @ [r])))"
      using that by simp
    then obtain c2 where "c2 \<in> set cols" "j \<in> set (nd c2)"
      using o(2) by blast
    moreover have "j \<notin> set (concat (map orow ds))"
      using o(1) that by auto
    ultimately show ?thesis
      by auto
  qed
  have "distinct (orow r)"
    using row_distinct_nodes [OF r(1)] by simp
  then have "fold relink_node (rev (orow r)) ?t' = ?t"
    using unlinks [OF u(1) _ act] by blast
  then have "uncover_row kMaxNodes r (sv_left ?t' r) ?t' = Some ?t"
    using others_loop(2) [of ?t' r] h r(1) by simp
  moreover have "sv_up ?t r = last (c # ds)"
    using ring_split(2) [of "sv_down ?t" "sv_up ?t" c ds r rs] u(2) snoc.prems(1) by simp
  ultimately show ?case
    using snoc.IH [of "r # rs" k'] snoc.prems(1) k r(2) by simp
qed

subsection \<open>Covering a column\<close>

text \<open>The matrix without the columns \<open>R\<close> and without the rows that have a node in one of them.\<close>

definition less_cols :: "nat set \<Rightarrow> nat list \<Rightarrow> nat list" where
  "less_cols R cols = filter (\<lambda>c. c \<notin> R) cols"

definition less_rows :: "nat set \<Rightarrow> (nat \<Rightarrow> nat list) \<Rightarrow> nat \<Rightarrow> nat list" where
  "less_rows R nd = (\<lambda>c. filter (\<lambda>n. set (rowcols n) \<inter> R = {}) (nd c))"

lemma set_less_cols [simp]: "set (less_cols R cols) = set cols - R"
  by (auto simp: less_cols_def)

lemma set_less_rows [simp]: "set (less_rows R nd c) = {n \<in> set (nd c). set (rowcols n) \<inter> R = {}}"
  by (simp add: less_rows_def)

lemma less_less [simp]:
  "less_cols Q (less_cols R cols) = less_cols (R \<union> Q) cols" "less_rows Q (less_rows R nd) = less_rows (R \<union> Q) nd"
  "less_cols {} cols = cols" "less_rows {} nd = nd"
  by (auto simp: less_cols_def less_rows_def fun_eq_iff Int_Un_distrib intro!: filter_cong)

lemma rowcols_same:
  assumes "n \<in> N" "j \<in> set (orow n)"
  shows "set (rowcols j) = set (rowcols n)"
proof -
  have "set (rowcols j) = colf ` set (j # orow j)" "set (rowcols n) = colf ` set (n # orow n)"
    by (simp_all only: rowcols_def set_map)
  then show ?thesis
    using row_same [OF assms] by (simp only:)
qed

lemma row_sym:
  assumes "n \<in> N" "j \<in> set (orow n)"
  shows "n \<in> set (orow j)"
proof -
  have "n \<noteq> j"
    using row_distinct_nodes [OF assms(1)] assms(2) by auto
  moreover have "n \<in> set (j # orow j)"
    using row_same [OF assms] by simp
  ultimately show ?thesis
    by simp
qed

lemma awf_less:
  assumes "awf cols nd"
  shows "awf (less_cols R cols) (less_rows R nd)"
proof -
  have d: "distinct (less_cols R cols)" "\<forall>c \<in> set cols. distinct (less_rows R nd c)"
    using assms by (auto simp: awf_def less_cols_def less_rows_def)
  have "colf j \<in> set cols - R \<and> j \<in> set (nd (colf j)) \<and> set (rowcols j) \<inter> R = {}"
    if "c \<in> set cols" "n \<in> set (nd c)" "set (rowcols n) \<inter> R = {}" "j \<in> set (orow n)" for c n j
  proof -
    have "colf j \<in> set (rowcols n)"
      using that(4) by (simp add: rowcols_def)
    then show ?thesis
      using awfD(3,5) [OF assms that(1,2)] rowcols_same [of n j] that(3,4) by auto
  qed
  then have "\<forall>c \<in> set cols. \<forall>n \<in> set (nd c). set (rowcols n) \<inter> R = {} \<longrightarrow>
      (\<forall>j \<in> set (orow n). colf j \<in> set cols - R \<and> j \<in> set (nd (colf j)) \<and> set (rowcols j) \<inter> R = {})"
    by blast
  then show ?thesis
    using assms d unfolding awf_def by simp blast
qed

lemma covered_rows:
  assumes a: "awf cols nd" and c: "c \<in> set cols" "c2 \<in> set cols" "c2 \<noteq> c"
  shows "filter (\<lambda>n. n \<notin> set (concat (map orow (nd c)))) (nd c2) = less_rows {c} nd c2"
proof -
  have "n \<in> set (concat (map orow (nd c))) \<longleftrightarrow> c \<in> set (rowcols n)" if n: "n \<in> set (nd c2)" for n
  proof
    note A = awfD [OF a c(2)]
    assume "n \<in> set (concat (map orow (nd c)))"
    then obtain d where d: "d \<in> set (nd c)" "n \<in> set (orow d)"
      by auto
    have "d \<in> set (orow n)"
      by (rule row_sym) (use awfD(3) [OF a c(1) d(1)] d(2) in auto)
    then show "c \<in> set (rowcols n)"
      using awfD(4) [OF a c(1) d(1)] by (auto simp: rowcols_def)
  next
    note A = awfD [OF a c(2)]
    assume "c \<in> set (rowcols n)"
    then obtain j where j: "j \<in> set (orow n)" "colf j = c"
      using A(4) [OF n] c(3) by (auto simp: rowcols_def)
    have "n \<in> set (orow j)"
      by (rule row_sym) (use A(3) [OF n] j(1) in auto)
    moreover have "j \<in> set (nd c)"
      using A(5) [OF n j(1)] j(2) by simp
    ultimately show "n \<in> set (concat (map orow (nd c)))"
      by auto
  qed
  then show ?thesis
    by (auto simp: less_rows_def intro!: filter_cong)
qed

text \<open>\<open>cover\<close> first takes the header out of the ring of headers.\<close>

definition hide :: "nat \<Rightarrow> sudoku_solver \<Rightarrow> sudoku_solver" where
  "hide c s = s\<lparr>sv_left := (sv_left s)(sv_right s c := sv_left s c), sv_right := (sv_right s)(sv_left s c := sv_right s c)\<rparr>"

lemma hide_fields [simp]:
  "sv_up (hide c s) = sv_up s" "sv_down (hide c s) = sv_down s" "sv_size (hide c s) = sv_size s"
  "sv_col (hide c s) = sv_col s" "sv_name (hide c s) = sv_name s"
  "sv_root (hide c s) = sv_root s" "sv_inout (hide c s) = sv_inout s" "sv_stack (hide c s) = sv_stack s"
  by (simp_all add: hide_def)

lemma repD:
  assumes "rep s cols nd"
  shows "awf cols nd" "vertical s cols nd" "horizontal s" "sv_root s \<in> H" "set cols \<subseteq> H" "distinct cols"
    "ring (sv_right s) (sv_left s) (sv_root s) cols"
  using assms by (auto simp: rep_def awf_def)

lemma hide_ring:
  assumes r: "rep s cols nd" and c: "c \<in> set cols"
  shows "ring (sv_right (hide c s)) (sv_left (hide c s)) (sv_root s) (less_cols {c} cols)"
    and "horizontal (hide c s)"
    and "sv_right s c \<noteq> c" "sv_left s c \<noteq> c" "sv_left s (sv_right s c) = c" "sv_right s (sv_left s c) = c"
proof -
  note R = repD [OF r]
  note n = ring_neighbours [OF R(7) c]
  show "sv_right s c \<noteq> c" "sv_left s c \<noteq> c" "sv_left s (sv_right s c) = c" "sv_right s (sv_left s c) = c"
    using n by simp_all
  obtain as bs where cols: "cols = as @ c # bs"
    using c by (auto simp: in_set_conv_decomp)
  have "filter (\<lambda>x. x \<noteq> c) as = as" "filter (\<lambda>x. x \<noteq> c) bs = bs"
    using R(6) cols by (auto intro!: filter_True)
  then have "less_cols {c} cols = as @ bs"
    using cols by (simp add: less_cols_def)
  then show "ring (sv_right (hide c s)) (sv_left (hide c s)) (sv_root s) (less_cols {c} cols)"
    using ring_remove [of "sv_right s" "sv_left s" "sv_root s" as c bs] R(7) cols by (simp add: hide_def)
  have "sv_right s c \<in> H" "sv_left s c \<in> H"
    using n(1,2) R(4,5) by auto
  then have "ring (sv_right (hide c s)) (sv_left (hide c s)) m (orow m)" if "m \<in> N" for m
    using R(3) that row_nodes [OF that] disjoint
    by (subst ring_cong [where nx = "sv_right s" and pv = "sv_left s"]) (auto simp: hide_def horizontal_def)
  then show "horizontal (hide c s)"
    by (simp add: horizontal_def)
qed

definition covered :: "nat \<Rightarrow> (nat \<Rightarrow> nat list) \<Rightarrow> sudoku_solver \<Rightarrow> sudoku_solver" where
  "covered c nd s = fold unlink_node (concat (map orow (nd c))) (hide c s)"

lemma covered_fields [simp]:
  "sv_name (covered c nd s) = sv_name s" "sv_root (covered c nd s) = sv_root s"
  "sv_inout (covered c nd s) = sv_inout s" "sv_stack (covered c nd s) = sv_stack s" "sv_col (covered c nd s) = sv_col s"
  by (simp_all add: covered_def)

lemma hide_vertical: "vertical (hide c s) cols nd = vertical s cols nd"
  by (simp add: vertical_def)

lemma column_few: "awf cols nd \<Longrightarrow> c \<in> set cols \<Longrightarrow> length (nd c) < kMaxNodes"
  by (rule few) (auto dest: awfD)

lemma covered_rep:
  assumes r: "rep s cols nd" and c: "c \<in> set cols"
  shows "rep (covered c nd s) (less_cols {c} cols) (less_rows {c} nd)"
    and "ring (sv_down (covered c nd s)) (sv_up (covered c nd s)) c (nd c)"
proof -
  note R = repD [OF r]
  have v: "vertical (hide c s) cols nd"
    using R(2) by (simp add: hide_vertical)
  note u = rows_unlinked [OF R(1) v c awfD(2) [OF R(1) c] subset_refl]
  show "ring (sv_down (covered c nd s)) (sv_up (covered c nd s)) c (nd c)"
    using u(2) by (simp add: covered_def)
  have "c2 \<in> H \<and> (\<forall>n \<in> set (less_rows {c} nd c2). n \<in> N \<and> colf n = c2)
      \<and> ring (sv_down (covered c nd s)) (sv_up (covered c nd s)) c2 (less_rows {c} nd c2)
      \<and> sv_size (covered c nd s) c2 = int (length (less_rows {c} nd c2))" if "c2 \<in> set cols" "c2 \<noteq> c" for c2
    using verticalD [OF u(1) that(1)] verticalD(2,3) [OF R(2) that(1)] covered_rows [OF R(1) c that]
    by (simp add: covered_def)
  then have "vertical (covered c nd s) (less_cols {c} cols) (less_rows {c} nd)"
    using R(2) by (auto simp: vertical_def)
  then show "rep (covered c nd s) (less_cols {c} cols) (less_rows {c} nd)"
    using awf_less [OF R(1)] hide_ring(1,2) [OF r c] R(4) by (simp add: rep_def covered_def)
qed

lemma cover_eq:
  assumes r: "rep s cols nd" and c: "c \<in> set cols"
  shows "cover c s = Some (covered c nd s)"
proof -
  note R = repD [OF r]
  have v: "vertical (hide c s) cols nd"
    using R(2) by (simp add: hide_vertical)
  have d: "sv_down s c = hd (nd c @ [c])"
    using verticalD(4) [OF R(2) c] by (cases "nd c") (simp_all add: ring_def)
  have "cover c s = cover_rows kMaxNodes c (sv_down s c) (hide c s)"
    using hide_ring(3) [OF r c] by (simp add: cover_def hide_def Let_def)
  then show ?thesis
    using cover_rows_eq [OF R(1) v hide_ring(2) [OF r c] c, of "[]" "nd c" kMaxNodes] column_few [OF R(1) c] d
    by (simp add: covered_def)
qed

lemma uncover_eq:
  assumes r: "rep s cols nd" and c: "c \<in> set cols"
  shows "uncover c (covered c nd s) = Some s"
proof -
  note R = repD [OF r]
  note h = hide_ring [OF r c]
  have v: "vertical (hide c s) cols nd"
    using R(2) by (simp add: hide_vertical)
  have "sv_up (covered c nd s) c = last (c # nd c)"
    using covered_rep(2) [OF r c] links_last [of "sv_down (covered c nd s)" "sv_up (covered c nd s)" c "nd c" c]
    by (simp add: ring_def)
  then have "uncover_rows kMaxNodes c (sv_up (covered c nd s) c) (covered c nd s) = Some (hide c s)"
    using uncover_rows_eq [OF R(1) v h(2) c, of "nd c" "[]" kMaxNodes] column_few [OF R(1) c]
    by (simp add: covered_def)
  moreover have "(sv_left s)(sv_right s c := c) = sv_left s" "(sv_right s)(sv_left s c := c) = sv_right s"
    using h(5,6) by (auto simp: fun_eq_iff)
  ultimately show ?thesis
    using h(3,4) by (simp add: uncover_def hide_def Let_def)
qed

subsection \<open>Covering the other columns of a row\<close>

lemma next_in_row:
  assumes "horizontal s" "n \<in> N" "orow n = ds @ rs"
  shows "ds = [] \<Longrightarrow> sv_right s n = hd (rs @ [n])" "rs = [] \<Longrightarrow> sv_left s n = last (n # ds)"
    "rs = r # rs' \<Longrightarrow> sv_right s r = hd (rs' @ [n])" "rs = r # rs' \<Longrightarrow> sv_left s r = last (n # ds)"
proof -
  have r: "ring (sv_right s) (sv_left s) n (ds @ rs)"
    using assms unfolding horizontal_def by metis
  show "sv_right s r = hd (rs' @ [n])" "sv_left s r = last (n # ds)" if "rs = r # rs'"
    using ring_split(1,2) [of "sv_right s" "sv_left s" n ds r rs'] r that by simp_all
  show "sv_right s n = hd (rs @ [n])" if "ds = []"
    using r that by (cases rs) (simp_all add: ring_def)
  show "sv_left s n = last (n # ds)" if "rs = []"
    using r links_last [of "sv_right s" "sv_left s" n ds n] that by (simp add: ring_def)
qed

text \<open>\<open>uncover_others\<close> undoes \<open>cover_others\<close>; \<open>k'\<close> is what is left of the steps.\<close>

lemma others_rep:
  assumes n: "n \<in> N"
  shows "rep t cols nd \<Longrightarrow> orow n = ds @ rs \<Longrightarrow> colf ` set rs \<subseteq> set cols \<Longrightarrow> length rs < k \<Longrightarrow>
    \<exists>t'. cover_others k n (hd (rs @ [n])) t = Some t' \<and> rep t' (less_cols (colf ` set rs) cols) (less_rows (colf ` set rs) nd)
      \<and> sv_name t' = sv_name t \<and> sv_root t' = sv_root t \<and> sv_inout t' = sv_inout t \<and> sv_stack t' = sv_stack t
      \<and> (\<forall>k'. uncover_others (length rs + k') n (last (n # orow n)) t' = uncover_others k' n (last (n # ds)) t)"
proof (induction rs arbitrary: t cols nd ds k)
  case Nil
  then show ?case
    by (cases k) simp_all
next
  case (Cons r rs)
  let ?c = "colf r" and ?t1 = "covered (colf r) nd t"
  obtain k1 where k: "k = Suc k1" "length rs < k1"
    using Cons.prems(4) by (cases k) simp_all
  have r: "r \<in> set (orow n)" "?c \<in> set cols"
    using Cons.prems(2,3) by auto
  have rN: "r \<in> N" "r \<noteq> n"
    using row_nodes [OF n r(1)] row_distinct_nodes [OF n] r(1) by auto
  have d: "colf ` set rs \<subseteq> set (less_cols {?c} cols)"
    using Cons.prems(2,3) row_distinct [OF n] by (auto simp: image_iff)
  have col: "sv_col t r = ?c" "sv_col ?t1 r = ?c"
    using repD(2) [OF Cons.prems(1)] rN(1) by (simp_all add: vertical_def)
  note rep1 = covered_rep(1) [OF Cons.prems(1) r(2)]
  have "sv_right ?t1 r = hd (rs @ [n])"
    using next_in_row(3) [OF repD(3) [OF rep1] n Cons.prems(2)] by simp
  then have cov: "cover_others k n (hd ((r # rs) @ [n])) t = cover_others k1 n (hd (rs @ [n])) ?t1"
    using cover_eq [OF Cons.prems(1) r(2)] rN(2) col(1) k(1) by simp
  have left: "sv_left t r = last (n # ds)"
    using next_in_row(4) [OF repD(3) [OF Cons.prems(1)] n Cons.prems(2)] by simp
  have unc: "uncover_others (Suc k') n r ?t1 = uncover_others k' n (last (n # ds)) t" for k'
    using uncover_eq [OF Cons.prems(1) r(2)] rN(2) col(2) left by simp
  have "orow n = (ds @ [r]) @ rs"
    using Cons.prems(2) by simp
  from Cons.IH [OF rep1 this d k(2)] obtain t' where t':
    "cover_others k1 n (hd (rs @ [n])) ?t1 = Some t'"
    "rep t' (less_cols (colf ` set rs) (less_cols {?c} cols)) (less_rows (colf ` set rs) (less_rows {?c} nd))"
    "sv_name t' = sv_name ?t1" "sv_root t' = sv_root ?t1" "sv_inout t' = sv_inout ?t1" "sv_stack t' = sv_stack ?t1"
    "\<forall>k'. uncover_others (length rs + k') n (last (n # orow n)) t' = uncover_others k' n (last (n # (ds @ [r]))) ?t1"
    by blast
  have "uncover_others (length (r # rs) + k') n (last (n # orow n)) t' = uncover_others k' n (last (n # ds)) t" for k'
    using t'(7) [rule_format, of "Suc k'"] unc [of k'] by simp
  moreover have "{?c} \<union> colf ` set rs = colf ` set (r # rs)"
    by simp
  ultimately show ?case
    using t'(1-6) cov by (metis covered_fields(1-4) less_less(1,2))
qed

lemma cover_others_rep:
  assumes r: "rep t cols nd" and n: "n \<in> N" "colf ` set (orow n) \<subseteq> set cols"
  obtains t' where "cover_others kMaxNodes n (sv_right t n) t = Some t'"
    "rep t' (less_cols (colf ` set (orow n)) cols) (less_rows (colf ` set (orow n)) nd)"
    "sv_name t' = sv_name t" "sv_root t' = sv_root t" "sv_inout t' = sv_inout t" "sv_stack t' = sv_stack t"
    "uncover_others kMaxNodes n (sv_left t' n) t' = Some t"
proof -
  obtain t' where t': "cover_others kMaxNodes n (hd (orow n @ [n])) t = Some t'"
    "rep t' (less_cols (colf ` set (orow n)) cols) (less_rows (colf ` set (orow n)) nd)"
    "sv_name t' = sv_name t" "sv_root t' = sv_root t" "sv_inout t' = sv_inout t" "sv_stack t' = sv_stack t"
    "\<forall>k'. uncover_others (length (orow n) + k') n (last (n # orow n)) t' = uncover_others k' n (last [n]) t"
    using others_rep [OF n(1) r, of "[]" "orow n" kMaxNodes] n(2) few_others [OF n(1)] by auto
  have "sv_right t n = hd (orow n @ [n])"
    using next_in_row(1) [OF repD(3) [OF r] n(1)] by simp
  moreover have "sv_left t' n = last (n # orow n)"
    using next_in_row(2) [OF repD(3) [OF t'(2)] n(1)] by simp
  moreover have "uncover_others kMaxNodes n (last (n # orow n)) t' = Some t"
  proof -
    obtain k' where "kMaxNodes = length (orow n) + Suc k'"
      using few_others [OF n(1)] less_iff_Suc_add [of "length (orow n)" kMaxNodes] by auto
    then show ?thesis
      using t'(7) [rule_format, of "Suc k'"] by simp
  qed
  ultimately show thesis
    using t' that by simp
qed

text \<open>The stack does not matter for the links.\<close>

lemma unlink_stack [simp]: "unlink_node j (s\<lparr>sv_stack := st\<rparr>) = (unlink_node j s)\<lparr>sv_stack := st\<rparr>"
  by (simp add: unlink_node_def Let_def)

lemma cover_row_stack: "cover_row k row j (s\<lparr>sv_stack := st\<rparr>) = map_option (\<lambda>t. t\<lparr>sv_stack := st\<rparr>) (cover_row k row j s)"
  by (induction k row j s rule: cover_row.induct) (simp_all add: Let_def)

lemma cover_rows_stack:
  "cover_rows k c row (s\<lparr>sv_stack := st\<rparr>) = map_option (\<lambda>t. t\<lparr>sv_stack := st\<rparr>) (cover_rows k c row s)"
proof (induction k arbitrary: row s)
  case (Suc k)
  then show ?case
    by (cases "cover_row kMaxNodes row (sv_right s row) s") (simp_all add: cover_row_stack)
qed simp

lemma cover_stack: "cover c (s\<lparr>sv_stack := st\<rparr>) = map_option (\<lambda>t. t\<lparr>sv_stack := st\<rparr>) (cover c s)"
  by (cases s) (simp add: cover_def Let_def cover_rows_stack [symmetric])

lemma cover_others_stack:
  "cover_others k row j (s\<lparr>sv_stack := st\<rparr>) = map_option (\<lambda>t. t\<lparr>sv_stack := st\<rparr>) (cover_others k row j s)"
proof (induction k arbitrary: j s)
  case (Suc k)
  then show ?case
    by (cases "cover (sv_col s j) s") (simp_all add: cover_stack)
qed simp

lemma rep_stack [simp]: "rep (s\<lparr>sv_stack := st\<rparr>) cols nd = rep s cols nd"
  by (simp add: rep_def vertical_def horizontal_def)

end

end
