(* ===== verification/DancingLinksSearch.thy ===== *)
theory DancingLinksSearch
  imports DancingLinks
begin

section \<open>The search for an exact cover\<close>

text \<open>
  \<open>solve\<close> of \<open>SudokuSolver\<close>: with enough steps it puts an exact cover of the active columns on the stack and writes
  it to the board, or it returns false in the state it began in and there is no exact cover.
\<close>

context matrix
begin

subsection \<open>The search\<close>

text \<open>An exact cover: rows of active nodes that have exactly one node in every active column.\<close>

definition exact :: "nat list \<Rightarrow> (nat \<Rightarrow> nat list) \<Rightarrow> nat list \<Rightarrow> bool" where
  "exact cols nd ns \<longleftrightarrow> (\<forall>n \<in> set ns. \<exists>c \<in> set cols. n \<in> set (nd c))
     \<and> distinct (concat (map rowcols ns)) \<and> set (concat (map rowcols ns)) = set cols"

lemma rowcols_distinct: "n \<in> N \<Longrightarrow> distinct (rowcols n)"
  using row_distinct by (simp only: rowcols_def)

lemma own_column: "colf n \<in> set (rowcols n)"
  by (simp add: rowcols_def)

lemma rowcols_active:
  assumes "awf cols nd" "c \<in> set cols" "n \<in> set (nd c)"
  shows "set (rowcols n) \<subseteq> set cols"
  using awfD(4,5) [OF assms] assms(2) by (auto simp: rowcols_def)

text \<open>Choosing the row \<open>r\<close> leaves the matrix without the columns of \<open>r\<close>.\<close>

lemma exact_cons:
  assumes a: "awf cols nd" and r: "r \<in> set (nd c)" "c \<in> set cols"
    and e: "exact (less_cols (set (rowcols r)) cols) (less_rows (set (rowcols r)) nd) ns"
  shows "exact cols nd (r # ns)"
proof -
  have "set (rowcols r) \<subseteq> set cols" "distinct (rowcols r)"
    using rowcols_active [OF a r(2,1)] rowcols_distinct awfD(3) [OF a r(2,1)] by simp_all
  then show ?thesis
    using e r unfolding exact_def by auto
qed

lemma exact_choose:
  assumes a: "awf cols nd" and c: "c \<in> set cols" and e: "exact cols nd ns"
  shows "\<exists>r \<in> set (nd c). \<exists>ms. exact (less_cols (set (rowcols r)) cols) (less_rows (set (rowcols r)) nd) ms"
proof -
  obtain n where n: "n \<in> set ns" "c \<in> set (rowcols n)"
    using e c by (auto simp: exact_def)
  then obtain c2 where c2: "c2 \<in> set cols" "n \<in> set (nd c2)"
    using e by (auto simp: exact_def)
  note A = awfD [OF a c2(1)]
  obtain as bs where ns: "ns = as @ n # bs"
    using n(1) by (auto simp: in_set_conv_decomp)
  have "\<exists>r \<in> set (nd c). set (rowcols r) = set (rowcols n)"
  proof (cases "c = colf n")
    case True
    then show ?thesis
      using A(4) c2(2) by auto
  next
    case False
    then obtain j where "j \<in> set (orow n)" "colf j = c"
      using n(2) by (auto simp: rowcols_def)
    then show ?thesis
      using A(5) [of n j] A(3) c2(2) rowcols_same [of n j] by auto
  qed
  then obtain r where r: "r \<in> set (nd c)" "set (rowcols r) = set (rowcols n)"
    by blast
  have d: "distinct (concat (map rowcols (as @ bs)))" "set (concat (map rowcols (as @ bs))) \<inter> set (rowcols n) = {}"
    using e ns by (auto simp: exact_def)
  have "set (concat (map rowcols (as @ bs))) = set cols - set (rowcols n)"
    using e d(2) ns by (auto simp: exact_def)
  moreover have "\<exists>c \<in> set cols - set (rowcols n). m \<in> set (nd c) \<and> set (rowcols m) \<inter> set (rowcols n) = {}"
    if m: "m \<in> set (as @ bs)" for m
  proof -
    obtain c3 where c3: "c3 \<in> set cols" "m \<in> set (nd c3)"
      using e ns m unfolding exact_def by (metis Un_iff set_append list.set_intros(2))
    have dj: "set (rowcols m) \<inter> set (rowcols n) = {}"
      using d(2) m by auto
    have "c3 \<in> set (rowcols m)"
      using awfD(4) [OF a c3] own_column [of m] by simp
    then show ?thesis
      using c3 dj by blast
  qed
  ultimately have "exact (less_cols (set (rowcols r)) cols) (less_rows (set (rowcols r)) nd) (as @ bs)"
    using d(1) r(2) by (auto simp: exact_def)
  then show ?thesis
    using r(1) by blast
qed

lemma exact_Nil: "exact [] nd []"
  by (simp add: exact_def)

subsection \<open>Choosing a column\<close>

lemma few_cols:
  assumes "rep s cols nd"
  shows "length cols < kMaxNodes"
  using card_mono [OF finite_H repD(5) [OF assms]] few_headers distinct_card [OF repD(6) [OF assms]] by simp

lemma min_column_loop_in:
  "path (sv_right s) cc xs (sv_root s) \<Longrightarrow> sv_root s \<notin> set xs \<Longrightarrow> length xs < k \<Longrightarrow>
    \<exists>c' \<in> insert c (set xs). min_column_loop k cc c m s = Some c'"
proof (induction xs arbitrary: cc c m k)
  case Nil
  then show ?case by (cases k) simp_all
next
  case (Cons x xs)
  obtain k' where k: "k = Suc k'" "length xs < k'"
    using Cons.prems(3) by (cases k) simp_all
  have "\<exists>c' \<in> insert c (set xs). min_column_loop k' (sv_right s x) c m s = Some c'" for c m
    using Cons.IH [of "sv_right s x" k' c m] Cons.prems k(2) by simp
  then show ?case
    using Cons.prems k(1) by fastforce
qed

lemma get_min_column_in:
  assumes r: "rep s cols nd" and "cols \<noteq> []"
  shows "\<exists>c \<in> set cols. get_min_column s = Some c"
proof -
  obtain c0 rest where cols: "cols = c0 # rest"
    using assms(2) by (cases cols) simp_all
  have ring: "ring (sv_right s) (sv_left s) (sv_root s) (c0 # rest)"
    using repD(7) [OF r] cols by simp
  then have "sv_right s (sv_root s) = c0" "path (sv_right s) (sv_right s c0) rest (sv_root s)" "sv_root s \<notin> set rest"
    using ring_path [OF ring] by (auto simp: ring_def)
  then show ?thesis
    using min_column_loop_in [of s "sv_right s c0" rest kMaxNodes c0 "sv_size s c0"] few_cols [OF r] cols
    by (auto simp: get_min_column_def Let_def)
qed

lemma no_columns:
  assumes r: "rep s cols nd"
  shows "sv_left s (sv_root s) = sv_root s \<longleftrightarrow> cols = []"
proof -
  have "sv_left s (sv_root s) = last (sv_root s # cols)" "sv_root s \<notin> set cols"
    using repD(7) [OF r] links_last [of "sv_right s" "sv_left s" "sv_root s" cols "sv_root s"] by (simp_all add: ring_def)
  then show ?thesis
    by (metis last_ConsL last_ConsR last_in_set)
qed

subsection \<open>Correctness of the search\<close>

definition write_solution :: "sudoku_solver \<Rightarrow> (bool \<times> sudoku_solver) option" where
  "write_solution s = do { s1 \<leftarrow> run_all write_row (sv_stack s) s; Some (True, s1) }"

text \<open>The search from \<open>s\<close> has put \<open>ns\<close> on the stack and then writes the solution.\<close>

definition found :: "sudoku_solver \<Rightarrow> nat list \<Rightarrow> (bool \<times> sudoku_solver) option \<Rightarrow> bool" where
  "found s ns res \<longleftrightarrow> (\<exists>s1. horizontal s1 \<and> sv_stack s1 = sv_stack s @ ns \<and> sv_inout s1 = sv_inout s
     \<and> sv_name s1 = sv_name s \<and> res = write_solution s1)"

definition depth :: "nat list \<Rightarrow> nat" where
  "depth cols = Suc (length cols * (kMaxNodes + 2))"

definition solved_by :: "nat \<Rightarrow> sudoku_solver \<Rightarrow> nat list \<Rightarrow> (nat \<Rightarrow> nat list) \<Rightarrow> bool" where
  "solved_by k s cols nd \<longleftrightarrow> (\<exists>ns. exact cols nd ns \<and> found s ns (solve k s))
     \<or> solve k s = Some (False, s) \<and> (\<nexists>ns. exact cols nd ns)"

abbreviation without :: "nat \<Rightarrow> nat list \<Rightarrow> (nat \<Rightarrow> nat list) \<Rightarrow> nat list \<Rightarrow> bool" where
  "without r cols nd \<equiv> exact (less_cols (set (rowcols r)) cols) (less_rows (set (rowcols r)) nd)"

text \<open>One row: the others of the row are covered, the rest is searched and, if that fails, all is undone.\<close>

lemma try_row:
  assumes r: "rep s cols nd" and c: "c \<in> set cols" and rw: "row \<in> set (nd c)"
    and IH: "\<And>t. rep t (less_cols (set (rowcols row)) cols) (less_rows (set (rowcols row)) nd) \<Longrightarrow>
      solved_by k t (less_cols (set (rowcols row)) cols) (less_rows (set (rowcols row)) nd)"
  shows "(\<exists>ns. without row cols nd ns \<and> found s (row # ns) (try_rows (Suc k) c row (covered c nd s)))
    \<or> try_rows (Suc k) c row (covered c nd s) = try_rows k c (sv_down (covered c nd s) row) (covered c nd s)
      \<and> (\<nexists>ns. without row cols nd ns)"
proof -
  let ?s = "covered c nd s"
  note R = repD [OF r] and A = awfD [OF repD(1) [OF r] c]
  have row: "row \<in> N" "colf row = c" "row \<noteq> c"
    using A(1) A(3,4) [OF rw] disjoint by auto
  have rc: "set (rowcols row) = {c} \<union> colf ` set (orow row)"
    using row(2) by (simp add: rowcols_def)
  have "c \<notin> colf ` set (orow row)"
    using row_distinct [OF row(1)] row(2) by simp
  then have "colf ` set (orow row) \<subseteq> set (less_cols {c} cols)"
    using A(5) [OF rw] by auto
  then obtain t where t: "cover_others kMaxNodes row (sv_right ?s row) ?s = Some t"
    "rep t (less_cols (set (rowcols row)) cols) (less_rows (set (rowcols row)) nd)"
    "sv_name t = sv_name ?s" "sv_inout t = sv_inout ?s" "sv_stack t = sv_stack ?s"
    "uncover_others kMaxNodes row (sv_left t row) t = Some ?s"
    using cover_others_rep [OF covered_rep(1) [OF r c] row(1)] rc by (metis less_less(1,2))
  let ?t = "t\<lparr>sv_stack := sv_stack s @ [row]\<rparr>"
  have cov: "cover_others kMaxNodes row (sv_right ?s row) (?s\<lparr>sv_stack := sv_stack s @ [row]\<rparr>) = Some ?t"
    by (simp add: cover_others_stack t(1))
  have same: "t\<lparr>sv_stack := sv_stack s\<rparr> = t"
    using t(5) by (cases t) simp
  have "rep ?t (less_cols (set (rowcols row)) cols) (less_rows (set (rowcols row)) nd)"
    using t(2) by simp
  from IH [OF this] consider (yes) ns where "without row cols nd ns" "found ?t ns (solve k ?t)"
    | (no) "solve k ?t = Some (False, ?t)" "\<nexists>ns. without row cols nd ns"
    by (auto simp: solved_by_def)
  then show ?thesis
  proof cases
    case yes
    then obtain s1 where s1: "horizontal s1" "sv_stack s1 = sv_stack s @ row # ns" "sv_inout s1 = sv_inout s"
      "sv_name s1 = sv_name s" "solve k ?t = write_solution s1"
      using t(3,4) by (auto simp: found_def)
    have "try_rows (Suc k) c row ?s = write_solution s1"
      using row(3) cov s1(5) by (auto simp: Let_def write_solution_def split: bind_splits)
    then show ?thesis
      using yes(1) s1 by (auto simp: found_def)
  next
    case no
    then show ?thesis
      using row(3) cov same t(6) by (simp add: Let_def)
  qed
qed

lemma try_rows_spec:
  assumes r: "rep s cols nd" and c: "c \<in> set cols"
    and IH: "\<And>k row t. row \<in> set (nd c) \<Longrightarrow> k \<ge> B \<Longrightarrow>
      rep t (less_cols (set (rowcols row)) cols) (less_rows (set (rowcols row)) nd) \<Longrightarrow>
      solved_by k t (less_cols (set (rowcols row)) cols) (less_rows (set (rowcols row)) nd)"
  shows "nd c = ds @ rs \<Longrightarrow> k \<ge> Suc (length rs) + B \<Longrightarrow>
    (\<exists>row \<in> set rs. \<exists>ns. without row cols nd ns \<and> found s (row # ns) (try_rows k c (hd (rs @ [c])) (covered c nd s)))
    \<or> try_rows k c (hd (rs @ [c])) (covered c nd s) = Some (False, s) \<and> (\<forall>row \<in> set rs. \<nexists>ns. without row cols nd ns)"
proof (induction rs arbitrary: ds k)
  case Nil
  then show ?case
    using uncover_eq [OF r c] by (cases k) simp_all
next
  case (Cons row rs)
  obtain k' where k: "k = Suc k'" "k' \<ge> Suc (length rs) + B" "k' \<ge> B"
    using Cons.prems(2) by (cases k) simp_all
  have row: "row \<in> set (nd c)"
    using Cons.prems(1) by simp
  have down: "sv_down (covered c nd s) row = hd (rs @ [c])"
    using ring_split(1) [of "sv_down (covered c nd s)" "sv_up (covered c nd s)" c ds row rs]
      covered_rep(2) [OF r c] Cons.prems(1) by simp
  show ?case
    using try_row [OF r c row IH [OF row k(3)]] Cons.IH [of "ds @ [row]" k'] Cons.prems(1) k(1,2) down by auto
qed

theorem solve_spec: "rep s cols nd \<Longrightarrow> k \<ge> depth cols \<Longrightarrow> solved_by k s cols nd"
proof (induction "length cols" arbitrary: cols nd s k rule: less_induct)
  case less
  obtain k' where k: "k = Suc k'" "k' \<ge> length cols * (kMaxNodes + 2)"
    using less.prems(2) by (cases k) (simp_all add: depth_def)
  show ?case
  proof (cases "cols = []")
    case True
    have "solve k s = write_solution s"
      using no_columns [OF less.prems(1)] True k(1) by (simp add: write_solution_def)
    then have "found s [] (solve k s)"
      using repD(3) [OF less.prems(1)] by (auto simp: found_def)
    then show ?thesis
      using exact_Nil True by (auto simp: solved_by_def)
  next
    case False
    note r = less.prems(1)
    obtain c where c: "c \<in> set cols" "get_min_column s = Some c"
      using get_min_column_in [OF r False] by blast
    obtain n where n: "length cols = Suc n"
      using False by (cases cols) simp_all
    let ?B = "Suc (n * (kMaxNodes + 2))"
    have IH: "solved_by k t (less_cols (set (rowcols row)) cols) (less_rows (set (rowcols row)) nd)"
      if "row \<in> set (nd c)" "k \<ge> ?B" "rep t (less_cols (set (rowcols row)) cols) (less_rows (set (rowcols row)) nd)"
      for k row t
    proof (rule less.hyps)
      have "c \<in> set (rowcols row)"
        using awfD(4) [OF repD(1) [OF r] c(1) that(1)] own_column [of row] by simp
      then show l: "length (less_cols (set (rowcols row)) cols) < length cols"
        unfolding less_cols_def using c(1) by (intro length_filter_less) auto
      then have "length (less_cols (set (rowcols row)) cols) * (kMaxNodes + 2) \<le> n * (kMaxNodes + 2)"
        using n by (intro mult_le_mono1) simp
      then show "depth (less_cols (set (rowcols row)) cols) \<le> k"
        using that(2) by (simp add: depth_def)
    qed (rule that(3))
    have "Suc (length (nd c)) + ?B \<le> k'"
      using k(2) n column_few [OF repD(1) [OF r] c(1)] by simp
    from try_rows_spec [OF r c(1) IH _ this, where ds = "[]"]
    have "(\<exists>row \<in> set (nd c). \<exists>ns. without row cols nd ns \<and> found s (row # ns) (try_rows k' c (hd (nd c @ [c])) (covered c nd s)))
      \<or> try_rows k' c (hd (nd c @ [c])) (covered c nd s) = Some (False, s) \<and> (\<forall>row \<in> set (nd c). \<nexists>ns. without row cols nd ns)"
      by simp
    moreover have "sv_down (covered c nd s) c = hd (nd c @ [c])"
      using covered_rep(2) [OF r c(1)] by (cases "nd c") (simp_all add: ring_def)
    then have "solve k s = try_rows k' c (hd (nd c @ [c])) (covered c nd s)"
      using no_columns [OF r] False k(1) c(2) cover_eq [OF r c(1)] by simp
    ultimately show ?thesis
      using exact_cons [OF repD(1) [OF r] _ c(1)] exact_choose [OF repD(1) [OF r] c(1)]
      unfolding solved_by_def by metis
  qed
qed

end

end
