(* ===== verification/SudokuMatrix.thy ===== *)
theory SudokuMatrix
  imports DancingLinksSearch "HOL-Library.Sublist" "HOL-Library.Multiset"
begin

section \<open>The matrix of a board\<close>

text \<open>
  The constructor of \<open>SudokuSolver\<close>: which columns and which rows it makes for a board, and that the links
  represent this matrix afterwards.
\<close>

subsection \<open>Inserting nodes\<close>

lemma put_left_fields [simp]:
  "sv_up (put_left a b s) = sv_up s" "sv_down (put_left a b s) = sv_down s" "sv_size (put_left a b s) = sv_size s"
  "sv_col (put_left a b s) = sv_col s" "sv_name (put_left a b s) = sv_name s" "sv_root (put_left a b s) = sv_root s"
  "sv_inout (put_left a b s) = sv_inout s" "sv_stack (put_left a b s) = sv_stack s"
  "sv_cur_node (put_left a b s) = sv_cur_node s" "sv_columns (put_left a b s) = sv_columns s"
  by (simp_all add: put_left_def Let_def)

lemma put_left_links:
  assumes "sv_left s h \<noteq> x" "h \<noteq> x"
  shows "sv_right (put_left h x s) = (sv_right s)(x := h, sv_left s h := x)"
    "sv_left (put_left h x s) = (sv_left s)(x := sv_left s h, h := x)"
  using assms by (auto simp: put_left_def Let_def)

lemma put_left_ring:
  assumes r: "ring (sv_right s) (sv_left s) h xs" and x: "x \<notin> set (h # xs)"
  shows "ring (sv_right (put_left h x s)) (sv_left (put_left h x s)) h (xs @ [x])"
    and "y \<notin> set (x # h # xs) \<Longrightarrow> sv_right (put_left h x s) y = sv_right s y \<and> sv_left (put_left h x s) y = sv_left s y"
proof -
  have "sv_left s h = last (h # xs)"
    using r links_last [of "sv_right s" "sv_left s" h xs h] by (simp add: ring_def)
  then have l: "sv_left s h \<in> set (h # xs)"
    by (metis last_in_set list.distinct(1))
  then have n: "sv_left s h \<noteq> x" "h \<noteq> x"
    using x by auto
  show "ring (sv_right (put_left h x s)) (sv_left (put_left h x s)) h (xs @ [x])"
    using ring_snoc [OF r x] by (simp add: put_left_links [OF n])
  show "sv_right (put_left h x s) y = sv_right s y \<and> sv_left (put_left h x s) y = sv_left s y" if "y \<notin> set (x # h # xs)"
    using that l by (auto simp: put_left_links [OF n])
qed

lemma put_up_fields [simp]:
  "sv_left (put_up a b s) = sv_left s" "sv_right (put_up a b s) = sv_right s"
  "sv_name (put_up a b s) = sv_name s" "sv_root (put_up a b s) = sv_root s"
  "sv_inout (put_up a b s) = sv_inout s" "sv_stack (put_up a b s) = sv_stack s"
  "sv_cur_node (put_up a b s) = sv_cur_node s" "sv_columns (put_up a b s) = sv_columns s"
  "sv_col (put_up a b s) = (sv_col s)(b := a)" "sv_size (put_up a b s) = (sv_size s)(a := sv_size s a + 1)"
  by (simp_all add: put_up_def Let_def)

lemma put_up_ring:
  assumes r: "ring (sv_down s) (sv_up s) h xs" and x: "x \<notin> set (h # xs)"
  shows "ring (sv_down (put_up h x s)) (sv_up (put_up h x s)) h (xs @ [x])"
    and "y \<notin> set (x # h # xs) \<Longrightarrow> sv_down (put_up h x s) y = sv_down s y \<and> sv_up (put_up h x s) y = sv_up s y"
proof -
  have "sv_up s h = last (h # xs)"
    using r links_last [of "sv_down s" "sv_up s" h xs h] by (simp add: ring_def)
  then have l: "sv_up s h \<in> set (h # xs)"
    by (metis last_in_set list.distinct(1))
  then have n: "sv_up s h \<noteq> x" "h \<noteq> x"
    using x by auto
  have eq: "sv_down (put_up h x s) = (sv_down s)(x := h, sv_up s h := x)" "sv_up (put_up h x s) = (sv_up s)(x := sv_up s h, h := x)"
    using n by (auto simp: put_up_def Let_def)
  show "ring (sv_down (put_up h x s)) (sv_up (put_up h x s)) h (xs @ [x])"
    using ring_snoc [OF r x] by (simp add: eq)
  show "sv_down (put_up h x s) y = sv_down s y \<and> sv_up (put_up h x s) y = sv_up s y" if "y \<notin> set (x # h # xs)"
    using that l by (auto simp: eq)
qed

subsection \<open>The matrix while it is built\<close>

definition pos :: "'a list \<Rightarrow> 'a \<Rightarrow> nat" where
  "pos xs a = length (takeWhile (\<lambda>x. x \<noteq> a) xs)"

lemma pos_less: "a \<in> set xs \<Longrightarrow> pos xs a < length xs \<and> xs ! pos xs a = a"
  unfolding pos_def by (induction xs) auto

lemma pos_append: "a \<in> set xs \<Longrightarrow> pos (xs @ ys) a = pos xs a" "a \<notin> set xs \<Longrightarrow> pos (xs @ [a]) a = length xs"
  unfolding pos_def by (induction xs) auto

lemma pos_inj: "a \<in> set xs \<Longrightarrow> b \<in> set xs \<Longrightarrow> pos xs a = pos xs b \<Longrightarrow> a = b"
  using pos_less by metis

text \<open>
  Columns with the names \<open>ns\<close> have been appended, then nodes in the columns with the names \<open>L\<close>.
  The root is node 0, column \<open>k\<close> is node \<open>Suc k\<close>, and the other nodes come next.
\<close>

definition col_nodes :: "nat list \<Rightarrow> nat list \<Rightarrow> nat \<Rightarrow> nat list" where
  "col_nodes ns L c = map (\<lambda>q. Suc (length ns) + q) (filter (\<lambda>q. Suc (pos ns (L ! q)) = c) [0..<length L])"

definition built :: "nat list \<Rightarrow> nat list \<Rightarrow> sudoku_solver \<Rightarrow> bool" where
  "built ns L s \<longleftrightarrow> sv_cur_node s = Suc (length ns) + length L \<and> sv_root s = 0
     \<and> (\<forall>a. sv_columns s a = (if a \<in> set ns then Some (Suc (pos ns a)) else None))
     \<and> ring (sv_right s) (sv_left s) 0 [1..<Suc (length ns)]
     \<and> (\<forall>c \<in> {1..length ns}. ring (sv_down s) (sv_up s) c (col_nodes ns L c)
          \<and> sv_size s c = int (length (col_nodes ns L c)))
     \<and> (\<forall>q < length L. sv_name s (Suc (length ns) + q) = L ! q
          \<and> sv_col s (Suc (length ns) + q) = Suc (pos ns (L ! q)))"

lemma col_nodes_snoc:
  "col_nodes ns (L @ [a]) c = col_nodes ns L c @ (if Suc (pos ns a) = c then [Suc (length ns) + length L] else [])"
proof -
  have "filter (\<lambda>q. Suc (pos ns ((L @ [a]) ! q)) = c) [0..<length L] = filter (\<lambda>q. Suc (pos ns (L ! q)) = c) [0..<length L]"
    by (rule filter_cong) (simp_all add: nth_append)
  then show ?thesis
    by (simp add: col_nodes_def)
qed

lemma col_nodes_range: "n \<in> set (col_nodes ns L c) \<Longrightarrow> Suc (length ns) \<le> n \<and> n < Suc (length ns) + length L"
  by (auto simp: col_nodes_def)

lemma append_column_built:
  assumes b: "built ns [] s" and a: "a \<notin> set ns" "a < 400" and few: "Suc (length ns) < kMaxNodes"
  shows "\<exists>s'. append_column a s = Some s' \<and> built (ns @ [a]) [] s' \<and> sv_inout s' = sv_inout s \<and> sv_stack s' = sv_stack s"
proof -
  let ?c = "Suc (length ns)"
  have B: "sv_cur_node s = ?c" "sv_root s = 0" "sv_columns s a = None"
    and rings: "ring (sv_right s) (sv_left s) 0 [1..<?c]"
    using b a(1) by (simp_all add: built_def)
  let ?s1 = "s\<lparr>sv_cur_node := Suc ?c, sv_left := (sv_left s)(?c := ?c), sv_right := (sv_right s)(?c := ?c),
       sv_up := (sv_up s)(?c := ?c), sv_down := (sv_down s)(?c := ?c), sv_col := (sv_col s)(?c := ?c),
       sv_name := (sv_name s)(?c := a), sv_size := (sv_size s)(?c := 0)\<rparr>"
  let ?s2 = "put_left 0 ?c ?s1"
  let ?s3 = "?s2\<lparr>sv_columns := (sv_columns s)(a \<mapsto> ?c)\<rparr>"
  have "ring (sv_right ?s1) (sv_left ?s1) 0 [1..<?c]"
    using rings by (subst ring_cong [where nx = "sv_right s" and pv = "sv_left s"]) auto
  then have "ring (sv_right ?s2) (sv_left ?s2) 0 ([1..<?c] @ [?c])"
    by (rule put_left_ring) auto
  then have r2: "ring (sv_right ?s3) (sv_left ?s3) 0 [1..<Suc (length (ns @ [a]))]"
    by simp
  have "ring (sv_down ?s3) (sv_up ?s3) c [] \<and> sv_size ?s3 c = 0" if "c \<in> {1..length (ns @ [a])}" for c
    using b that by (auto simp: built_def ring_def col_nodes_def)
  moreover have "sv_columns ?s3 x = (if x \<in> set (ns @ [a]) then Some (Suc (pos (ns @ [a]) x)) else None)" for x
    using b a(1) by (auto simp: built_def pos_append)
  ultimately have "built (ns @ [a]) [] ?s3"
    using r2 B by (simp add: built_def col_nodes_def)
  moreover have "append_column a s = Some ?s3"
    using a(2) B few by (simp add: append_column_def new_column_def Let_def assert_that_def)
  ultimately show ?thesis
    by auto
qed

lemma append_columns_built:
  "built ns [] s \<Longrightarrow> distinct (ns @ as) \<Longrightarrow> (\<forall>a \<in> set as. a < 400) \<Longrightarrow> Suc (length ns + length as) \<le> kMaxNodes \<Longrightarrow>
    \<exists>s'. append_columns as s = Some s' \<and> built (ns @ as) [] s' \<and> sv_inout s' = sv_inout s \<and> sv_stack s' = sv_stack s"
proof (induction as arbitrary: ns s)
  case (Cons a as)
  obtain s1 where s1: "append_column a s = Some s1" "built (ns @ [a]) [] s1" "sv_inout s1 = sv_inout s" "sv_stack s1 = sv_stack s"
    using append_column_built [OF Cons.prems(1), of a] Cons.prems(2-4) by auto
  then show ?case
    using Cons.IH [OF s1(2)] Cons.prems(2-4) by (auto simp: append_columns_def)
qed (simp add: append_columns_def)

lemma new_row_built:
  assumes b: "built ns L s" and a: "a \<in> set ns" "a < 400" and few: "r < kMaxNodes"
    and r_def: "r = Suc (length ns) + length L"
  shows "\<exists>s'. new_row a s = Some (r, s') \<and> built ns (L @ [a]) s' \<and> sv_inout s' = sv_inout s \<and> sv_stack s' = sv_stack s
    \<and> sv_right s' = (sv_right s)(r := r) \<and> sv_left s' = (sv_left s)(r := r)"
proof -
  let ?c = "Suc (pos ns a)"
  have B: "sv_cur_node s = r" "sv_root s = 0" "sv_columns s a = Some ?c"
    using b a(1) by (simp_all add: built_def r_def)
  have c: "?c \<in> {1..length ns}"
    using pos_less [OF a(1)] by simp
  have fresh: "r \<notin> set (c # col_nodes ns L c)" if "c \<in> {1..length ns}" for c
    using that col_nodes_range [of r ns L c] by (auto simp: r_def)
  let ?s1 = "s\<lparr>sv_cur_node := Suc r, sv_left := (sv_left s)(r := r), sv_right := (sv_right s)(r := r),
       sv_up := (sv_up s)(r := r), sv_down := (sv_down s)(r := r), sv_name := (sv_name s)(r := a),
       sv_size := (sv_size s)(r := 0), sv_col := (sv_col s)(r := ?c)\<rparr>"
  let ?s2 = "put_up ?c r ?s1"
  have r1: "ring (sv_down ?s1) (sv_up ?s1) c (col_nodes ns L c)" if "c \<in> {1..length ns}" for c
    using b fresh [OF that] that
    by (subst ring_cong [where nx = "sv_down s" and pv = "sv_up s"]) (auto simp: built_def)
  have own: "ring (sv_down ?s2) (sv_up ?s2) ?c (col_nodes ns (L @ [a]) ?c)"
    using put_up_ring(1) [OF r1 [OF c] fresh [OF c]] by (simp add: col_nodes_snoc r_def)
  have other: "ring (sv_down ?s2) (sv_up ?s2) c (col_nodes ns (L @ [a]) c)" if d: "c \<in> {1..length ns}" "c \<noteq> ?c" for c
  proof -
    have "y \<notin> set (r # ?c # col_nodes ns L ?c)" if "y \<in> set (c # col_nodes ns L c)" for y
      using that d c fresh [OF d(1)] by (auto simp: col_nodes_def)
    then have "ring (sv_down ?s2) (sv_up ?s2) c (col_nodes ns L c)"
      using put_up_ring(2) [OF r1 [OF c] fresh [OF c]] r1 [OF d(1)]
      by (subst ring_cong [where nx = "sv_down ?s1" and pv = "sv_up ?s1"]) blast+
    then show ?thesis
      using d(2) by (simp add: col_nodes_snoc)
  qed
  have rings: "ring (sv_down ?s2) (sv_up ?s2) c (col_nodes ns (L @ [a]) c)" if "c \<in> {1..length ns}" for c
    using own other that by blast
  have sizes: "sv_size ?s2 c = int (length (col_nodes ns (L @ [a]) c))" if "c \<in> {1..length ns}" for c
    using b that fresh [OF that] c by (auto simp: built_def col_nodes_snoc r_def)
  have heads: "ring (sv_right ?s2) (sv_left ?s2) 0 [1..<Suc (length ns)]"
    using b by (subst ring_cong [where nx = "sv_right s" and pv = "sv_left s"]) (auto simp: built_def r_def)
  have names: "sv_name ?s2 (Suc (length ns) + q) = (L @ [a]) ! q \<and> sv_col ?s2 (Suc (length ns) + q) = Suc (pos ns ((L @ [a]) ! q))"
    if "q < length (L @ [a])" for q
    using b that by (auto simp: built_def r_def nth_append)
  have "built ns (L @ [a]) ?s2"
    unfolding built_def using rings sizes heads names b by (simp add: built_def r_def)
  moreover have "new_row a s = Some (r, ?s2)"
    using a(2) B few by (simp add: new_row_def Let_def assert_that_def r_def)
  ultimately show ?thesis
    by auto
qed

subsection \<open>The rows\<close>

text \<open>The four columns of a candidate, in the order in which \<open>add_candidate\<close> makes their nodes.\<close>

definition cand_names :: "nat \<times> nat \<Rightarrow> nat list" where
  "cand_names iv = (case iv of (i, v) \<Rightarrow>
     [i, get_row_col (row_of i) v, get_col_col (col_of i) v, get_box_col (box_of i) v])"

definition rows_linked :: "nat \<Rightarrow> nat \<Rightarrow> sudoku_solver \<Rightarrow> bool" where
  "rows_linked b k s \<longleftrightarrow> (\<forall>i < k. ring (sv_right s) (sv_left s) (b + 4 * i) [b + 4 * i + 1, b + 4 * i + 2, b + 4 * i + 3])"

lemma put_left_built:
  assumes b: "built ns L s" and h: "Suc (length ns) \<le> h" and x: "Suc (length ns) \<le> x"
    and r: "ring (sv_right s) (sv_left s) h xs" "x \<notin> set (h # xs)" "\<forall>y \<in> set xs. Suc (length ns) \<le> y"
  shows "built ns L (put_left h x s)"
proof -
  have "y \<notin> set (x # h # xs)" if "y \<in> set (0 # [1..<Suc (length ns)])" for y
    using that h x r(3) by fastforce
  then have "ring (sv_right (put_left h x s)) (sv_left (put_left h x s)) 0 [1..<Suc (length ns)]
      = ring (sv_right s) (sv_left s) 0 [1..<Suc (length ns)]"
    using put_left_ring(2) [OF r(1,2)] by (intro ring_cong) blast+
  then show ?thesis
    using b by (simp add: built_def)
qed

lemma four_rows_built:
  assumes b: "built ns L s" and a: "\<forall>a \<in> set [a0, a1, a2, a3]. a \<in> set ns \<and> a < 400"
    and few: "Suc (length ns) + length L + 4 \<le> kMaxNodes"
  defines "r \<equiv> Suc (length ns) + length L"
  obtains s1 s2 s3 s4 where "new_row a0 s = Some (r, s1)" "new_row a1 s1 = Some (r + 1, s2)"
    "new_row a2 s2 = Some (r + 2, s3)" "new_row a3 s3 = Some (r + 3, s4)"
    "built ns (L @ [a0, a1, a2, a3]) s4" "sv_inout s4 = sv_inout s" "sv_stack s4 = sv_stack s"
    "sv_right s4 = (sv_right s)(r := r, r + 1 := r + 1, r + 2 := r + 2, r + 3 := r + 3)"
    "sv_left s4 = (sv_left s)(r := r, r + 1 := r + 1, r + 2 := r + 2, r + 3 := r + 3)"
proof -
  obtain s1 where s1: "new_row a0 s = Some (r, s1)" "built ns (L @ [a0]) s1" "sv_inout s1 = sv_inout s" "sv_stack s1 = sv_stack s"
    "sv_right s1 = (sv_right s)(r := r)" "sv_left s1 = (sv_left s)(r := r)"
    using new_row_built [OF b, of a0 "r"] a few by (auto simp: r_def)
  obtain s2 where s2: "new_row a1 s1 = Some (r + 1, s2)" "built ns (L @ [a0, a1]) s2" "sv_inout s2 = sv_inout s1" "sv_stack s2 = sv_stack s1"
    "sv_right s2 = (sv_right s1)(r + 1 := r + 1)" "sv_left s2 = (sv_left s1)(r + 1 := r + 1)"
    using new_row_built [OF s1(2), of a1 "r + 1"] a few by (auto simp: r_def)
  obtain s3 where s3: "new_row a2 s2 = Some (r + 2, s3)" "built ns (L @ [a0, a1, a2]) s3" "sv_inout s3 = sv_inout s2" "sv_stack s3 = sv_stack s2"
    "sv_right s3 = (sv_right s2)(r + 2 := r + 2)" "sv_left s3 = (sv_left s2)(r + 2 := r + 2)"
    using new_row_built [OF s2(2), of a2 "r + 2"] a few by (auto simp: r_def)
  obtain s4 where s4: "new_row a3 s3 = Some (r + 3, s4)" "built ns (L @ [a0, a1, a2, a3]) s4" "sv_inout s4 = sv_inout s3" "sv_stack s4 = sv_stack s3"
    "sv_right s4 = (sv_right s3)(r + 3 := r + 3)" "sv_left s4 = (sv_left s3)(r + 3 := r + 3)"
    using new_row_built [OF s3(2), of a3 "r + 3"] a few by (auto simp: r_def)
  show thesis
    by (rule that [OF s1(1) s2(1) s3(1) s4(1,2)]) (simp_all add: s1 s2 s3 s4)
qed

lemma add_candidate_built:
  assumes b: "built ns L s" and a: "\<forall>a \<in> set (cand_names iv). a \<in> set ns \<and> a < 400"
    and few: "Suc (length ns) + length L + 4 \<le> kMaxNodes"
    and rows: "rows_linked (Suc (length ns)) k s" "length L = 4 * k"
  shows "\<exists>s'. add_candidate iv s = Some s' \<and> built ns (L @ cand_names iv) s' \<and> rows_linked (Suc (length ns)) (Suc k) s'
    \<and> sv_inout s' = sv_inout s \<and> sv_stack s' = sv_stack s"
proof -
  obtain i v where iv: "iv = (i, v)"
    by (cases iv)
  let ?b = "Suc (length ns)"
  let ?r = "?b + length L"
  from a have "\<forall>a \<in> set [i, get_row_col (row_of i) v, get_col_col (col_of i) v, get_box_col (box_of i) v]. a \<in> set ns \<and> a < 400"
    by (simp add: iv cand_names_def)
  from four_rows_built [OF b this few] obtain s1 s2 s3 s4 where
    n: "new_row i s = Some (?r, s1)" "new_row (get_row_col (row_of i) v) s1 = Some (?r + 1, s2)"
    "new_row (get_col_col (col_of i) v) s2 = Some (?r + 2, s3)" "new_row (get_box_col (box_of i) v) s3 = Some (?r + 3, s4)"
    and b4: "built ns (L @ cand_names iv) s4" and io: "sv_inout s4 = sv_inout s" "sv_stack s4 = sv_stack s"
    and lr: "sv_right s4 = (sv_right s)(?r := ?r, ?r + 1 := ?r + 1, ?r + 2 := ?r + 2, ?r + 3 := ?r + 3)"
    "sv_left s4 = (sv_left s)(?r := ?r, ?r + 1 := ?r + 1, ?r + 2 := ?r + 2, ?r + 3 := ?r + 3)"
    unfolding iv cand_names_def prod.case by metis
  let ?s5 = "put_left ?r (?r + 1) s4"
  let ?s6 = "put_left ?r (?r + 2) ?s5"
  let ?s7 = "put_left ?r (?r + 3) ?s6"
  have ret: "add_candidate iv s = Some ?s7"
    by (simp add: iv add_candidate_def n)
  have r4: "ring (sv_right s4) (sv_left s4) ?r []"
    by (simp add: ring_def lr)
  note r5 = put_left_ring [OF r4, of "?r + 1"]
  have r5': "ring (sv_right ?s5) (sv_left ?s5) ?r [?r + 1]"
    using r5(1) by simp
  note r6 = put_left_ring [OF r5', of "?r + 2"]
  have r6': "ring (sv_right ?s6) (sv_left ?s6) ?r [?r + 1, ?r + 2]"
    using r6(1) by simp
  note r7 = put_left_ring [OF r6', of "?r + 3"]
  have r7': "ring (sv_right ?s7) (sv_left ?s7) ?r [?r + 1, ?r + 2, ?r + 3]"
    using r7(1) by simp
  have b5: "built ns (L @ cand_names iv) ?s5"
    by (rule put_left_built [OF b4 _ _ r4]) simp_all
  have b6: "built ns (L @ cand_names iv) ?s6"
    by (rule put_left_built [OF b5 _ _ r5']) simp_all
  have b7: "built ns (L @ cand_names iv) ?s7"
    by (rule put_left_built [OF b6 _ _ r6']) simp_all
  have same: "sv_right ?s7 y = sv_right s y \<and> sv_left ?s7 y = sv_left s y" if "y < ?r" for y
    using that r5(2) [of y] r6(2) [of y] r7(2) [of y] by (simp add: lr)
  have "rows_linked ?b (Suc k) ?s7"
    unfolding rows_linked_def
  proof (intro allI impI)
    fix i assume i: "i < Suc k"
    show "ring (sv_right ?s7) (sv_left ?s7) (?b + 4 * i) [?b + 4 * i + 1, ?b + 4 * i + 2, ?b + 4 * i + 3]"
    proof (cases "i = k")
      case True
      then show ?thesis
        using r7' rows(2) by simp
    next
      case False
      then have "ring (sv_right s) (sv_left s) (?b + 4 * i) [?b + 4 * i + 1, ?b + 4 * i + 2, ?b + 4 * i + 3]" "i < k"
        using rows(1) i by (simp_all add: rows_linked_def)
      then show ?thesis
        using same rows(2) by (subst ring_cong [where nx = "sv_right s" and pv = "sv_left s"]) auto
    qed
  qed
  then show ?thesis
    using ret b7 io by auto
qed

lemma add_candidates_built:
  assumes "built ns L s" "\<forall>iv \<in> set ivs. \<forall>a \<in> set (cand_names iv). a \<in> set ns \<and> a < 400"
    and "Suc (length ns) + length L + 4 * length ivs \<le> kMaxNodes"
    and "rows_linked (Suc (length ns)) k s" "length L = 4 * k"
  shows "\<exists>s'. run_all add_candidate ivs s = Some s' \<and> built ns (L @ concat (map cand_names ivs)) s'
    \<and> rows_linked (Suc (length ns)) (k + length ivs) s' \<and> sv_inout s' = sv_inout s \<and> sv_stack s' = sv_stack s"
  using assms
proof (induction ivs arbitrary: L s k)
  case (Cons iv ivs)
  obtain s1 where s1: "add_candidate iv s = Some s1" "built ns (L @ cand_names iv) s1" "rows_linked (Suc (length ns)) (Suc k) s1"
    "sv_inout s1 = sv_inout s" "sv_stack s1 = sv_stack s"
    using add_candidate_built [OF Cons.prems(1), of iv k] Cons.prems(2-5) by auto
  have "length (cand_names iv) = 4"
    by (simp add: cand_names_def split: prod.splits)
  then show ?case
    using Cons.IH [OF s1(2) _ _ s1(3)] Cons.prems(2,3,5) s1(1,4,5) by auto
qed simp

subsection \<open>The names of the columns\<close>

definition all_names :: "nat list" where
  "all_names = [0..<kCells] @ concat (map (\<lambda>i. concat (map (\<lambda>v. [get_row_col i v, get_col_col i v, get_box_col i v]) [1..<10])) [0..<9])"

lemma distinct_concat_map:
  "distinct xs \<Longrightarrow> (\<forall>x \<in> set xs. distinct (f x)) \<Longrightarrow> (\<forall>x \<in> set xs. \<forall>y \<in> set xs. x \<noteq> y \<longrightarrow> set (f x) \<inter> set (f y) = {})
    \<Longrightarrow> distinct (concat (map f xs))"
  by (induction xs) fastforce+

lemmas name_defs = get_row_col_def get_col_col_def get_box_col_def kRow_def kCol_def kBox_def

lemma names_inj:
  assumes "i < 9" "j < 9" "v < 10" "w < 10"
  shows "get_row_col i v = get_row_col j w \<longleftrightarrow> i = j \<and> v = w" "get_col_col i v = get_col_col j w \<longleftrightarrow> i = j \<and> v = w"
    "get_box_col i v = get_box_col j w \<longleftrightarrow> i = j \<and> v = w"
    "get_row_col i v \<noteq> get_col_col j w" "get_row_col i v \<noteq> get_box_col j w" "get_col_col i v \<noteq> get_box_col j w"
    "get_col_col i v \<noteq> get_row_col j w" "get_box_col i v \<noteq> get_row_col j w" "get_box_col i v \<noteq> get_col_col j w"
    "100 \<le> get_row_col i v" "100 \<le> get_col_col i v" "100 \<le> get_box_col i v"
    "get_row_col i v < 400" "get_col_col i v < 400" "get_box_col i v < 400"
proof -
  have "(i * 10 + v) div 10 = i" "(i * 10 + v) mod 10 = v" "(j * 10 + w) div 10 = j" "(j * 10 + w) mod 10 = w"
    using assms(3,4) by simp_all
  then have "i * 10 + v = j * 10 + w \<longleftrightarrow> i = j \<and> v = w"
    by metis
  then show "get_row_col i v = get_row_col j w \<longleftrightarrow> i = j \<and> v = w" "get_col_col i v = get_col_col j w \<longleftrightarrow> i = j \<and> v = w"
    "get_box_col i v = get_box_col j w \<longleftrightarrow> i = j \<and> v = w"
    by (simp_all add: name_defs)
qed (use assms in \<open>simp_all add: name_defs\<close>)

lemma all_names_facts: "distinct all_names" "a \<in> set all_names \<Longrightarrow> a < 400" "length all_names = 324"
proof -
  let ?g = "\<lambda>i v. [get_row_col i v, get_col_col i v, get_box_col i v]"
  have one: "distinct (concat (map (?g i) [1..<10]))" if "i < 9" for i
    by (rule distinct_concat_map) (use that in \<open>simp_all add: names_inj del: upt_rec_numeral\<close>)
  have "set (concat (map (?g i) [1..<10])) \<inter> set (concat (map (?g j) [1..<10])) = {}" if "i < 9" "j < 9" "i \<noteq> j" for i j
    using that by (auto simp: names_inj simp del: upt_rec_numeral)
  then have two: "distinct (concat (map (\<lambda>i. concat (map (?g i) [1..<10])) [0..<9]))"
    using one by (intro distinct_concat_map) (simp_all del: upt_rec_numeral)
  have "\<forall>x \<in> set (concat (map (\<lambda>i. concat (map (?g i) [1..<10])) [0..<9])). 100 \<le> x \<and> x < 400"
    by (auto simp: names_inj simp del: upt_rec_numeral)
  moreover have "\<forall>x \<in> set [0..<kCells]. x < 100"
    by (simp add: kCells_def del: upt_rec_numeral)
  ultimately have "\<forall>x \<in> set all_names. x < 400"
    "set [0..<kCells] \<inter> set (concat (map (\<lambda>i. concat (map (?g i) [1..<10])) [0..<9])) = {}"
    unfolding all_names_def set_append by fastforce+
  then show "distinct all_names" "a \<in> set all_names \<Longrightarrow> a < 400"
    using two by (simp_all add: all_names_def)
  show "length all_names = 324"
    by (simp add: all_names_def length_concat comp_def sum_list_triv kCells_def del: upt_rec_numeral)
qed

lemma subseq_concat: "(\<And>x. x \<in> set xs \<Longrightarrow> subseq (f x) (g x)) \<Longrightarrow> subseq (concat (map f xs)) (concat (map g xs))"
  by (induction xs) (auto intro: list_emb_append_mono)

lemma column_names_subseq: "subseq (column_names board) all_names"
proof -
  have "subseq ((if a then [x] else []) @ (if b then [y] else []) @ (if c then [z] else [])) [x, y, z]"
    for a b c and x y z :: nat
    by auto
  then show ?thesis
    unfolding column_names_def all_names_def Let_def
    by (intro list_emb_append_mono subseq_concat subseq_filter_left)
qed

lemma column_names_facts:
  "distinct (column_names board)" "a \<in> set (column_names board) \<Longrightarrow> a < 400" "length (column_names board) \<le> 324"
proof -
  obtain A where A: "column_names board = nths all_names A"
    using column_names_subseq [of board] unfolding subseq_conv_nths by blast
  show "distinct (column_names board)"
    unfolding A by (rule distinct_nthsI [OF all_names_facts(1)])
  show "a < 400" if "a \<in> set (column_names board)"
    using that all_names_facts(2) set_nths_subset [of all_names A] A by auto
  show "length (column_names board) \<le> 324"
    using list_emb_length [OF column_names_subseq, of board] all_names_facts(3) by simp
qed

lemma length_candidates: "length (candidates board) \<le> 729"
proof -
  let ?f = "\<lambda>i. if board ! i = 0 then map (Pair i) (filter (\<lambda>v. \<not> (mark_given row_of board (row_of i) v
      \<or> mark_given col_of board (col_of i) v \<or> mark_given box_of board (box_of i) v)) [1..<10]) else []"
  have "length (?f i) \<le> 9" for i
    using length_filter_le [of _ "[1..<10::nat]"] by (auto intro: order_trans)
  then have "sum_list (map (\<lambda>i. length (?f i)) [0..<kCells]) \<le> sum_list (map (\<lambda>_. 9) [0..<kCells])"
    by (intro sum_list_mono) blast
  then show ?thesis
    by (simp add: candidates_def Let_def length_concat comp_def sum_list_triv kCells_def del: upt_rec_numeral)
qed

subsection \<open>The candidates\<close>

lemma mark_given_iff: "mark_given u board k v \<longleftrightarrow> (\<exists>i < kCells. u i = k \<and> nat (board ! i) = v)"
proof -
  have "fold (\<lambda>i t. t(u i := (t (u i))(nat (board ! i) := True))) xs t k v \<longleftrightarrow> t k v \<or> (\<exists>i \<in> set xs. u i = k \<and> nat (board ! i) = v)"
    for xs t
    by (induction xs arbitrary: t) auto
  then show ?thesis
    unfolding mark_given_def by (simp del: upt_rec_numeral) (auto simp: kCells_def)
qed

lemma unit_bounds: "i < kCells \<Longrightarrow> row_of i < 9 \<and> col_of i < 9 \<and> box_of i < 9"
proof -
  assume "i < kCells"
  then have "i div 9 < 9" "i mod 9 < 9"
    by (simp_all add: kCells_def)
  then have "i div 9 div 3 < 3" "i mod 9 div 3 < 3"
    by simp_all
  then show ?thesis
    using \<open>i div 9 < 9\<close> \<open>i mod 9 < 9\<close> unfolding row_of_def col_of_def box_of_def by linarith
qed

lemma candidates_iff:
  "(i, v) \<in> set (candidates board) \<longleftrightarrow> i < kCells \<and> board ! i = 0 \<and> 1 \<le> v \<and> v < 10
     \<and> \<not> mark_given row_of board (row_of i) v \<and> \<not> mark_given col_of board (col_of i) v \<and> \<not> mark_given box_of board (box_of i) v"
  by (auto simp: candidates_def Let_def simp del: upt_rec_numeral)

lemma column_names_iff:
  "a \<in> set (column_names board) \<longleftrightarrow> a < kCells \<and> board ! a = 0
     \<or> (\<exists>i < 9. \<exists>v. 1 \<le> v \<and> v < 10 \<and> (a = get_row_col i v \<and> \<not> mark_given row_of board i v
          \<or> a = get_col_col i v \<and> \<not> mark_given col_of board i v \<or> a = get_box_col i v \<and> \<not> mark_given box_of board i v))"
proof -
  have "a \<in> set (concat (map (\<lambda>i. concat (map (\<lambda>v.
             (if \<not> mark_given row_of board i v then [get_row_col i v] else [])
             @ (if \<not> mark_given col_of board i v then [get_col_col i v] else [])
             @ (if \<not> mark_given box_of board i v then [get_box_col i v] else [])) [1..<10])) [0..<9]))
    \<longleftrightarrow> (\<exists>i \<in> {0..<9}. \<exists>v \<in> {1..<10}. (a = get_row_col i v \<and> \<not> mark_given row_of board i v
          \<or> a = get_col_col i v \<and> \<not> mark_given col_of board i v \<or> a = get_box_col i v \<and> \<not> mark_given box_of board i v))"
    unfolding set_concat set_map set_upt set_append by auto
  then show ?thesis
    unfolding column_names_def Let_def set_append by (auto simp del: upt_rec_numeral)
qed

lemma candidate_columns: "iv \<in> set (candidates board) \<Longrightarrow> a \<in> set (cand_names iv) \<Longrightarrow> a \<in> set (column_names board)"
  using unit_bounds [of "fst iv"]
  by (cases iv) (auto simp: candidates_iff column_names_iff cand_names_def)

lemma cand_names_distinct:
  assumes "i < kCells" "v < 10"
  shows "distinct (cand_names (i, v))"
proof -
  note u = unit_bounds [OF assms(1)]
  have "i < 100"
    using assms(1) by (simp add: kCells_def)
  then have "i \<noteq> get_row_col (row_of i) v" "i \<noteq> get_col_col (col_of i) v" "i \<noteq> get_box_col (box_of i) v"
    using names_inj(10-12) [of "row_of i" 0 v 0] names_inj(10-12) [of "col_of i" 0 v 0]
      names_inj(10-12) [of "box_of i" 0 v 0] u assms(2) by auto
  then show ?thesis
    using names_inj(4-6) u assms(2) by (simp add: cand_names_def)
qed

lemma length_cand_names [simp]: "length (cand_names iv) = 4"
  by (simp add: cand_names_def split: prod.splits)

subsection \<open>The matrix of a board\<close>

definition first_node :: "int list \<Rightarrow> nat" where
  "first_node board = Suc (length (column_names board))"

definition node :: "int list \<Rightarrow> nat \<Rightarrow> nat \<Rightarrow> nat" where
  "node board k p = first_node board + 4 * k + p"

definition node_names :: "int list \<Rightarrow> nat list" where
  "node_names board = concat (map cand_names (candidates board))"

definition the_nodes :: "int list \<Rightarrow> nat set" where
  "the_nodes board = {first_node board ..< first_node board + 4 * length (candidates board)}"

definition the_headers :: "int list \<Rightarrow> nat set" where
  "the_headers board = {0 ..< first_node board}"

definition node_col :: "int list \<Rightarrow> nat \<Rightarrow> nat" where
  "node_col board n = Suc (pos (column_names board) (node_names board ! (n - first_node board)))"

definition node_row :: "int list \<Rightarrow> nat \<Rightarrow> nat list" where
  "node_row board n = (let q = n - first_node board
     in map (\<lambda>d. node board (q div 4) ((q mod 4 + d) mod 4)) [1, 2, 3])"

definition node_cand :: "int list \<Rightarrow> nat \<Rightarrow> nat \<times> nat" where
  "node_cand board n = candidates board ! ((n - first_node board) div 4)"

lemma nth_concat4: "(\<And>x. length (f x) = 4) \<Longrightarrow> k < length xs \<Longrightarrow> p < 4 \<Longrightarrow> concat (map f xs) ! (4 * k + p) = f (xs ! k) ! p"
  by (induction xs arbitrary: k) (auto simp: nth_append nth_Cons split: nat.splits)

lemma length_node_names: "length (node_names board) = 4 * length (candidates board)"
  by (simp add: node_names_def length_concat comp_def sum_list_triv)

lemma nodeE:
  assumes "n \<in> the_nodes board"
  obtains k p where "n = node board k p" "k < length (candidates board)" "p < 4"
proof
  let ?q = "n - first_node board"
  show "n = node board (?q div 4) (?q mod 4)" "?q div 4 < length (candidates board)" "?q mod 4 < 4"
    using assms by (auto simp: the_nodes_def node_def)
qed

lemma node_facts:
  assumes "k < length (candidates board)" "p < 4"
  shows "node board k p \<in> the_nodes board" "node_cand board (node board k p) = candidates board ! k"
    "node_names board ! (node board k p - first_node board) = cand_names (candidates board ! k) ! p"
    "node_col board (node board k p) = Suc (pos (column_names board) (cand_names (candidates board ! k) ! p))"
    "node_row board (node board k p) = map (\<lambda>d. node board k ((p + d) mod 4)) [1, 2, 3]"
  using assms nth_concat4 [of cand_names k "candidates board" p]
  by (simp_all add: the_nodes_def node_def node_cand_def node_names_def node_col_def node_row_def)

lemma less4: "p < (4::nat) \<longleftrightarrow> p = 0 \<or> p = 1 \<or> p = 2 \<or> p = 3"
  by auto

lemma row_cases:
  assumes "p < 4"
  shows "mset (map (\<lambda>d. f ((p + d) mod 4)) [1, 2, 3]) + {#f p#} = mset (map f [0, 1, 2, 3 :: nat])"
  using assms unfolding less4 by (elim disjE) (simp_all del: One_nat_def)

lemma node_row_set:
  assumes "k < length (candidates board)" "p < 4"
  shows "set (node board k p # node_row board (node board k p)) = node board k ` {0, 1, 2, 3}"
proof -
  have "set (node board k p # node_row board (node board k p))
      = set_mset (mset (map (\<lambda>d. node board k ((p + d) mod 4)) [1, 2, 3]) + {#node board k p#})"
    by (simp add: node_facts(5) [OF assms])
  then show ?thesis
    by (simp only: row_cases [OF assms(2)]) simp
qed

lemma node_cols_mset:
  assumes "n \<in> the_nodes board"
  shows "mset (map (node_col board) (n # node_row board n))
    = image_mset (\<lambda>a. Suc (pos (column_names board) a)) (mset (cand_names (node_cand board n)))"
proof -
  obtain k p where n: "n = node board k p" "k < length (candidates board)" "p < 4"
    using nodeE [OF assms] .
  let ?f = "\<lambda>p. Suc (pos (column_names board) (cand_names (candidates board ! k) ! p))"
  have "map (node_col board) (n # node_row board n) = ?f p # map (\<lambda>d. ?f ((p + d) mod 4)) [1, 2, 3]"
    using n by (simp add: node_facts)
  then have "mset (map (node_col board) (n # node_row board n)) = mset (map ?f [0, 1, 2, 3])"
    using row_cases [OF n(3), of ?f] by simp
  also have "map ?f [0, 1, 2, 3] = map (\<lambda>a. Suc (pos (column_names board) a)) (cand_names (candidates board ! k))"
    by (simp add: cand_names_def split: prod.splits)
  finally show ?thesis
    using n by (simp add: node_facts)
qed

lemma pos_inj_on: "inj_on (\<lambda>a. Suc (pos xs a)) (set xs)"
  by (auto intro: inj_onI dest: pos_inj)

lemma node_cand_in: "n \<in> the_nodes board \<Longrightarrow> node_cand board n \<in> set (candidates board)"
  by (auto elim!: nodeE simp: node_facts)

lemma cand_distinct: "iv \<in> set (candidates board) \<Longrightarrow> distinct (cand_names iv)"
  using cand_names_distinct [of "fst iv" "snd iv"] by (cases iv) (simp add: candidates_iff)

lemma node_row_distinct:
  assumes "n \<in> the_nodes board"
  shows "distinct (map (node_col board) (n # node_row board n))"
proof -
  let ?iv = "node_cand board n"
  have "set (cand_names ?iv) \<subseteq> set (column_names board)"
    using candidate_columns node_cand_in [OF assms] by blast
  then have "distinct (map (\<lambda>a. Suc (pos (column_names board) a)) (cand_names ?iv))"
    using cand_distinct [OF node_cand_in [OF assms]] by (simp add: distinct_map inj_on_subset [OF pos_inj_on])
  moreover have "mset (map (node_col board) (n # node_row board n))
      = mset (map (\<lambda>a. Suc (pos (column_names board) a)) (cand_names ?iv))"
    using node_cols_mset [OF assms] by simp
  ultimately show ?thesis
    using mset_eq_imp_distinct_iff by blast
qed

lemma few_nodes_of: "4 * length (candidates board) + first_node board \<le> kMaxNodes"
  using length_candidates [of board] column_names_facts(3) [of board] by (simp add: first_node_def kMaxNodes_def)

interpretation board: matrix "node_row b" "node_col b" "the_nodes b" "the_headers b" for b
proof
  show "distinct (map (node_col b) (n # node_row b n))" if "n \<in> the_nodes b" for n
    using node_row_distinct [OF that] .
  show "j \<in> the_nodes b" if "n \<in> the_nodes b" "j \<in> set (node_row b n)" for n j
    using that by (auto elim!: nodeE simp: node_facts)
  show "set (j # node_row b j) = set (n # node_row b n)" if nb: "n \<in> the_nodes b" and j: "j \<in> set (node_row b n)" for n j
  proof -
    obtain k p where n: "n = node b k p" "k < length (candidates b)" "p < 4"
      using nodeE [OF nb] .
    obtain p' where "j = node b k p'" "p' < 4"
      using j n by (auto simp: node_facts)
    then show ?thesis
      using node_row_set n by metis
  qed
  show "node_col b n \<in> the_headers b" if nb: "n \<in> the_nodes b" for n
  proof -
    obtain k p where n: "n = node b k p" "k < length (candidates b)" "p < 4"
      using nodeE [OF nb] .
    then have "cand_names (candidates b ! k) ! p \<in> set (column_names b)"
      by (metis candidate_columns length_cand_names nth_mem)
    then show ?thesis
      using pos_less [of "cand_names (candidates b ! k) ! p" "column_names b"] n
      by (simp add: node_facts the_headers_def first_node_def)
  qed
  show "the_nodes b \<inter> the_headers b = {}" "finite (the_nodes b)" "finite (the_headers b)"
    by (auto simp: the_nodes_def the_headers_def)
  show "card (the_nodes b) < kMaxNodes" "card (the_headers b) < kMaxNodes"
    using few_nodes_of [of b] column_names_facts(3) [of b] by (simp_all add: the_nodes_def the_headers_def first_node_def kMaxNodes_def)
qed

end
