(* ===== verification/SudokuSolution.thy ===== *)
theory SudokuSolution
  imports SudokuMatrix
begin

section \<open>Exact covers and solutions\<close>

text \<open>
  The constructor and the search together, and why the exact covers of the matrix of a board are the solutions of
  the Sudoku.
\<close>

subsection \<open>The constructor builds the matrix\<close>

lemma SudokuSolver_new_built:
  assumes "tables_in_bounds board"
  shows "\<exists>s'. SudokuSolver_new board s = Some s' \<and> built (column_names board) (node_names board) s'
    \<and> rows_linked (first_node board) (length (candidates board)) s' \<and> sv_inout s' = board \<and> sv_stack s' = []"
proof -
  let ?ns = "column_names board"
  obtain s1 where new: "new_column 0 (s\<lparr>sv_inout := board, sv_cur_node := 0, sv_stack := []\<rparr>) = Some (0, s1)"
    "sv_cur_node s1 = 1" "sv_inout s1 = board" "sv_stack s1 = []"
    by (auto simp: new_column_def assert_that_def kMaxNodes_def Let_def)
  let ?s2 = "s1\<lparr>sv_root := 0, sv_left := (sv_left s1)(0 := 0), sv_right := (sv_right s1)(0 := 0), sv_columns := Map.empty\<rparr>"
  have "built [] [] ?s2"
    using new(2) by (simp add: built_def ring_def)
  then obtain s3 where s3: "append_columns ?ns ?s2 = Some s3" "built ?ns [] s3" "sv_inout s3 = board" "sv_stack s3 = []"
    using append_columns_built [of "[]" ?s2 ?ns] column_names_facts [where board = board] new(3,4) by (auto simp: kMaxNodes_def)
  have "\<forall>iv \<in> set (candidates board). \<forall>a \<in> set (cand_names iv). a \<in> set ?ns \<and> a < 400"
    using candidate_columns column_names_facts(2) by blast
  then obtain s4 where "run_all add_candidate (candidates board) s3 = Some s4" "built ?ns (node_names board) s4"
    "rows_linked (Suc (length ?ns)) (length (candidates board)) s4" "sv_inout s4 = board" "sv_stack s4 = []"
    using add_candidates_built [OF s3(2), where ivs = "candidates board" and k = 0] s3(3,4) few_nodes_of [of board]
    by (auto simp: rows_linked_def node_names_def first_node_def)
  then show ?thesis
    using assms new(1) s3(1) by (auto simp: SudokuSolver_new_def first_node_def Let_def)
qed

lemma rows_horizontal:
  assumes "rows_linked (first_node board) (length (candidates board)) s"
  shows "board.horizontal board s"
  unfolding board.horizontal_def
proof
  fix n assume "n \<in> the_nodes board"
  then obtain k p where n: "n = node board k p" "k < length (candidates board)" "p < 4"
    using nodeE by blast
  let ?n = "node board k"
  have r0: "ring (sv_right s) (sv_left s) (?n 0) [?n 1, ?n 2, ?n 3]"
    using assms n(2) by (simp add: rows_linked_def node_def)
  then have "ring (sv_right s) (sv_left s) (?n 1) [?n 2, ?n 3, ?n 0]"
    "ring (sv_right s) (sv_left s) (?n 2) [?n 3, ?n 0, ?n 1]" "ring (sv_right s) (sv_left s) (?n 3) [?n 0, ?n 1, ?n 2]"
    using ring_rotate [of "sv_right s" "sv_left s" "?n 0" "[]" "?n 1" "[?n 2, ?n 3]"]
      ring_rotate [of "sv_right s" "sv_left s" "?n 0" "[?n 1]" "?n 2" "[?n 3]"]
      ring_rotate [of "sv_right s" "sv_left s" "?n 0" "[?n 1, ?n 2]" "?n 3" "[]"] by simp_all
  then show "ring (sv_right s) (sv_left s) n (node_row board n)"
    using r0 n(3) unfolding n(1) node_facts(5) [OF n(2,3)] less4 by (elim disjE) (simp_all del: One_nat_def)
qed

text \<open>All columns and all nodes are active.\<close>

abbreviation start_cols :: "int list \<Rightarrow> nat list" where
  "start_cols board \<equiv> [1..<first_node board]"

abbreviation start_nodes :: "int list \<Rightarrow> nat \<Rightarrow> nat list" where
  "start_nodes board \<equiv> col_nodes (column_names board) (node_names board)"

lemma start_nodes_iff: "n \<in> set (start_nodes board c) \<longleftrightarrow> n \<in> the_nodes board \<and> node_col board n = c"
proof
  assume "n \<in> set (start_nodes board c)"
  then show "n \<in> the_nodes board \<and> node_col board n = c"
    by (auto simp: col_nodes_def the_nodes_def node_col_def first_node_def length_node_names)
next
  assume n: "n \<in> the_nodes board \<and> node_col board n = c"
  then have "n = Suc (length (column_names board)) + (n - first_node board)" "n - first_node board < length (node_names board)"
    "Suc (pos (column_names board) (node_names board ! (n - first_node board))) = c"
    by (auto simp: the_nodes_def first_node_def node_col_def length_node_names)
  then show "n \<in> set (start_nodes board c)"
    unfolding col_nodes_def by (auto intro!: image_eqI [where x = "n - first_node board"])
qed

lemma node_col_active: "n \<in> the_nodes board \<Longrightarrow> node_col board n \<in> set (start_cols board)"
  using board.headers [of n board] by (auto simp: the_headers_def node_col_def)

lemma start_awf: "board.awf board (start_cols board) (start_nodes board)"
proof -
  have "distinct (start_nodes board c)" for c
    by (simp add: col_nodes_def distinct_map inj_on_def)
  then show ?thesis
    using board.row_nodes [of _ board] node_col_active [of _ board]
    unfolding board.awf_def by (auto simp: start_nodes_iff the_headers_def)
qed

lemma built_rep:
  assumes b: "built (column_names board) (node_names board) s"
    and r: "rows_linked (first_node board) (length (candidates board)) s"
  shows "board.rep board s (start_cols board) (start_nodes board)"
proof -
  have "sv_col s n = node_col board n" if "n \<in> the_nodes board" for n
  proof -
    let ?q = "n - first_node board"
    have q: "n = Suc (length (column_names board)) + ?q" "?q < length (node_names board)"
      using that by (auto simp: the_nodes_def first_node_def length_node_names)
    then have "sv_col s (Suc (length (column_names board)) + ?q) = node_col board n"
      using b unfolding built_def node_col_def by blast
    then show ?thesis
      using q(1) by simp
  qed
  then have "board.vertical board s (start_cols board) (start_nodes board)"
    using b unfolding board.vertical_def by (auto simp: built_def start_nodes_iff the_headers_def first_node_def)
  then show ?thesis
    using b start_awf rows_horizontal [OF r] unfolding board.rep_def
    by (simp add: built_def the_headers_def first_node_def)
qed

lemma built_names:
  assumes b: "built (column_names board) (node_names board) s" and k: "k < length (candidates board)" "p < 4"
  shows "sv_name s (node board k p) = cand_names (candidates board ! k) ! p"
proof -
  have "4 * k + p < length (node_names board)"
    using k by (simp add: length_node_names)
  then show ?thesis
    using b nth_concat4 [of cand_names k "candidates board" p] k
    by (simp add: built_def node_def first_node_def node_names_def add.assoc)
qed

subsection \<open>Writing the solution\<close>

definition named :: "int list \<Rightarrow> sudoku_solver \<Rightarrow> bool" where
  "named board s \<longleftrightarrow> (\<forall>k < length (candidates board). \<forall>p < 4. sv_name s (node board k p) = cand_names (candidates board ! k) ! p)"

lemma name_digit: "v < 10 \<Longrightarrow> get_row_col i v mod 10 = v \<and> get_col_col i v mod 10 = v \<and> get_box_col i v mod 10 = v"
proof -
  assume "v < 10"
  then have "(v + k * 10) mod 10 = v" for k
    by simp
  moreover have "get_row_col i v = v + (10 + i) * 10" "get_col_col i v = v + (20 + i) * 10" "get_box_col i v = v + (30 + i) * 10"
    by (simp_all add: name_defs)
  ultimately show ?thesis
    by (simp only: simp_thms)
qed

lemma read_row_node:
  assumes h: "board.horizontal board s" and nm: "named board s" and n: "n \<in> the_nodes board"
    and iv: "node_cand board n = (i, v)"
  shows "read_row kMaxNodes n (- 1) (- 1) s = Some (int i, int v)"
proof -
  obtain k p where n': "n = node board k p" "k < length (candidates board)" "p < 4"
    using nodeE [OF n] .
  have cand: "candidates board ! k = (i, v)"
    using iv n' by (simp add: node_facts)
  then have "(i, v) \<in> set (candidates board)"
    using n'(2) nth_mem by metis
  then have v: "i < kCells" "i < 100" "v < 10"
    by (auto simp: candidates_iff kCells_def)
  have "path (sv_right s) (sv_right s (node board k 0)) (node_row board (node board k 0)) (node board k 0)"
    using board.horizontal_path(1) [OF h] node_facts(1) [OF n'(2)] by simp
  then have right: "sv_right s (node board k 0) = node board k 1" "sv_right s (node board k 1) = node board k 2"
    "sv_right s (node board k 2) = node board k 3" "sv_right s (node board k 3) = node board k 0"
    using node_facts(5) [OF n'(2), of 0] by (simp_all del: One_nat_def)
  have name: "sv_name s (node board k 0) = i" "sv_name s (node board k 1) = get_row_col (row_of i) v"
    "sv_name s (node board k 2) = get_col_col (col_of i) v" "sv_name s (node board k 3) = get_box_col (box_of i) v"
    using nm n'(2) cand unfolding named_def by (simp_all add: cand_names_def)
  have ge: "\<not> get_row_col (row_of i) v < 100" "\<not> get_col_col (col_of i) v < 100" "\<not> get_box_col (box_of i) v < 100"
    by (simp_all add: name_defs)
  have "\<exists>m. kMaxNodes = Suc (Suc (Suc (Suc (Suc m))))"
    by (intro exI [of _ 3236]) (simp add: kMaxNodes_def)
  then obtain m where k: "kMaxNodes = Suc (Suc (Suc (Suc (Suc m))))"
    by blast
  have "p = 0 \<or> p = 1 \<or> p = 2 \<or> p = 3"
    using n'(3) by (simp add: less4)
  then show ?thesis
    unfolding n'(1) k using right name ge v name_digit [OF v(3)] by (elim disjE) simp_all
qed

text \<open>The candidates of the rows of an exact cover, written to the board.\<close>

definition fill :: "(nat \<times> nat) list \<Rightarrow> int list \<Rightarrow> int list" where
  "fill ivs board = fold (\<lambda>(i, v) b. b[i := int v]) ivs board"

lemma write_rows:
  assumes "board.horizontal board s" "named board s" "set ns \<subseteq> the_nodes board"
  shows "run_all write_row ns s = Some (s\<lparr>sv_inout := fill (map (node_cand board) ns) (sv_inout s)\<rparr>)"
  using assms
proof (induction ns arbitrary: s)
  case Nil
  then show ?case
    by (simp add: fill_def)
next
  case (Cons n ns)
  obtain i v where iv: "node_cand board n = (i, v)"
    by (cases "node_cand board n")
  let ?s = "s\<lparr>sv_inout := (sv_inout s)[i := int v]\<rparr>"
  have "(i, v) \<in> set (candidates board)"
    using node_cand_in [of n board] Cons.prems(3) iv by simp
  then have "write_row n s = Some ?s"
    using read_row_node [OF Cons.prems(1,2) _ iv] Cons.prems(3) by (simp add: write_row_def assert_that_def candidates_iff)
  moreover have "board.horizontal board ?s" "named board ?s"
    using Cons.prems(1,2) by (simp_all add: board.horizontal_def named_def)
  ultimately show ?case
    using Cons.IH [of ?s] Cons.prems(3) iv by (simp add: fill_def)
qed

subsection \<open>Exact covers in terms of the candidates\<close>

definition exact_candidates :: "int list \<Rightarrow> (nat \<times> nat) list \<Rightarrow> bool" where
  "exact_candidates board ivs \<longleftrightarrow> set ivs \<subseteq> set (candidates board)
     \<and> distinct (concat (map cand_names ivs)) \<and> set (concat (map cand_names ivs)) = set (column_names board)"

lemma exact_iff:
  "board.exact board (start_cols board) (start_nodes board) ns
    \<longleftrightarrow> set ns \<subseteq> the_nodes board \<and> exact_candidates board (map (node_cand board) ns)"
proof (cases "set ns \<subseteq> the_nodes board")
  case True
  let ?names = "concat (map cand_names (map (node_cand board) ns))" and ?f = "\<lambda>a. Suc (pos (column_names board) a)"
  have "mset (concat (map (board.rowcols board) ns)) = mset (map ?f ?names)"
    using True node_cols_mset by (induction ns) (simp_all add: board.rowcols_def)
  then have m: "distinct (concat (map (board.rowcols board) ns)) \<longleftrightarrow> distinct (map ?f ?names)"
    "set (concat (map (board.rowcols board) ns)) = ?f ` set ?names"
    using mset_eq_imp_distinct_iff mset_eq_setD by (blast, metis list.set_map)
  have cand: "set (map (node_cand board) ns) \<subseteq> set (candidates board)"
    using True node_cand_in by auto
  then have sub: "set ?names \<subseteq> set (column_names board)"
    unfolding set_concat set_map [of cand_names] using candidate_columns by blast
  have cols: "set (start_cols board) = ?f ` set (column_names board)"
  proof -
    have "card (?f ` set (column_names board)) = card {1..<first_node board}"
      using card_image [OF pos_inj_on, of "column_names board"] distinct_card [OF column_names_facts(1), of board]
      by (simp add: first_node_def)
    moreover have "?f ` set (column_names board) \<subseteq> {1..<first_node board}"
      using pos_less [THEN conjunct1] by (auto simp: first_node_def)
    ultimately have "?f ` set (column_names board) = {1..<first_node board}"
      by (intro card_subset_eq) simp_all
    then show ?thesis
      by simp
  qed
  have "?f ` set ?names = ?f ` set (column_names board) \<longleftrightarrow> set ?names = set (column_names board)"
    using inj_on_image_eq_iff [OF pos_inj_on sub order_refl] .
  moreover have "distinct (map ?f ?names) \<longleftrightarrow> distinct ?names"
    using inj_on_subset [OF pos_inj_on sub] by (simp add: distinct_map)
  moreover have "\<forall>n \<in> set ns. \<exists>c \<in> set (start_cols board). n \<in> set (start_nodes board c)"
    using True node_col_active by (auto simp: start_nodes_iff)
  ultimately show ?thesis
    using True cand m cols unfolding board.exact_def exact_candidates_def by simp
next
  case False
  then show ?thesis
    by (auto simp: board.exact_def start_nodes_iff)
qed

lemma candidates_as_nodes:
  assumes "set ivs \<subseteq> set (candidates board)"
  shows "\<exists>ns. set ns \<subseteq> the_nodes board \<and> map (node_cand board) ns = ivs"
  using assms
proof (induction ivs)
  case (Cons iv ivs)
  then obtain ns k where "set ns \<subseteq> the_nodes board" "map (node_cand board) ns = ivs"
    "k < length (candidates board)" "candidates board ! k = iv"
    by (auto simp: in_set_conv_nth)
  then show ?case
    using node_facts(1,2) [of k board 0] by (intro exI [of _ "node board k 0 # ns"]) simp
qed simp

text \<open>The solver: it finds an exact cover and writes it to the board, or there is none.\<close>

lemma solver_spec:
  assumes "tables_in_bounds board"
  shows "(\<exists>ivs s'. exact_candidates board ivs \<and> (SudokuSolver_new board s \<bind> solve solve_depth) = Some (True, s')
      \<and> sv_inout s' = fill ivs board)
   \<or> (\<exists>s'. (SudokuSolver_new board s \<bind> solve solve_depth) = Some (False, s') \<and> (\<nexists>ivs. exact_candidates board ivs))"
proof -
  obtain s1 where s1: "SudokuSolver_new board s = Some s1" "built (column_names board) (node_names board) s1"
    "rows_linked (first_node board) (length (candidates board)) s1" "sv_inout s1 = board" "sv_stack s1 = []"
    using SudokuSolver_new_built [OF assms] by blast
  note r = built_rep [OF s1(2,3)]
  have nm: "named board s1"
    using built_names [OF s1(2)] by (simp add: named_def)
  have "board.depth (start_cols board) \<le> solve_depth"
    unfolding board.depth_def solve_depth_def using board.few_cols [OF r] mult_le_mono [of "length (start_cols board)" kMaxNodes "kMaxNodes + 2" "kMaxNodes + 2"]
    by (simp add: algebra_simps)
  from board.solve_spec [OF r this]
  consider (yes) ns where "board.exact board (start_cols board) (start_nodes board) ns" "board.found board s1 ns (solve solve_depth s1)"
    | (no) "solve solve_depth s1 = Some (False, s1)" "\<nexists>ns. board.exact board (start_cols board) (start_nodes board) ns"
    unfolding board.solved_by_def by blast
  then show ?thesis
  proof cases
    case yes
    then obtain s2 where s2: "board.horizontal board s2" "sv_stack s2 = ns" "sv_inout s2 = board" "sv_name s2 = sv_name s1"
      "solve solve_depth s1 = board.write_solution s2"
      using s1(4,5) by (auto simp: board.found_def)
    have e: "set ns \<subseteq> the_nodes board" "exact_candidates board (map (node_cand board) ns)"
      using yes(1) unfolding exact_iff by blast+
    have "named board s2"
      using nm s2(4) by (simp add: named_def)
    then have "run_all write_row ns s2 = Some (s2\<lparr>sv_inout := fill (map (node_cand board) ns) board\<rparr>)"
      using write_rows [OF s2(1) _ e(1)] s2(3) by simp
    then have "solve solve_depth s1 = Some (True, s2\<lparr>sv_inout := fill (map (node_cand board) ns) board\<rparr>)"
      using s2(2,5) by (simp add: board.write_solution_def)
    then show ?thesis
      using e(2) s1(1) by auto
  next
    case no
    then have "\<nexists>ivs. exact_candidates board ivs"
      using candidates_as_nodes exact_iff exact_candidates_def by metis
    then show ?thesis
      using no(1) s1(1) by simp
  qed
qed

subsection \<open>Sudoku\<close>

text \<open>The cells of a unit: a row, a column or a box.\<close>

definition unit_cells :: "(nat \<Rightarrow> nat) \<Rightarrow> nat \<Rightarrow> nat list" where
  "unit_cells U u = filter (\<lambda>i. U i = u) [0..<kCells]"

text \<open>
  A solution of a puzzle: it has the digits of the puzzle where those are not 0, and every row, every column and
  every box has the nine digits.
\<close>

definition sudoku_solution :: "string \<Rightarrow> string \<Rightarrow> bool" where
  "sudoku_solution puzzle r \<longleftrightarrow> length r = kCells \<and> (\<forall>i < kCells. puzzle ! i \<noteq> CHR ''0'' \<longrightarrow> r ! i = puzzle ! i)
     \<and> (\<forall>U \<in> {row_of, col_of, box_of}. \<forall>u < 9. set (map ((!) r) (unit_cells U u)) = set ''123456789'')"

text \<open>The same for the board, with the digits as numbers.\<close>

definition board_solution :: "int list \<Rightarrow> int list \<Rightarrow> bool" where
  "board_solution board g \<longleftrightarrow> length g = kCells \<and> (\<forall>i < kCells. board ! i \<noteq> 0 \<longrightarrow> g ! i = board ! i)
     \<and> (\<forall>U \<in> {row_of, col_of, box_of}. \<forall>u < 9. set (map ((!) g) (unit_cells U u)) = {1..9})"

lemma set_unit_cells: "set (unit_cells U u) = {i. i < kCells \<and> U i = u}"
  by (auto simp: unit_cells_def)

lemma length_unit_cells:
  assumes "U \<in> {row_of, col_of, box_of}" "u < 9"
  shows "length (unit_cells U u) = 9"
proof -
  have "list_all (\<lambda>u. length (filter (\<lambda>i. row_of i = u) [0..<kCells]) = 9 \<and> length (filter (\<lambda>i. col_of i = u) [0..<kCells]) = 9
      \<and> length (filter (\<lambda>i. box_of i = u) [0..<kCells]) = 9) [0..<9]"
    by code_simp
  then show ?thesis
    using assms by (auto simp: unit_cells_def list_all_iff simp del: upt_rec_numeral)
qed

lemma board_solution_inj:
  assumes s: "board_solution board g" and U: "U \<in> {row_of, col_of, box_of}" and i: "i < kCells" "j < kCells" "U i = U j" "g ! i = g ! j"
  shows "i = j"
proof -
  have u: "U i < 9"
    using U unit_bounds [OF i(1)] by auto
  have "(!) g ` set (unit_cells U (U i)) = {1..9}"
    using s U u by (simp only: board_solution_def set_map)
  moreover have "card (set (unit_cells U (U i))) = card {1..9::int}"
    using length_unit_cells [OF U u] distinct_card [of "unit_cells U (U i)"] by (simp add: unit_cells_def)
  ultimately have "inj_on ((!) g) (set (unit_cells U (U i)))"
    by (intro eq_card_imp_inj_on) simp_all
  then show ?thesis
    using i by (auto simp: set_unit_cells dest: inj_onD)
qed

text \<open>The kinds of units with the names of their columns.\<close>

definition unit_kinds :: "((nat \<Rightarrow> nat) \<times> (nat \<Rightarrow> nat \<Rightarrow> nat)) set" where
  "unit_kinds = {(row_of, get_row_col), (col_of, get_col_col), (box_of, get_box_col)}"

lemma unit_kindsD: "(U, G) \<in> unit_kinds \<Longrightarrow> U \<in> {row_of, col_of, box_of}"
  by (auto simp: unit_kinds_def)

lemma unit_kindE: "U \<in> {row_of, col_of, box_of} \<Longrightarrow> \<exists>G. (U, G) \<in> unit_kinds"
  by (auto simp: unit_kinds_def)

lemma names_by_kind:
  "a \<in> set (column_names board) \<longleftrightarrow> a < kCells \<and> board ! a = 0
    \<or> (\<exists>(U, G) \<in> unit_kinds. \<exists>u < 9. \<exists>v. 1 \<le> v \<and> v < 10 \<and> a = G u v \<and> \<not> mark_given U board u v)"
  unfolding column_names_iff unit_kinds_def by auto

lemma cand_names_by_kind: "a \<in> set (cand_names (i, v)) \<longleftrightarrow> a = i \<or> (\<exists>(U, G) \<in> unit_kinds. a = G (U i) v)"
  by (auto simp: cand_names_def unit_kinds_def)

lemma kinds_inj:
  assumes "(U, G) \<in> unit_kinds" "(U', G') \<in> unit_kinds" "u < 9" "u' < 9" "v < 10" "v' < 10" "G u v = G' u' v'"
  shows "U = U' \<and> u = u' \<and> v = v'"
  using assms names_inj [OF assms(3-6)] by (auto simp: unit_kinds_def)

lemma kinds_large: "(U, G) \<in> unit_kinds \<Longrightarrow> 100 \<le> G u v"
  by (auto simp: unit_kinds_def name_defs)

lemma unit_of_bound: "(U, G) \<in> unit_kinds \<Longrightarrow> i < kCells \<Longrightarrow> U i < 9"
  using unit_bounds by (auto simp: unit_kinds_def)

lemma unit_candidate:
  assumes "(U, G) \<in> unit_kinds" "u < 9" "v < 10" "i < kCells" "w < 10" "G u v \<in> set (cand_names (i, w))"
  shows "U i = u \<and> w = v"
proof -
  have "G u v \<noteq> i"
    using kinds_large [OF assms(1), of u v] assms(4) by (simp add: kCells_def)
  then obtain U' G' where k: "(U', G') \<in> unit_kinds" "G u v = G' (U' i) w"
    using assms(6) by (auto simp: cand_names_by_kind)
  then show ?thesis
    using kinds_inj [OF assms(1) k(1) assms(2) unit_of_bound [OF k(1) assms(4)] assms(3,5) k(2)] by auto
qed

lemma cell_candidate:
  assumes "i < kCells" "i \<in> set (cand_names (j, w))"
  shows "j = i"
proof (rule ccontr)
  assume "j \<noteq> i"
  then obtain U G where "(U, G) \<in> unit_kinds" "i = G (U j) w"
    using assms(2) by (auto simp: cand_names_by_kind)
  then show False
    using kinds_large [of U G "U j" w] assms(1) by (simp add: kCells_def)
qed

subsection \<open>Exact covers are solutions\<close>

lemma fill_length [simp]: "length (fill ivs b) = length b"
  unfolding fill_def by (induction ivs arbitrary: b) (auto split: prod.splits)

lemma fill_other: "i \<notin> fst ` set ivs \<Longrightarrow> fill ivs b ! i = b ! i"
  unfolding fill_def by (induction ivs arbitrary: b) (auto split: prod.splits)

lemma fill_cell: "(i, v) \<in> set ivs \<Longrightarrow> distinct (map fst ivs) \<Longrightarrow> i < length b \<Longrightarrow> fill ivs b ! i = int v"
proof (induction ivs arbitrary: b)
  case (Cons iv ivs)
  show ?case
  proof (cases "iv = (i, v)")
    case True
    then have "fill (iv # ivs) b = fill ivs (b[i := int v])" "i \<notin> fst ` set ivs"
      using Cons.prems(2) by (simp_all add: fill_def)
    then show ?thesis
      using fill_other Cons.prems(3) by simp
  next
    case False
    then show ?thesis
      using Cons by (cases iv) (auto simp: fill_def)
  qed
qed simp

lemma distinct_cells: "distinct (concat (map cand_names ivs)) \<Longrightarrow> distinct (map fst ivs)"
proof (induction ivs)
  case (Cons iv ivs)
  have m: "fst jw \<in> set (cand_names jw)" for jw
    by (cases jw) (simp add: cand_names_def)
  have "set (cand_names iv) \<inter> (\<Union>jw \<in> set ivs. set (cand_names jw)) = {}" "distinct (map fst ivs)"
    using Cons by simp_all
  moreover from this(1) have "fst iv \<notin> fst ` set ivs"
    using m [of iv] m by (metis IntI UN_I emptyE imageE)
  ultimately show ?case
    by simp
qed simp

lemma exact_solution:
  assumes b: "length board = kCells" "\<forall>i < kCells. 0 \<le> board ! i \<and> board ! i \<le> 9" and e: "exact_candidates board ivs"
  shows "board_solution board (fill ivs board)"
proof -
  let ?g = "fill ivs board"
  have d: "distinct (map fst ivs)"
    using e distinct_cells by (simp add: exact_candidates_def)
  have c: "i < kCells \<and> board ! i = 0 \<and> 1 \<le> v \<and> v < 10 \<and> ?g ! i = int v" if "(i, v) \<in> set ivs" for i v
  proof -
    have "(i, v) \<in> set (candidates board)"
      using e that by (auto simp: exact_candidates_def)
    then show ?thesis
      using fill_cell [OF that d] b(1) by (simp add: candidates_iff)
  qed
  have given: "?g ! i = board ! i" if "board ! i \<noteq> 0" for i
  proof (rule fill_other)
    show "i \<notin> fst ` set ivs"
      using c that by auto
  qed
  have cov: "\<exists>i v. (i, v) \<in> set ivs \<and> a \<in> set (cand_names (i, v))" if "a \<in> set (column_names board)" for a
  proof -
    have "a \<in> set (concat (map cand_names ivs))"
      using e that by (simp only: exact_candidates_def)
    then show ?thesis
      by auto
  qed
  have range: "?g ! i \<in> {1..9}" if i: "i < kCells" for i
  proof (cases "board ! i = 0")
    case True
    then have "i \<in> set (column_names board)"
      using i by (simp add: names_by_kind)
    then obtain v where "(i, v) \<in> set ivs"
      using cov cell_candidate [OF i] by blast
    then show ?thesis
      using c by fastforce
  next
    case False
    then show ?thesis
      using given [OF False] b(2) i by fastforce
  qed
  have all: "\<exists>i < kCells. U i = u \<and> ?g ! i = int v" if k: "(U, G) \<in> unit_kinds" "u < 9" "1 \<le> v" "v < 10" for U G u v
  proof (cases "mark_given U board u v")
    case True
    then obtain i where i: "i < kCells" "U i = u" "nat (board ! i) = v"
      by (auto simp: mark_given_iff)
    then have "board ! i = int v" "board ! i \<noteq> 0"
      using k(3) by auto
    then show ?thesis
      using i given [of i] by auto
  next
    case False
    then have "G u v \<in> set (column_names board)"
      using k unfolding names_by_kind by blast
    then obtain i w where iw: "(i, w) \<in> set ivs" "G u v \<in> set (cand_names (i, w))"
      using cov by blast
    then have "U i = u \<and> w = v"
      using unit_candidate [OF k(1,2,4)] c by blast
    then show ?thesis
      using c [OF iw(1)] by auto
  qed
  have "set (map ((!) ?g) (unit_cells U u)) = {1..9}" if U: "U \<in> {row_of, col_of, box_of}" and u: "u < 9" for U u
  proof
    obtain G where G: "(U, G) \<in> unit_kinds"
      using unit_kindE [OF U] by blast
    show "set (map ((!) ?g) (unit_cells U u)) \<subseteq> {1..9}"
      using range by (auto simp: set_unit_cells)
    show "{1..9} \<subseteq> set (map ((!) ?g) (unit_cells U u))"
    proof
      fix x :: int assume "x \<in> {1..9}"
      then have "1 \<le> nat x" "nat x < 10" "int (nat x) = x"
        by auto
      then obtain i where "i < kCells" "U i = u" "?g ! i = x"
        using all [OF G u, of "nat x"] by auto
      then show "x \<in> set (map ((!) ?g) (unit_cells U u))"
        by (auto simp: set_unit_cells)
    qed
  qed
  then show ?thesis
    using given b(1) by (simp add: board_solution_def)
qed

subsection \<open>Solutions are exact covers\<close>

lemma solution_exact:
  assumes b: "\<forall>i < kCells. 0 \<le> board ! i" and s: "board_solution board g"
  shows "exact_candidates board (map (\<lambda>i. (i, nat (g ! i))) (filter (\<lambda>i. board ! i = 0) [0..<kCells]))"
proof -
  let ?cells = "filter (\<lambda>i. board ! i = 0) [0..<kCells]" and ?iv = "\<lambda>i. (i, nat (g ! i))"
  have given: "g ! i = board ! i" if "i < kCells" "board ! i \<noteq> 0" for i
    using s that by (simp add: board_solution_def)
  have range: "1 \<le> nat (g ! i) \<and> nat (g ! i) < 10" if "i < kCells" for i
  proof -
    have "set (map ((!) g) (unit_cells row_of (row_of i))) = {1..9}"
      using s unit_bounds [OF that] by (simp add: board_solution_def)
    moreover have "g ! i \<in> set (map ((!) g) (unit_cells row_of (row_of i)))"
      using that by (auto simp: set_unit_cells)
    ultimately have "g ! i \<in> {1..9}"
      by (simp only:)
    then show ?thesis
      by auto
  qed
  have inj: "i = j" if "(U, G) \<in> unit_kinds" "i < kCells" "j < kCells" "U i = U j" "nat (g ! i) = nat (g ! j)" for U G i j
  proof -
    have "g ! i = g ! j"
      using that(5) range [OF that(2)] range [OF that(3)] by linarith
    then show ?thesis
      by (rule board_solution_inj [OF s unit_kindsD [OF that(1)] that(2-4)])
  qed
  have free: "\<not> mark_given U board (U i) (nat (g ! i))" if U: "(U, G) \<in> unit_kinds" and i: "i < kCells" "board ! i = 0" for U G i
  proof
    assume "mark_given U board (U i) (nat (g ! i))"
    then obtain j where j: "j < kCells" "U j = U i" "nat (board ! j) = nat (g ! i)"
      by (auto simp: mark_given_iff)
    then have "board ! j \<noteq> 0"
      using range [OF i(1)] by auto
    then have "j = i"
      using inj [OF U j(1) i(1) j(2)] given [OF j(1)] j(3) by simp
    then show False
      using \<open>board ! j \<noteq> 0\<close> i(2) by simp
  qed
  have cand: "?iv i \<in> set (candidates board)" if "i \<in> set ?cells" for i
    using that range free by (auto simp: candidates_iff unit_kinds_def)
  have disj: "set (cand_names (?iv i)) \<inter> set (cand_names (?iv j)) = {}" if "i \<in> set ?cells" "j \<in> set ?cells" "i \<noteq> j" for i j
  proof -
    have i: "i < kCells" "j < kCells"
      using that by simp_all
    have "\<not> (a \<in> set (cand_names (?iv i)) \<and> a \<in> set (cand_names (?iv j)))" for a
    proof
      assume a: "a \<in> set (cand_names (?iv i)) \<and> a \<in> set (cand_names (?iv j))"
      show False
      proof (cases "a = i")
        case True
        then show False
          using cell_candidate [OF i(1)] a that(3) by blast
      next
        case False
        then obtain U G where k: "(U, G) \<in> unit_kinds" "a = G (U i) (nat (g ! i))"
          using a by (auto simp: cand_names_by_kind)
        then show False
          using unit_candidate [OF k(1) unit_of_bound [OF k(1) i(1)], of "nat (g ! i)" j "nat (g ! j)"] a i range
            inj [OF k(1) i(2,1)] that(3) by auto
      qed
    qed
    then show ?thesis
      by blast
  qed
  have "distinct (concat (map (\<lambda>i. cand_names (?iv i)) ?cells))"
    using cand_distinct cand disj by (intro distinct_concat_map) auto
  moreover have "set (concat (map cand_names (map ?iv ?cells))) = set (column_names board)"
  proof
    show "set (concat (map cand_names (map ?iv ?cells))) \<subseteq> set (column_names board)"
      using cand candidate_columns by fastforce
    show "set (column_names board) \<subseteq> set (concat (map cand_names (map ?iv ?cells)))"
    proof
      fix a assume "a \<in> set (column_names board)"
      then consider (cell) "a < kCells" "board ! a = 0"
        | (unit) U G u v where "(U, G) \<in> unit_kinds" "u < 9" "1 \<le> v" "v < 10" "a = G u v" "\<not> mark_given U board u v"
        unfolding names_by_kind by blast
      then have "\<exists>i \<in> set ?cells. a \<in> set (cand_names (?iv i))"
      proof cases
        case cell
        then show ?thesis
          by (auto simp: cand_names_by_kind)
      next
        case unit
        have "set (map ((!) g) (unit_cells U u)) = {1..9}"
          using s unit_kindsD [OF unit(1)] unit(2) by (simp only: board_solution_def)
        moreover have "int v \<in> {1..9}"
          using unit(3,4) by simp
        ultimately have "int v \<in> (!) g ` set (unit_cells U u)"
          by (simp only: set_map)
        then obtain i where i: "i < kCells" "U i = u" "g ! i = int v"
          by (auto simp: set_unit_cells)
        have "board ! i = 0"
        proof (rule ccontr)
          assume "board ! i \<noteq> 0"
          then have "mark_given U board u v"
            using given [OF i(1)] i by (auto simp: mark_given_iff)
          then show False
            using unit(6) by simp
        qed
        then have "i \<in> set ?cells" "a = G (U i) (nat (g ! i))"
          using i unit(5) by simp_all
        then show ?thesis
          using unit(1) unfolding cand_names_by_kind by blast
      qed
      then show "a \<in> set (concat (map cand_names (map ?iv ?cells)))"
        by auto
    qed
  qed
  ultimately show ?thesis
    using cand unfolding exact_candidates_def by (auto simp: comp_def)
qed

end
