(* ===== verification/SudokuProps.thy ===== *)
theory SudokuProps
  imports SudokuSolution
begin

section \<open>The solver solves Sudokus\<close>

text \<open>
  \<open>solveSudoku\<close> of net/sudoku/sudoku.cc returns a solution if there is one.
\<close>

subsection \<open>Characters and digits\<close>

lemma digit_of_char: "0 \<le> d \<Longrightarrow> d \<le> 9 \<Longrightarrow> digit_of (digit_char d) = d"
  by (simp add: digit_of_def digit_char_def Let_def)

lemma digit_char_of: "digit_char (digit_of c) = c"
proof -
  have "(of_char c :: nat) < 256"
    by (simp add: of_char_def)
  then have "nat ((digit_of c + 48) mod 256) = of_char c"
    by (auto simp: digit_of_def Let_def)
  then show ?thesis
    by (simp add: digit_char_def)
qed

lemma digit_of_inj: "digit_of c = digit_of d \<longleftrightarrow> c = d"
  using digit_char_of by metis

lemma digit_of_zero: "digit_of c = 0 \<longleftrightarrow> c = CHR ''0''"
proof -
  have "digit_of (CHR ''0'') = 0"
    by (simp add: digit_of_def)
  then show ?thesis
    using digit_of_inj by metis
qed

lemma digits_one_nine: "digit_of ` set ''123456789'' = {1..9}"
proof -
  have "digit_of ` set ''123456789'' = {1, 2, 3, 4, 5, 6, 7, 8, 9}"
    by (simp add: digit_of_def)
  then show ?thesis
    by (simp flip: set_upto add: upto_rec1)
qed

definition board_of :: "string \<Rightarrow> int list" where
  "board_of puzzle = map digit_of puzzle"

lemma solution_iff:
  assumes "length puzzle = kCells" "length r = kCells"
  shows "sudoku_solution puzzle r \<longleftrightarrow> board_solution (board_of puzzle) (map digit_of r)"
proof -
  have "set (map ((!) r) (unit_cells U u)) = set ''123456789'' \<longleftrightarrow> set (map ((!) (map digit_of r)) (unit_cells U u)) = {1..9}" for U u
  proof -
    have "set (map ((!) (map digit_of r)) (unit_cells U u)) = digit_of ` set (map ((!) r) (unit_cells U u))"
      using assms(2) by (auto simp: set_unit_cells image_iff)
    moreover have "inj digit_of"
      using digit_of_inj by (auto intro: injI)
    ultimately show ?thesis
      using inj_image_eq_iff digits_one_nine by metis
  qed
  moreover have "(\<forall>i < kCells. puzzle ! i \<noteq> CHR ''0'' \<longrightarrow> r ! i = puzzle ! i)
      \<longleftrightarrow> (\<forall>i < kCells. board_of puzzle ! i \<noteq> 0 \<longrightarrow> map digit_of r ! i = board_of puzzle ! i)"
    using assms by (simp add: board_of_def digit_of_zero digit_of_inj)
  ultimately show ?thesis
    using assms by (simp only: sudoku_solution_def board_solution_def length_map simp_thms)
qed

lemma board_solution_range:
  assumes "board_solution board g" "i < kCells"
  shows "1 \<le> g ! i \<and> g ! i \<le> 9"
proof -
  have "set (map ((!) g) (unit_cells row_of (row_of i))) = {1..9}"
    using assms unit_bounds [OF assms(2)] by (simp add: board_solution_def)
  moreover have "g ! i \<in> set (map ((!) g) (unit_cells row_of (row_of i)))"
    using assms(2) by (auto simp: set_unit_cells)
  ultimately have "g ! i \<in> {1..9}"
    by (simp only:)
  then show ?thesis
    by simp
qed

lemma chars_of_solution:
  assumes "length puzzle = kCells" "board_solution (board_of puzzle) g"
  shows "sudoku_solution puzzle (map digit_char g)"
proof -
  have l: "length g = kCells"
    using assms(2) by (simp add: board_solution_def)
  have "map digit_of (map digit_char g) = g"
    using board_solution_range [OF assms(2)] l by (intro nth_equalityI) (auto intro!: digit_of_char simp: order_trans [of 0 1])
  then show ?thesis
    using solution_iff [of puzzle "map digit_char g"] assms l by simp
qed

lemma solutions_are_digits:
  assumes "length puzzle = kCells" "sudoku_solution puzzle r"
  shows "list_all (\<lambda>d. 0 \<le> d \<and> d \<le> 9) (board_of puzzle)"
proof -
  have s: "board_solution (board_of puzzle) (map digit_of r)"
    using solution_iff [of puzzle r] assms by (simp add: sudoku_solution_def)
  have "0 \<le> board_of puzzle ! i \<and> board_of puzzle ! i \<le> 9" if "i < kCells" for i
    using s board_solution_range [OF s that] that by (cases "board_of puzzle ! i = 0") (auto simp: board_solution_def)
  then show ?thesis
    using assms(1) by (simp add: list_all_length board_of_def)
qed

lemma solveSudoku_eq:
  assumes "length puzzle = kCells"
  shows "solveSudoku s puzzle =
    (if list_all (\<lambda>d. 0 \<le> d \<and> d \<le> 9) (board_of puzzle)
     then do {
       (solved, s2) \<leftarrow> SudokuSolver_new (board_of puzzle) s \<bind> solve solve_depth;
       Some (if solved then map digit_char (sv_inout s2) else kNoSolution) }
     else Some kNoSolution)"
proof -
  have "map (\<lambda>i. digit_of (puzzle ! i)) [0..<kCells] = board_of puzzle"
    using assms by (intro nth_equalityI) (simp_all add: board_of_def)
  then show ?thesis
    using assms by (simp add: solveSudoku_def Let_def)
qed

lemma solveSudoku_solves:
  assumes "length puzzle = kCells"
  shows "\<exists>r. solveSudoku s puzzle = Some r \<and> (if \<exists>t. sudoku_solution puzzle t then sudoku_solution puzzle r else r = kNoSolution)"
proof (cases "list_all (\<lambda>d. 0 \<le> d \<and> d \<le> 9) (board_of puzzle)")
  case True
  let ?board = "board_of puzzle"
  have b: "length ?board = kCells" "\<forall>i < kCells. 0 \<le> ?board ! i \<and> ?board ! i \<le> 9"
    using assms True by (simp_all add: board_of_def list_all_length)
  have "tables_in_bounds ?board"
    using assms True by (auto simp: tables_in_bounds_def board_of_def list_all_iff)
  from solver_spec [OF this, of s] show ?thesis
  proof (elim disjE exE conjE)
    fix ivs s' assume e: "exact_candidates ?board ivs" "(SudokuSolver_new ?board s \<bind> solve solve_depth) = Some (True, s')"
      "sv_inout s' = fill ivs ?board"
    then have "sudoku_solution puzzle (map digit_char (sv_inout s'))"
      using chars_of_solution [OF assms exact_solution [OF b e(1)]] by simp
    moreover have "solveSudoku s puzzle = Some (map digit_char (sv_inout s'))"
      using solveSudoku_eq [OF assms, of s] True e(2) by simp
    ultimately show ?thesis
      by auto
  next
    fix s' assume e: "(SudokuSolver_new ?board s \<bind> solve solve_depth) = Some (False, s')" "\<nexists>ivs. exact_candidates ?board ivs"
    then have "\<nexists>g. board_solution ?board g"
      using solution_exact b(2) by blast
    then have "\<nexists>t. sudoku_solution puzzle t"
      using solution_iff [OF assms] by (auto simp: sudoku_solution_def)
    moreover have "solveSudoku s puzzle = Some kNoSolution"
      using solveSudoku_eq [OF assms, of s] True e(1) by simp
    ultimately show ?thesis
      by auto
  qed
next
  case False
  then show ?thesis
    using solveSudoku_eq [OF assms, of s] solutions_are_digits [OF assms] by auto
qed

subsection \<open>Properties\<close>

text \<open>
  C35: For every puzzle of 81 characters \<open>solveSudoku\<close> returns. If the puzzle has a solution, the result is
  one: it keeps the given digits and every row, column and box has the nine digits. Otherwise, also when a
  character is not a digit or the given digits contradict each other, the result is \<open>NoSolution\<close>. The memory
  the solver is constructed in may hold anything.
\<close>

theorem solveSudoku_correct:
  assumes "length puzzle = kCells"
  shows "\<exists>r. solveSudoku s puzzle = Some r \<and> (if \<exists>t. sudoku_solution puzzle t then sudoku_solution puzzle r else r = kNoSolution)"
  using assms by (rule solveSudoku_solves)

text \<open>A puzzle that has a solution.\<close>

definition example_puzzle :: string where
  "example_puzzle = ''530070000600195000098000060800060003400803001700020006060000280000419005000080079''"

definition example_solution :: string where
  "example_solution = ''534678912672195348198342567859761423426853791713924856961537284287419635345286179''"

lemma example_solved: "length example_puzzle = kCells \<and> sudoku_solution example_puzzle example_solution"
proof -
  have "length example_puzzle = kCells \<and> length example_solution = kCells"
    by code_simp
  moreover have "\<forall>i \<in> set [0..<kCells]. example_puzzle ! i \<noteq> CHR ''0'' \<longrightarrow> example_solution ! i = example_puzzle ! i"
    by code_simp
  moreover have "\<forall>u \<in> set [0..<9]. set (map ((!) example_solution) (unit_cells row_of u)) = set ''123456789''
      \<and> set (map ((!) example_solution) (unit_cells col_of u)) = set ''123456789''
      \<and> set (map ((!) example_solution) (unit_cells box_of u)) = set ''123456789''"
    by code_simp
  ultimately show ?thesis
    unfolding sudoku_solution_def by simp
qed

definition blank_solver :: sudoku_solver where
  "blank_solver = \<lparr>sv_left = \<lambda>_. 0, sv_right = \<lambda>_. 0, sv_up = \<lambda>_. 0, sv_down = \<lambda>_. 0, sv_col = \<lambda>_. 0, sv_name = \<lambda>_. 0,
     sv_size = \<lambda>_. 0, sv_root = 0, sv_inout = [], sv_columns = \<lambda>_. None, sv_stack = [], sv_cur_node = 0\<rparr>"

theorem solveSudoku_correct_witness:
  "length example_puzzle = kCells \<and> (\<exists>r. solveSudoku blank_solver example_puzzle = Some r \<and> sudoku_solution example_puzzle r)"
proof -
  have "\<exists>t. sudoku_solution example_puzzle t"
    using example_solved by blast
  then show ?thesis
    using solveSudoku_correct [of example_puzzle blank_solver] example_solved by simp
qed

text \<open>More steps than needed do not change the result.\<close>

lemma solve_mono:
  "solve k s = Some r \<Longrightarrow> solve (Suc k) s = Some r"
  "try_rows k col row s = Some r \<Longrightarrow> try_rows (Suc k) col row s = Some r"
proof (induction k arbitrary: s col row r)
  case (Suc k)
  {
    case 1
    show ?case
    proof (cases "sv_left s (sv_root s) = sv_root s")
      case False
      then obtain c s1 where "get_min_column s = Some c" "cover c s = Some s1" "try_rows k c (sv_down s1 c) s1 = Some r"
        using 1 by (auto elim!: bind_SomeE)
      then show ?thesis
        using False Suc(2) by (simp del: try_rows.simps)
    qed (use 1 in simp)
  next
    case 2
    show ?case
    proof (cases "row = col")
      case False
      let ?s = "s\<lparr>sv_stack := sv_stack s @ [row]\<rparr>"
      obtain s2 fin s3 where c: "cover_others kMaxNodes row (sv_right s row) ?s = Some s2" "solve k s2 = Some (fin, s3)"
        using 2 False by (auto simp: Let_def elim!: bind_SomeE)
      show ?thesis
      proof (cases fin)
        case True
        then show ?thesis
          using 2 False c Suc(1) [OF c(2)] by (auto simp add: Let_def simp del: solve.simps)
      next
        case undone: False
        let ?s4 = "s3\<lparr>sv_stack := butlast (sv_stack s3)\<rparr>"
        obtain s5 where "uncover_others kMaxNodes row (sv_left s3 row) ?s4 = Some s5" "try_rows k col (sv_down s5 row) s5 = Some r"
          using 2 False c undone by (auto simp: Let_def elim!: bind_SomeE)
        then show ?thesis
          using False c undone Suc(1) [OF c(2)] Suc(2) try_rows.simps(2) [of "Suc k" col row s]
          by (simp add: Let_def del: solve.simps try_rows.simps)
      qed
    qed (use 2 in simp)
  }
qed simp_all

lemma solve_mono_le: "k \<le> k' \<Longrightarrow> solve k s = Some r \<Longrightarrow> solve k' s = Some r"
  by (induction k' rule: dec_induct) (blast intro: solve_mono(1))+

text \<open>
  C36: On every board of 81 values from 0 to 9 the constructor passes all its assertions and never runs out of nodes, and \<open>solve\<close>
  ends: its recursion and its loops along the links need no more than \<open>solve_depth\<close> nested steps, and with
  more the result is the same. It returns true after it wrote the candidates of an exact cover to the board,
  false only if there is no exact cover.
\<close>

theorem solve_terminates:
  assumes "length board = kCells" "\<forall>val \<in> set board. 0 \<le> val \<and> val \<le> 9"
  shows "\<exists>s1 fin s2. SudokuSolver_new board s = Some s1 \<and> (\<forall>k \<ge> solve_depth. solve k s1 = Some (fin, s2))
     \<and> (if fin then \<exists>ivs. exact_candidates board ivs \<and> sv_inout s2 = fill ivs board else \<nexists>ivs. exact_candidates board ivs)"
proof -
  have b: "tables_in_bounds board"
    using assms by (auto simp: tables_in_bounds_def list_all_iff)
  obtain s1 where s1: "SudokuSolver_new board s = Some s1"
    using SudokuSolver_new_built [OF b] by blast
  have "\<exists>fin s2. solve solve_depth s1 = Some (fin, s2)
     \<and> (if fin then \<exists>ivs. exact_candidates board ivs \<and> sv_inout s2 = fill ivs board else \<nexists>ivs. exact_candidates board ivs)"
    using solver_spec [OF b, of s] s1 by auto
  then show ?thesis
    using s1 solve_mono_le by metis
qed

theorem solve_terminates_witness:
  "\<exists>s1 fin s2. SudokuSolver_new (replicate kCells 0) blank_solver = Some s1 \<and> solve solve_depth s1 = Some (fin, s2)"
  using solve_terminates [of "replicate kCells 0" blank_solver] by auto

end
