(* ===== verification/SudokuServerProps.thy ===== *)
theory SudokuServerProps
  imports SudokuServer SudokuProps BufferWire LogStreamProps
begin

section \<open>The Sudoku server answers every request\<close>

text \<open>
  The loops of the server and of the client read lines from a buffer; what this means, whatever the pieces in which the
  bytes arrive, is proved once for both in the locale \<open>line_reader\<close>. It follows that the server answers the requests of a
  connection, and that a client whose puzzles have solutions is served. One theorem shows when the server ends.
\<close>

subsection \<open>Lines\<close>

text \<open>The complete lines of a sequence of bytes, without their line ends, and the rest.\<close>

fun split_lines :: "byte list \<Rightarrow> byte list list \<times> byte list" where
  "split_lines [] = ([], [])"
| "split_lines (b # bs) =
     (if prefix kCRLF (b # bs) then ([] # fst (split_lines (tl bs)), snd (split_lines (tl bs)))
      else case split_lines bs of ([], r) \<Rightarrow> ([], b # r) | (l # ls, r) \<Rightarrow> ((b # l) # ls, r))"

lemma split_lines_none: "fst (split_lines bs) = [] \<Longrightarrow> snd (split_lines bs) = bs"
  by (induction bs rule: split_lines.induct) (auto split: if_splits prod.splits list.splits)

lemma split_lines_append:
  "split_lines (xs @ ys) =
     (fst (split_lines xs) @ fst (split_lines (snd (split_lines xs) @ ys)), snd (split_lines (snd (split_lines xs) @ ys)))"
proof (induction xs rule: split_lines.induct)
  case 1
  then show ?case by simp
next
  case (2 b bs)
  show ?case
  proof (cases "prefix kCRLF (b # bs)")
    case True
    then obtain zs where "b # bs = kCRLF @ zs"
      by (auto simp: prefix_def)
    then have "b = 13" "bs = 10 # zs"
      by (simp_all add: kCRLF_def)
    then show ?thesis
      using 2(1) True by (simp add: kCRLF_def)
  next
    case no: False
    show ?thesis
    proof (cases "split_lines bs")
      case (Pair ls r)
      show ?thesis
      proof (cases ls)
        case Nil
        then have "r = bs"
          using split_lines_none [of bs] Pair by simp
        then show ?thesis
          using no Pair Nil by simp
      next
        case (Cons l ls')
        then have "bs \<noteq> []"
          using Pair by auto
        then have "\<not> prefix kCRLF (b # bs @ ys)"
          using no by (cases bs) (auto simp: kCRLF_def)
        then show ?thesis
          using 2 no Pair Cons by simp
      qed
    qed
  qed
qed

lemma split_lines_search:
  "split_lines bs =
     (let k = std_search bs kCRLF
      in if k = length bs then ([], bs)
         else (take k bs # fst (split_lines (drop (k + 2) bs)), snd (split_lines (drop (k + 2) bs))))"
proof (induction bs)
  case (Cons b bs)
  show ?case
  proof (cases "prefix kCRLF (b # bs)")
    case True
    then show ?thesis
      by (simp add: drop_Suc)
  next
    case False
    then show ?thesis
      using Cons by (simp add: Let_def)
  qed
qed simp

text \<open>Reading the requests: an optional id before the first colon, and a puzzle.\<close>

definition request_of :: "byte list \<Rightarrow> string \<times> string" where
  "request_of l = (let cs = chars_of l in
     if CHR '':'' \<in> set cs then (tl (dropWhile (\<lambda>c. c \<noteq> CHR '':'') cs), takeWhile (\<lambda>c. c \<noteq> CHR '':'') cs) else (cs, []))"

definition request_ok :: "byte list \<Rightarrow> bool" where
  "request_ok l \<longleftrightarrow> length (fst (request_of l)) = kCells"

lemma length_chars_of [simp]: "length (chars_of bs) = length bs"
  by (simp add: chars_of_def)

lemma request_ok_length: "request_ok l \<Longrightarrow> kCells \<le> length l"
proof -
  assume "request_ok l"
  moreover have "length (fst (request_of l)) \<le> length l"
    using length_dropWhile_le [of "\<lambda>c. c \<noteq> CHR '':''" "chars_of l"] by (auto simp: request_of_def Let_def)
  ultimately show ?thesis
    by (simp add: request_ok_def)
qed

lemma processRequest_eq:
  "processRequest (chars_of l) s =
     (if request_ok l then (True, s\<lparr>ss_tasks := ss_tasks s @ [request_of l]\<rparr>) else (False, s))"
  by (auto simp: processRequest_def request_ok_def request_of_def Let_def dropWhile_eq_Nil_conv)

subsection \<open>Reading lines from a buffer\<close>

text \<open>One round of the loop, in terms of the content of the buffer.\<close>

lemma take_line:
  assumes "buffer_inv b" "split_lines (content b) = (l # ls, r)"
  shows "\<exists>crlf b'. findCRLF b = Some crlf \<and> peek_bytes b (crlf - readerIndex b) = Some l
    \<and> retrieveUntil b (crlf + 2) = Some b' \<and> buffer_inv b' \<and> split_lines (content b') = (ls, r)
    \<and> length (content b) = length l + 2 + length (content b') \<and> writerIndex b' \<le> max kCheapPrepend (writerIndex b)"
proof -
  let ?k = "std_search (content b) kCRLF"
  have k: "?k \<noteq> length (content b)" "l = take ?k (content b)" "split_lines (drop (?k + 2) (content b)) = (ls, r)"
    using assms(2) split_lines_search [of "content b"] by (auto simp: Let_def prod_eq_iff split: if_splits)
  obtain i where i: "findCRLF b = Some i" "i = readerIndex b + ?k"
    using k(1) assms(1) by (auto simp: findCRLF_search)
  note f = findCRLF_Some [OF assms(1) i(1)]
  have k2: "?k + 2 \<le> length (content b)"
    using f(2) i(2) assms(1) by simp
  obtain b' where b': "retrieve b (?k + 2) = Some b'" "buffer_inv b'" "content b' = drop (?k + 2) (content b)"
      "writerIndex b' \<le> max kCheapPrepend (writerIndex b)"
    using retrieve_ok [OF assms(1) k2] by blast
  then have "retrieveUntil b (i + 2) = Some b'"
    using retrieveUntil_eq [OF assms(1), of "i + 2"] f(2) i(2) by simp
  moreover have "peek_bytes b (i - readerIndex b) = Some l"
    using assms(1) k2 k(2) i(2) by simp
  moreover have "length (content b) = length l + 2 + length (content b')"
    using k2 k(2) b'(3) by simp
  ultimately show ?thesis
    using i(1) b' k(3) by auto
qed

text \<open>The buffer after the bytes \<open>bs\<close> have arrived and all complete lines have been taken.\<close>

definition buffer_at :: "byte list \<Rightarrow> buffer \<Rightarrow> bool" where
  "buffer_at bs b \<longleftrightarrow> buffer_inv b \<and> content b = snd (split_lines bs) \<and> writerIndex b \<le> kCheapPrepend + length bs"

lemma buffer_at_new: "\<exists>b. Buffer_new kInitialSize = Some b \<and> buffer_at [] b"
  using Buffer_new_ok [of kInitialSize] by (auto simp: kInitialSize_def VEC_MAX_def kCheapPrepend_def buffer_at_def)

text \<open>
  What the loops of the server and of the client have in common: a loop takes a complete line and handles it, and stops
  at a rest of less than 83 bytes. \<open>ready n s\<close> says that \<open>n\<close> more lines can be handled.
\<close>

locale line_reader =
  fixes input :: "'s \<Rightarrow> buffer"
    and set_input :: "buffer \<Rightarrow> 's \<Rightarrow> 's"
    and loop :: "'s \<Rightarrow> 's option"
    and handle :: "byte list \<Rightarrow> 's \<Rightarrow> 's"
    and ok :: "byte list \<Rightarrow> bool"
    and ready :: "nat \<Rightarrow> 's \<Rightarrow> bool"
  assumes input_set: "input (set_input b s) = b"
    and set_same: "set_input (input s) s = s"
    and set_set: "set_input b (set_input c s) = set_input b s"
    and handle_set: "handle l (set_input b s) = set_input b (handle l s)"
    and ready_set: "ready n (set_input b s) = ready n s"
    and ready_handle: "ready (Suc n) s \<Longrightarrow> ready n (handle l s)"
    and line_law: "\<lbrakk>buffer_inv (input s); findCRLF (input s) = Some crlf; retrieveUntil (input s) (crlf + 2) = Some b;
      peek_bytes (input s) (crlf - readerIndex (input s)) = Some l; ok l; ready (Suc n) s; kCells + 2 \<le> readableBytes (input s)\<rbrakk>
      \<Longrightarrow> loop s = loop (handle l (set_input b s))"
    and rest_law: "readableBytes (input s) < kCells + 2 \<Longrightarrow> loop s = Some s"
    and ok_length: "ok l \<Longrightarrow> kCells \<le> length l"
begin

lemmas reader_simps = input_set set_same set_set handle_set ready_set

lemma fold_set: "set_input b (fold handle ls (set_input c s)) = set_input b (fold handle ls s)"
  by (induction ls arbitrary: s) (simp_all add: reader_simps)

lemma loop_lines:
  assumes "buffer_inv (input s)" "split_lines (content (input s)) = (ls, r)" "list_all ok ls" "ready (length ls) s" "length r < kCells + 2"
  shows "\<exists>b. loop s = Some (set_input b (fold handle ls s)) \<and> buffer_inv b \<and> content b = r
    \<and> writerIndex b \<le> max kCheapPrepend (writerIndex (input s))"
  using assms
proof (induction ls arbitrary: s)
  case Nil
  then have "content (input s) = r"
    using split_lines_none [of "content (input s)"] by simp
  then show ?case
    using Nil length_content_readable [OF Nil.prems(1)] rest_law [of s] by (intro exI [of _ "input s"]) (auto simp: reader_simps)
next
  case (Cons l ls)
  obtain crlf b where b: "findCRLF (input s) = Some crlf" "peek_bytes (input s) (crlf - readerIndex (input s)) = Some l"
      "retrieveUntil (input s) (crlf + 2) = Some b" "buffer_inv b" "split_lines (content b) = (ls, r)"
      "length (content (input s)) = length l + 2 + length (content b)"
      "writerIndex b \<le> max kCheapPrepend (writerIndex (input s))"
    using take_line [OF Cons.prems(1,2)] by blast
  have "kCells + 2 \<le> readableBytes (input s)"
    using ok_length [of l] Cons.prems(3) b(6) length_content_readable [OF Cons.prems(1)] by simp
  then have "loop s = loop (set_input b (handle l s))"
    using line_law [OF Cons.prems(1) b(1,3,2), of "length ls"] Cons.prems(3,4) by (simp add: reader_simps)
  moreover have "\<exists>b'. loop (set_input b (handle l s)) = Some (set_input b' (fold handle ls (set_input b (handle l s))))
      \<and> buffer_inv b' \<and> content b' = r \<and> writerIndex b' \<le> max kCheapPrepend (writerIndex b)"
    using Cons.IH [of "set_input b (handle l s)"] Cons.prems ready_handle b(4,5) by (simp add: reader_simps)
  ultimately show ?case
    using b(7) by (fastforce simp: fold_set)
qed

text \<open>More bytes arrive.\<close>

lemma receive_lines:
  assumes "buffer_at bs (input s)" "length (bs @ cs) + kCheapPrepend \<le> VEC_MAX" "list_all ok (fst (split_lines (bs @ cs)))"
    and "length (snd (split_lines (bs @ cs))) < kCells + 2" "ready (length (fst (split_lines (bs @ cs))) - length (fst (split_lines bs))) s"
  shows "\<exists>b b'. append_raw (input s) cs (length cs) = Some b \<and> buffer_at (bs @ cs) b'
    \<and> loop (set_input b s) = Some (set_input b' (fold handle (drop (length (fst (split_lines bs))) (fst (split_lines (bs @ cs)))) s))"
proof -
  have s: "buffer_inv (input s)" "content (input s) = snd (split_lines bs)" "writerIndex (input s) \<le> kCheapPrepend + length bs"
    using assms(1) by (simp_all add: buffer_at_def)
  have "length cs \<le> room (input s)"
    using s(3) assms(2) by (simp add: room_def)
  then obtain b where b: "append_raw (input s) cs (length cs) = Some b" "buffer_inv b" "content b = snd (split_lines bs) @ cs"
      "writerIndex b \<le> writerIndex (input s) + length cs"
    using append_raw_ok [OF s(1), of "length cs" cs] s(2) by auto
  let ?p = "split_lines (snd (split_lines bs) @ cs)"
  have p: "split_lines (bs @ cs) = (fst (split_lines bs) @ fst ?p, snd ?p)"
    by (rule split_lines_append)
  have "\<exists>b'. loop (set_input b s) = Some (set_input b' (fold handle (fst ?p) (set_input b s))) \<and> buffer_inv b' \<and> content b' = snd ?p
    \<and> writerIndex b' \<le> max kCheapPrepend (writerIndex b)"
    using loop_lines [of "set_input b s" "fst ?p" "snd ?p"] b(2,3) assms(3-5) p by (simp add: reader_simps)
  then show ?thesis
    using s b p by (fastforce simp: buffer_at_def fold_set)
qed

end

subsection \<open>A request that arrives in pieces\<close>

text \<open>
  A flaw: when at least 83 and at most 100 bytes of a request have arrived and its line end has not, the server logs
  with the severity \<open>FATAL\<close> and ends. A request with an id is longer than 83 bytes, so that this depends on where the
  network splits it.
\<close>

theorem server_ends_on_partial_request:
  assumes "buffer_inv (ss_input s)" "split_lines (content (ss_input s)) = ([], r)" "kCells + 2 \<le> length r" "length r \<le> 100"
  shows "server_onMessage s = None"
proof -
  have r: "content (ss_input s) = r"
    using assms(2) split_lines_none [of "content (ss_input s)"] by simp
  then have "std_search r kCRLF = length r"
    using assms(2) split_lines_search [of r] by (auto simp: Let_def split: if_splits)
  then have "findCRLF (ss_input s) = None"
    using assms(1) r by (simp add: findCRLF_search)
  then show ?thesis
    using assms(3,4) r length_content_readable [OF assms(1)] by (simp add: server_onMessage_def server_loop.simps)
qed

subsection \<open>The server\<close>

interpretation server_lines: line_reader ss_input "\<lambda>b s. s\<lparr>ss_input := b\<rparr>" "\<lambda>s. server_loop (readableBytes (ss_input s)) s"
  "\<lambda>l s. s\<lparr>ss_tasks := ss_tasks s @ [request_of l]\<rparr>" request_ok "\<lambda>_ _. True"
proof unfold_locales
  fix s :: sudoku_session and crlf b l assume "buffer_inv (ss_input s)" "findCRLF (ss_input s) = Some crlf" "retrieveUntil (ss_input s) (crlf + 2) = Some b"
    "peek_bytes (ss_input s) (crlf - readerIndex (ss_input s)) = Some l" "request_ok l" "kCells + 2 \<le> readableBytes (ss_input s)"
  then show "server_loop (readableBytes (ss_input s)) s = server_loop
      (readableBytes (ss_input (s\<lparr>ss_input := b, ss_tasks := ss_tasks (s\<lparr>ss_input := b\<rparr>) @ [request_of l]\<rparr>)))
      (s\<lparr>ss_input := b, ss_tasks := ss_tasks (s\<lparr>ss_input := b\<rparr>) @ [request_of l]\<rparr>)"
    by (subst server_loop.simps) (simp add: processRequest_eq)
next
  fix s :: sudoku_session assume "readableBytes (ss_input s) < kCells + 2"
  then show "server_loop (readableBytes (ss_input s)) s = Some s"
    by (subst server_loop.simps) simp
qed (simp_all add: request_ok_length)

definition session_at :: "byte list \<Rightarrow> sudoku_session \<Rightarrow> bool" where
  "session_at bs s \<longleftrightarrow> buffer_at bs (ss_input s) \<and> ss_tasks s = map request_of (fst (split_lines bs)) \<and> ss_calls s = []"

lemma fold_tasks:
  "fold (\<lambda>l s. s\<lparr>ss_tasks := ss_tasks s @ [request_of l]\<rparr>) ls s = s\<lparr>ss_tasks := ss_tasks s @ map request_of ls\<rparr>"
  by (induction ls arbitrary: s) simp_all

lemma server_receive_at:
  assumes "session_at bs s" "length (bs @ cs) + kCheapPrepend \<le> VEC_MAX" "list_all request_ok (fst (split_lines (bs @ cs)))"
    and "length (snd (split_lines (bs @ cs))) < kCells + 2"
  shows "\<exists>s'. server_receive cs s = Some s' \<and> session_at (bs @ cs) s'"
proof -
  let ?ls = "drop (length (fst (split_lines bs))) (fst (split_lines (bs @ cs)))"
  obtain b b' where "append_raw (ss_input s) cs (length cs) = Some b" "buffer_at (bs @ cs) b'"
      "server_loop (readableBytes b) (s\<lparr>ss_input := b\<rparr>) = Some (s\<lparr>ss_tasks := ss_tasks s @ map request_of ?ls, ss_input := b'\<rparr>)"
    using server_lines.receive_lines [of bs s cs] assms by (auto simp: session_at_def fold_tasks)
  moreover have "fst (split_lines (bs @ cs)) = fst (split_lines bs) @ ?ls"
    using split_lines_append [of bs cs] by simp
  then have "map request_of (fst (split_lines (bs @ cs))) = map request_of (fst (split_lines bs)) @ map request_of ?ls"
    by (metis map_append)
  ultimately show ?thesis
    using assms(1) by (auto simp: session_at_def server_receive_def server_onMessage_def)
qed

text \<open>Whatever is split off the end of the bytes, the lines before it are lines of the whole.\<close>

lemma lines_of_prefix: "\<exists>ls. fst (split_lines (bs @ cs)) = fst (split_lines bs) @ ls"
  using split_lines_append [of bs cs] by simp

lemma server_run_at:
  assumes "length (concat chunks) + kCheapPrepend \<le> VEC_MAX" "list_all request_ok (fst (split_lines (concat chunks)))"
    and "\<forall>k \<le> length chunks. length (snd (split_lines (concat (take k chunks)))) < kCells + 2"
  shows "\<exists>s. (session_new \<bind> run_all server_receive chunks) = Some s \<and> session_at (concat chunks) s"
  using assms
proof (induction chunks rule: rev_induct)
  case Nil
  then show ?case
    using buffer_at_new by (auto simp: session_new_def session_at_def)
next
  case (snoc c cs)
  have 1: "list_all request_ok (fst (split_lines (concat cs)))"
    using snoc.prems(2) lines_of_prefix [of "concat cs" c] by auto
  have 2: "length (snd (split_lines (concat (take k cs)))) < kCells + 2" if "k \<le> length cs" for k
    using snoc.prems(3) [rule_format, of k] that by simp
  have 3: "length (snd (split_lines (concat cs @ c))) < kCells + 2"
    using snoc.prems(3) [rule_format, of "Suc (length cs)"] by simp
  obtain s where s: "(session_new \<bind> run_all server_receive cs) = Some s" "session_at (concat cs) s"
    using snoc.IH snoc.prems(1) 1 2 by auto
  obtain s' where "server_receive c s = Some s'" "session_at (concat cs @ c) s'"
    using server_receive_at [OF s(2) _ _ 3] snoc.prems(1,2) by auto
  moreover obtain a where a: "session_new = Some a" "run_all server_receive cs a = Some s"
    using s(1) by (elim bind_SomeE)
  ultimately have "run_all server_receive (cs @ [c]) a = Some s'" "session_at (concat (cs @ [c])) s'"
    by (simp_all add: run_all_append)
  then show ?case
    unfolding a(1) by simp
qed

lemma server_solve_answer:
  assumes "length puzzle = kCells"
  shows "\<exists>r. server_solve mem (puzzle, ident) = Some (Call_send (bytes_of (if ident = [] then r else ident @ '':'' @ r) @ kCRLF))
    \<and> (if \<exists>t. sudoku_solution puzzle t then sudoku_solution puzzle r else r = kNoSolution)"
proof -
  obtain r where "solveSudoku mem puzzle = Some r" "if \<exists>t. sudoku_solution puzzle t then sudoku_solution puzzle r else r = kNoSolution"
    using solveSudoku_solves [OF assms] by blast
  then show ?thesis
    by (intro exI [of _ r]) (simp add: server_solve_def)
qed

subsection \<open>The client\<close>

interpretation client_lines: line_reader sc_input "\<lambda>b s. s\<lparr>sc_input := b\<rparr>" "\<lambda>s. client_loop (readableBytes (sc_input s)) s"
  "\<lambda>l s. s\<lparr>sc_count := sc_count s + 1\<rparr>" "\<lambda>l. kCells \<le> length l" "\<lambda>n s. 0 \<le> sc_count s \<and> sc_count s + int n \<le> INT32_MAX"
proof unfold_locales
  fix s :: sudoku_client and crlf b l n assume "buffer_inv (sc_input s)" "findCRLF (sc_input s) = Some crlf" "retrieveUntil (sc_input s) (crlf + 2) = Some b"
    "peek_bytes (sc_input s) (crlf - readerIndex (sc_input s)) = Some l" "kCells + 2 \<le> readableBytes (sc_input s)"
    and c: "0 \<le> sc_count s \<and> sc_count s + int (Suc n) \<le> INT32_MAX"
  moreover have "ck32 (sc_count s + 1) = Some (sc_count s + 1)"
    using c by (intro ck32_I) (simp_all add: INT32_MIN_def INT32_MAX_def)
  ultimately show "client_loop (readableBytes (sc_input s)) s = client_loop
      (readableBytes (sc_input (s\<lparr>sc_input := b, sc_count := sc_count (s\<lparr>sc_input := b\<rparr>) + 1\<rparr>)))
      (s\<lparr>sc_input := b, sc_count := sc_count (s\<lparr>sc_input := b\<rparr>) + 1\<rparr>)"
    by (subst client_loop.simps) (simp add: verify_def)
next
  fix s :: sudoku_client assume "readableBytes (sc_input s) < kCells + 2"
  then show "client_loop (readableBytes (sc_input s)) s = Some s"
    by (subst client_loop.simps) simp
qed simp_all

lemma fold_count: "fold (\<lambda>l s. s\<lparr>sc_count := sc_count s + 1\<rparr>) ls s = s\<lparr>sc_count := sc_count s + int (length ls)\<rparr>"
  by (induction ls arbitrary: s) simp_all

definition client_at :: "sudoku_client \<Rightarrow> byte list \<Rightarrow> sudoku_client \<Rightarrow> bool" where
  "client_at c bs s \<longleftrightarrow> buffer_at bs (sc_input s) \<and> sc_count s = int (length (fst (split_lines bs)))
     \<and> sc_puzzles s = sc_puzzles c \<and> sc_done s = [] \<and> sc_calls s = sc_calls c"

lemma client_receive_at:
  assumes "client_at c bs s" "length (bs @ cs) + kCheapPrepend \<le> VEC_MAX" "list_all (\<lambda>l. kCells \<le> length l) (fst (split_lines (bs @ cs)))"
    and "length (snd (split_lines (bs @ cs))) < kCells + 2" "int (length (sc_puzzles c)) \<le> INT32_MAX"
    and "length (fst (split_lines (bs @ cs))) \<le> length (sc_puzzles c)"
  shows "\<exists>b'. buffer_at (bs @ cs) b' \<and> client_receive cs s =
    (let s1 = s\<lparr>sc_input := b', sc_count := int (length (fst (split_lines (bs @ cs))))\<rparr>
     in Some (if length (fst (split_lines (bs @ cs))) = length (sc_puzzles c)
       then s1\<lparr>sc_done := [int (length (sc_puzzles c))], sc_calls := sc_calls c @ [Call_shutdown]\<rparr> else s1))"
proof -
  let ?n = "length (fst (split_lines bs))"
  have le: "?n \<le> length (fst (split_lines (bs @ cs)))"
    using lines_of_prefix [of bs cs] by auto
  then obtain b b' where "append_raw (sc_input s) cs (length cs) = Some b" "buffer_at (bs @ cs) b'"
      "client_loop (readableBytes b) (s\<lparr>sc_input := b\<rparr>)
        = Some (s\<lparr>sc_count := sc_count s + int (length (fst (split_lines (bs @ cs))) - ?n), sc_input := b'\<rparr>)"
    using client_lines.receive_lines [of bs s cs] assms by (auto simp: client_at_def fold_count)
  moreover have "cast_int32 (int (length (sc_puzzles c))) = int (length (sc_puzzles c))"
    using assms(5) by (intro cast_int32_id) (simp_all add: INT32_MIN_def)
  ultimately show ?thesis
    using assms(1) le by (auto simp: client_at_def client_receive_def client_onMessage_def Let_def)
qed

subsection \<open>Texts of puzzles and solutions\<close>

lemma solution_chars:
  assumes "length p = kCells" "sudoku_solution p r"
  shows "set r \<subseteq> set ''123456789''" "set p \<subseteq> set ''0123456789''"
proof -
  have r: "r ! i \<in> set ''123456789''" if i: "i < kCells" for i
  proof -
    have "set (map ((!) r) (unit_cells row_of (row_of i))) = set ''123456789''"
      using assms(2) unit_bounds [OF i] unfolding sudoku_solution_def by blast
    moreover have "r ! i \<in> set (map ((!) r) (unit_cells row_of (row_of i)))"
      using i by (auto simp: set_unit_cells)
    ultimately show ?thesis
      by (simp only:)
  qed
  have l: "length r = kCells" "\<forall>i < kCells. p ! i \<noteq> CHR ''0'' \<longrightarrow> r ! i = p ! i"
    using assms(2) by (simp_all add: sudoku_solution_def)
  show "set r \<subseteq> set ''123456789''"
    using r l(1) by (metis in_set_conv_nth subsetI)
  have "p ! i \<in> set ''0123456789''" if "i < kCells" for i
    using r [OF that] l(2) that by (cases "p ! i = CHR ''0''") auto
  then show "set p \<subseteq> set ''0123456789''"
    using assms(1) by (metis in_set_conv_nth subsetI)
qed

lemma bytes_of_digits: "set cs \<subseteq> set ''0123456789'' \<Longrightarrow> 13 \<notin> set (bytes_of cs)"
  by (auto simp: bytes_of_def)

lemma chars_of_bytes_of: "chars_of (bytes_of cs) = cs"
proof -
  have "char_of (unat (of_nat (of_char c) :: byte)) = c" for c
  proof -
    have "(of_char c :: nat) < 256"
      by (simp add: of_char_def)
    then have "unat (of_nat (of_char c) :: byte) = of_char c"
      by (simp add: unat_of_nat)
    then show ?thesis
      by simp
  qed
  then show ?thesis
    by (simp add: chars_of_def bytes_of_def map_idI)
qed

lemma request_of_digits:
  assumes "set p \<subseteq> set ''0123456789''"
  shows "request_of (bytes_of p) = (p, [])"
  using assms by (auto simp: request_of_def chars_of_bytes_of Let_def)

lemma length_bytes_of [simp]: "length (bytes_of cs) = length cs"
  by (simp add: bytes_of_def)

subsection \<open>Messages that consist of lines\<close>

lemma split_lines_line:
  "13 \<notin> set l \<Longrightarrow> split_lines (l @ kCRLF @ bs) = (l # fst (split_lines bs), snd (split_lines bs))"
  by (induction l) (auto simp: kCRLF_def)

definition message_of :: "byte list list \<Rightarrow> byte list" where
  "message_of ls = concat (map (\<lambda>l. l @ kCRLF) ls)"

lemma split_lines_message: "\<forall>l \<in> set ls. 13 \<notin> set l \<Longrightarrow> split_lines (message_of ls) = (ls, [])"
  by (induction ls) (simp_all add: message_of_def split_lines_line)

lemma length_message: "\<forall>l \<in> set ls. length l = n \<Longrightarrow> length (message_of ls) = length ls * (n + 2)"
  by (induction ls) (simp_all add: message_of_def kCRLF_def)

lemma rest_has_no_line: "fst (split_lines (snd (split_lines bs))) = []"
proof -
  have "fst (split_lines bs) = fst (split_lines bs) @ fst (split_lines (snd (split_lines bs)))"
    using arg_cong [OF split_lines_append [of bs "[]"], of fst] by simp
  then show ?thesis
    by simp
qed

lemma prefix_of_two: "prefix [x, y] (xs @ ys) \<Longrightarrow> 2 \<le> length xs \<Longrightarrow> prefix [x, y] xs"
  by (cases xs; cases "tl xs") auto

lemma rest_short:
  assumes "split_lines (bs @ cs) = (ls, [])" "\<forall>l \<in> set ls. length l = n"
  shows "length (snd (split_lines bs)) < n + 2"
proof -
  let ?t = "snd (split_lines bs)"
  have ls: "fst (split_lines (?t @ cs)) = drop (length (fst (split_lines bs))) ls" and r: "snd (split_lines (?t @ cs)) = []"
    using assms(1) split_lines_append [of bs cs] by auto
  show ?thesis
  proof (cases "fst (split_lines (?t @ cs))")
    case Nil
    then have "?t @ cs = []"
      using split_lines_none [of "?t @ cs"] r by simp
    then show ?thesis
      by simp
  next
    case (Cons l ls')
    then have n: "length l = n"
      using ls assms(2) by (metis in_set_dropD list.set_intros(1))
    let ?k = "std_search (?t @ cs) kCRLF"
    have k: "?k < length (?t @ cs)" "l = take ?k (?t @ cs)"
      using Cons split_lines_search [of "?t @ cs"] std_search_le [of "?t @ cs" kCRLF] by (auto simp: Let_def split: if_splits)
    show ?thesis
    proof (rule ccontr)
      assume "\<not> ?thesis"
      then have "?k + 2 \<le> length ?t"
        using k n by simp
      moreover have "prefix kCRLF (drop ?k (?t @ cs))"
        using k(1) by (rule std_search_found)
      ultimately have "prefix kCRLF (drop ?k ?t)"
        by (auto simp: kCRLF_def intro: prefix_of_two)
      moreover have "std_search ?t kCRLF = length ?t"
        using split_lines_search [of ?t] rest_has_no_line [of bs] by (auto simp: Let_def split: if_splits)
      ultimately show False
        using std_search_first [of ?k ?t kCRLF] \<open>?k + 2 \<le> length ?t\<close> by simp
    qed
  qed
qed

lemma fewer_lines:
  assumes "split_lines (bs @ cs) = (ls, [])" "cs \<noteq> []"
  shows "length (fst (split_lines bs)) < length ls"
proof -
  let ?t = "snd (split_lines bs)"
  have "fst (split_lines (?t @ cs)) \<noteq> []"
  proof
    assume "fst (split_lines (?t @ cs)) = []"
    then have "?t @ cs = []"
      using split_lines_none [of "?t @ cs"] assms(1) split_lines_append [of bs cs] by simp
    then show False
      using assms(2) by simp
  qed
  then show ?thesis
    using assms(1) split_lines_append [of bs cs] by auto
qed

subsection \<open>A client that gets all its answers\<close>

lemma client_run_at:
  assumes "split_lines (concat chunks @ cs) = (ls, [])" "cs \<noteq> []" "\<forall>l \<in> set ls. length l = kCells" "client_at c [] c"
    and "length ls = length (sc_puzzles c)" "int (length ls) \<le> INT32_MAX" "length (concat chunks @ cs) + kCheapPrepend \<le> VEC_MAX"
  shows "\<exists>s. run_all client_receive chunks c = Some s \<and> client_at c (concat chunks) s"
  using assms(1,2,7)
proof (induction chunks arbitrary: cs rule: rev_induct)
  case Nil
  then show ?case
    using assms(4) by simp
next
  case (snoc d ds)
  let ?bs = "concat ds @ d"
  obtain s where s: "run_all client_receive ds c = Some s" "client_at c (concat ds) s"
    using snoc.IH [of "d @ cs"] snoc.prems by auto
  have n: "length (fst (split_lines ?bs)) < length ls" "length (snd (split_lines ?bs)) < kCells + 2"
    using fewer_lines [of ?bs cs ls] rest_short [of ?bs cs ls kCells] snoc.prems assms(3) by simp_all
  have "set (fst (split_lines ?bs)) \<subseteq> set ls"
    using lines_of_prefix [of ?bs cs] snoc.prems(1) by (metis append.assoc concat.simps concat_append fst_conv set_append sup_ge1 append_Nil2)
  then have "list_all (\<lambda>l. kCells \<le> length l) (fst (split_lines ?bs))"
    using assms(3) by (auto simp: list_all_iff)
  then obtain b where "buffer_at ?bs b" "client_receive d s = Some (s\<lparr>sc_input := b, sc_count := int (length (fst (split_lines ?bs)))\<rparr>)"
    using client_receive_at [OF s(2), of d] n snoc.prems(3) assms(5,6) by (auto simp: Let_def)
  then show ?case
    using s by (auto simp: run_all_append client_at_def)
qed

lemma client_finishes:
  assumes "concat chunks = message_of ls" "[] \<notin> set chunks" "\<forall>l \<in> set ls. length l = kCells \<and> 13 \<notin> set l" "client_at c [] c"
    and "length ls = length (sc_puzzles c)" "int (length ls) \<le> INT32_MAX" "length (concat chunks) + kCheapPrepend \<le> VEC_MAX" "ls \<noteq> []"
  shows "\<exists>s. run_all client_receive chunks c = Some s \<and> sc_done s = [int (length ls)] \<and> content (sc_input s) = []
    \<and> sc_calls s = sc_calls c @ [Call_shutdown]"
proof -
  have "message_of ls \<noteq> []"
    using assms(8) by (cases ls) (simp_all add: message_of_def kCRLF_def)
  then obtain ds d where d: "chunks = ds @ [d]"
    using assms(1) by (cases chunks rule: rev_exhaust) auto
  have m: "split_lines (concat ds @ d) = (ls, [])"
    using split_lines_message [of ls] assms(1,3) d by simp
  obtain s where s: "run_all client_receive ds c = Some s" "client_at c (concat ds) s"
    using client_run_at [OF m _ _ assms(4-6)] assms(2,3,7) d by auto
  have "list_all (\<lambda>l. kCells \<le> length l) ls"
    using assms(3) by (auto simp: list_all_iff)
  then obtain b where "buffer_at (concat ds @ d) b" "client_receive d s = Some (s\<lparr>sc_input := b, sc_count := int (length ls),
      sc_done := [int (length ls)], sc_calls := sc_calls c @ [Call_shutdown]\<rparr>)"
    using client_receive_at [OF s(2), of d] m assms(5-7) d by (auto simp: Let_def kCells_def)
  then show ?thesis
    using s m d by (auto simp: run_all_append buffer_at_def)
qed

subsection \<open>The requests of a client\<close>

lemma send_request_eq:
  assumes "length junk = kSmallBuffer" "length p = kCells"
  shows "send_request junk p s = Some (s\<lparr>sc_calls := sc_calls s @ [Call_send (bytes_of p @ kCRLF)]\<rparr>)"
proof -
  let ?its = "[LString p, LCstr (Some [CHR 0x0D, CHR 0x0A])]"
  have "\<exists>b. put_items ?its (FixedBuffer_new junk) = Some b \<and> stream_inv b \<and> length (fb_data b) = length (fb_data (FixedBuffer_new junk))
      \<and> fb_toString b = fb_toString (FixedBuffer_new junk) @ concat (map item_text ?its)"
    using assms by (intro ls.put_all_fits)
      (simp_all add: stream_inv_def FixedBuffer_new_def fb_toString_def fb_length_def kSmallBuffer_def kCells_def)
  then obtain b where b: "put_items ?its (FixedBuffer_new junk) = Some b"
      "fb_toString b = fb_toString (FixedBuffer_new junk) @ concat (map item_text ?its)"
    by blast
  have "bytes_of (fb_toString b) = bytes_of p @ kCRLF"
    unfolding b(2) by (simp add: FixedBuffer_new_def fb_toString_def fb_length_def bytes_of_def kCRLF_def)
  then show ?thesis
    unfolding send_request_def b(1) by simp
qed

lemma client_onConnection_eq:
  assumes "length junk = kSmallBuffer" "\<forall>p \<in> set (sc_puzzles s). length p = kCells"
  shows "client_onConnection junk s = Some (s\<lparr>sc_calls := sc_calls s @ map (\<lambda>p. Call_send (bytes_of p @ kCRLF)) (sc_puzzles s)\<rparr>)"
proof -
  have "run_all (send_request junk) ps s = Some (s\<lparr>sc_calls := sc_calls s @ map (\<lambda>p. Call_send (bytes_of p @ kCRLF)) ps\<rparr>)"
    if "\<forall>p \<in> set ps. length p = kCells" for ps
    using that
  proof (induction ps arbitrary: s)
    case (Cons p ps)
    then show ?case
      using send_request_eq [OF assms(1), of p s] by simp
  qed simp
  then show ?thesis
    using assms(2) by (simp add: client_onConnection_def)
qed

text \<open>The bytes a connection is given to send.\<close>

fun sent :: "conn_call list \<Rightarrow> byte list" where
  "sent [] = []"
| "sent (Call_send bs # cs) = bs @ sent cs"
| "sent (Call_shutdown # cs) = sent cs"

lemma sent_lines: "sent (map (\<lambda>x. Call_send (f x @ kCRLF)) xs) = message_of (map f xs)"
  by (induction xs) (simp_all add: message_of_def)

subsection \<open>Properties\<close>





subsection \<open>A client and a server\<close>

text \<open>
  A client with puzzles that have solutions is served: the server accepts all its requests however they are cut into pieces,
  and when the tasks have answered, in any order, and the answers have arrived, the client is done, once, with all its
  puzzles counted.
\<close>

lemma requests_served:
  assumes "\<forall>p \<in> set puzzles. length p = kCells \<and> set p \<subseteq> set ''0123456789''" "concat chunks = message_of (map bytes_of puzzles)"
    and "length puzzles * 83 + kCheapPrepend \<le> VEC_MAX"
  shows "\<exists>s. (session_new \<bind> run_all server_receive chunks) = Some s \<and> ss_tasks s = map (\<lambda>p. (p, [])) puzzles
    \<and> ss_calls s = [] \<and> content (ss_input s) = []"
proof -
  let ?ls = "map bytes_of puzzles"
  have m: "split_lines (concat chunks) = (?ls, [])"
    unfolding assms(2) using assms(1) bytes_of_digits by (intro split_lines_message) (simp only: list.set_map ball_simps; blast)
  have l: "\<forall>l \<in> set ?ls. length l = kCells"
    using assms(1) by simp
  have "length (snd (split_lines (concat (take k chunks)))) < kCells + 2" for k
    using rest_short [of "concat (take k chunks)" "concat (drop k chunks)" ?ls kCells] m l
    by (simp flip: concat_append)
  moreover have "list_all request_ok ?ls"
    using assms(1) by (auto simp: list_all_iff request_ok_def request_of_digits)
  moreover have "length (concat chunks) + kCheapPrepend \<le> VEC_MAX"
    unfolding assms(2) length_message [OF l] using assms(3) by (simp add: kCells_def)
  ultimately obtain s where "(session_new \<bind> run_all server_receive chunks) = Some s" "session_at (concat chunks) s"
    using server_run_at [of chunks] m by auto
  moreover have "map request_of ?ls = map (\<lambda>p. (p, [])) puzzles"
    using assms(1) by (simp add: request_of_digits)
  ultimately show ?thesis
    using m by (auto simp: session_at_def buffer_at_def)
qed

lemma answers_are_lines:
  assumes "list_all2 (\<lambda>t a. \<exists>mem. server_solve mem t = Some a) (map (\<lambda>p. (p, [])) ps) answers"
    and "\<forall>p \<in> set ps. length p = kCells \<and> (\<exists>t. sudoku_solution p t)"
  shows "\<exists>rs. sent answers = message_of (map bytes_of rs) \<and> list_all2 sudoku_solution ps rs"
  using assms
proof (induction ps arbitrary: answers)
  case Nil
  then show ?case
    by (intro exI [of _ "[]"]) (simp add: message_of_def)
next
  case (Cons p ps)
  then obtain a as mem where a: "answers = a # as" "server_solve mem (p, []) = Some a"
      "list_all2 (\<lambda>t a. \<exists>mem. server_solve mem t = Some a) (map (\<lambda>p. (p, [])) ps) as"
    by (auto simp: list_all2_Cons1)
  obtain rs where rs: "sent as = message_of (map bytes_of rs)" "list_all2 sudoku_solution ps rs"
    using Cons.IH [OF a(3)] Cons.prems(2) by auto
  obtain r where "a = Call_send (bytes_of r @ kCRLF)" "sudoku_solution p r"
    using server_solve_answer [of p mem "[]"] Cons.prems(2) a(2) by auto
  then show ?case
    using a(1) rs by (intro exI [of _ "r # rs"]) (simp add: message_of_def)
qed

lemma solution_lines:
  assumes "list_all2 sudoku_solution ps rs" "\<forall>p \<in> set ps. length p = kCells"
  shows "\<forall>l \<in> set (map bytes_of rs). length l = kCells \<and> 13 \<notin> set l"
proof -
  have "length r = kCells \<and> 13 \<notin> set (bytes_of r)" if "r \<in> set rs" for r
  proof -
    obtain i where "i < length rs" "r = rs ! i"
      using \<open>r \<in> set rs\<close> by (auto simp: in_set_conv_nth)
    then have p: "length (ps ! i) = kCells" "sudoku_solution (ps ! i) r"
      using assms by (simp_all add: list_all2_conv_all_nth)
    have "set r \<subseteq> set ''123456789''" "set ''123456789'' \<subseteq> set ''0123456789''"
      using solution_chars(1) [OF p] by simp_all
    then have "13 \<notin> set (bytes_of r)"
      by (intro bytes_of_digits) (rule subset_trans)
    then show ?thesis
      using p(2) by (simp only: sudoku_solution_def simp_thms)
  qed
  then show ?thesis
    by simp
qed

theorem sudoku_client_served:
  assumes "SudokuClient_new puzzles = Some c0" "length junk = kSmallBuffer" "puzzles \<noteq> []" "int (length puzzles) \<le> INT32_MAX"
    and p: "\<forall>p \<in> set puzzles. length p = kCells \<and> (\<exists>t. sudoku_solution p t)"
  shows "\<exists>c. client_onConnection junk c0 = Some c
    \<and> (\<forall>chunks. concat chunks = sent (sc_calls c) \<longrightarrow>
        (\<exists>s. (session_new \<bind> run_all server_receive chunks) = Some s \<and> ss_tasks s = map (\<lambda>p. (p, [])) puzzles \<and> ss_calls s = []))
    \<and> (\<forall>ps answers replies. mset ps = mset puzzles
        \<longrightarrow> list_all2 (\<lambda>t a. \<exists>mem. server_solve mem t = Some a) (map (\<lambda>p. (p, [])) ps) answers
        \<longrightarrow> concat replies = sent answers \<longrightarrow> [] \<notin> set replies
        \<longrightarrow> (\<exists>c'. run_all client_receive replies c = Some c' \<and> sc_done c' = [int (length puzzles)]
              \<and> sc_calls c' = sc_calls c @ [Call_shutdown]))"
proof -
  have vm: "length puzzles * 83 + kCheapPrepend \<le> VEC_MAX"
    using assms(4) by (simp add: INT32_MAX_def VEC_MAX_def kCheapPrepend_def)
  obtain b where b: "buffer_at [] b" "c0 = \<lparr>sc_puzzles = puzzles, sc_count = 0, sc_input = b, sc_calls = [], sc_done = []\<rparr>"
    using assms(1) buffer_at_new by (auto simp: SudokuClient_new_def)
  let ?c = "c0\<lparr>sc_calls := map (\<lambda>p. Call_send (bytes_of p @ kCRLF)) puzzles\<rparr>"
  have c: "client_onConnection junk c0 = Some ?c"
    using client_onConnection_eq [of junk c0] assms(2) p b(2) by simp
  have digits: "\<forall>p \<in> set puzzles. length p = kCells \<and> set p \<subseteq> set ''0123456789''"
    using p solution_chars(2) by blast
  have served: "\<exists>s. (session_new \<bind> run_all server_receive chunks) = Some s \<and> ss_tasks s = map (\<lambda>p. (p, [])) puzzles \<and> ss_calls s = []"
    if "concat chunks = sent (sc_calls ?c)" for chunks
    using requests_served [OF digits _ vm, of chunks] that by (auto simp: sent_lines)
  have finished: "\<exists>c'. run_all client_receive replies ?c = Some c' \<and> sc_done c' = [int (length puzzles)]
        \<and> sc_calls c' = sc_calls ?c @ [Call_shutdown]"
    if ps: "mset ps = mset puzzles" and a: "list_all2 (\<lambda>t a. \<exists>mem. server_solve mem t = Some a) (map (\<lambda>p. (p, [])) ps) answers"
      and r: "concat replies = sent answers" "[] \<notin> set replies" for ps answers replies
  proof -
    have ps': "set ps = set puzzles" "length ps = length puzzles"
      using ps by (auto dest: mset_eq_setD mset_eq_length)
    obtain rs where rs: "sent answers = message_of (map bytes_of rs)" "list_all2 sudoku_solution ps rs"
      using answers_are_lines [OF a] p ps'(1) by auto
    have l: "\<forall>l \<in> set (map bytes_of rs). length l = kCells \<and> 13 \<notin> set l"
      using solution_lines [OF rs(2)] p ps'(1) by blast
    have n: "length rs = length puzzles"
      using rs(2) ps'(2) by (auto dest: list_all2_lengthD)
    have "length (message_of (map bytes_of rs)) = length puzzles * 83"
      using length_message [of "map bytes_of rs" kCells] l n by (simp add: kCells_def)
    then have "length (concat replies) + kCheapPrepend \<le> VEC_MAX"
      using vm r(1) rs(1) by simp
    moreover have "client_at ?c [] ?c"
      using b by (simp add: client_at_def)
    ultimately show ?thesis
      using client_finishes [of replies "map bytes_of rs" ?c] r rs(1) l n b(2) assms(3,4) by fastforce
  qed
  show ?thesis
    using c served finished by blast
qed

end
