(* ===== verification/Connector.thy ===== *)
theory Connector
  imports EventLoopProps
begin

section \<open>Connector: making a TCP connection\<close>

text \<open>
  The class \<open>Connector\<close> (\<open>net/connector.h\<close>, \<open>net/connector.cc\<close>), which makes a non-blocking connection and
  tries again after a growing delay, with the calls of \<open>net/sockets_ops.cc\<close> it uses. The connector extends the state
  of the event loop it runs in; its members run in the thread of that loop, apart from \<open>start\<close> and \<open>stop\<close>, which take
  the thread of the caller.
\<close>

subsection \<open>State\<close>

datatype States = kDisconnected | kConnecting | kConnected

definition kMaxRetryDelayMs :: int where "kMaxRetryDelayMs = 30 * 1000"
definition kInitRetryDelayMs :: int where "kInitRetryDelayMs = 500"

text \<open>The members bound as functors.\<close>

datatype co_fn =
    Co_startInLoop
  | Co_stopInLoop
  | Co_resetChannel
  | Co_handleWrite
  | Co_handleError

text \<open>
  The side of the kernel: \<open>co_open\<close> are the descriptors the connector got from \<open>socket\<close> that are open;
  \<open>co_socket\<close>, \<open>co_connects\<close>, \<open>co_errors\<close> and \<open>co_selfs\<close> give the results of the calls of \<open>socket\<close>, of \<open>connect\<close>
  (an error number, or 0), of \<open>getSocketError\<close> and of \<open>isSelfConnect\<close>, by the number of the call. The addresses
  of new objects are \<open>co_addrs\<close>. Recorded are the descriptors passed to \<open>newConnectionCallback_\<close> that the client has
  not closed, in \<open>co_handed\<close>, and the number of retries since the construction or the last \<open>restart\<close>, in \<open>co_retries\<close>.
\<close>

record connector = "co_fn event_loop" +
  co_connect :: bool
  co_state :: States
  co_channel :: "addr option"
  co_retryDelayMs :: int
  co_open :: "int list"
  co_socket :: "nat \<Rightarrow> int"
  co_connects :: "nat \<Rightarrow> int"
  co_errors :: "nat \<Rightarrow> int"
  co_selfs :: "nat \<Rightarrow> bool"
  co_calls :: nat
  co_addrs :: "nat \<Rightarrow> addr"
  co_allocs :: nat
  co_handed :: "int list"
  co_retries :: nat

subsection \<open>The error numbers of \<open>connect\<close>\<close>

definition EPERM :: int where "EPERM = 1"
definition EINTR :: int where "EINTR = 4"
definition EBADF :: int where "EBADF = 9"
definition EAGAIN :: int where "EAGAIN = 11"
definition EACCES :: int where "EACCES = 13"
definition EFAULT :: int where "EFAULT = 14"
definition ENOTSOCK :: int where "ENOTSOCK = 88"
definition EAFNOSUPPORT :: int where "EAFNOSUPPORT = 97"
definition EADDRINUSE :: int where "EADDRINUSE = 98"
definition EADDRNOTAVAIL :: int where "EADDRNOTAVAIL = 99"
definition ENETUNREACH :: int where "ENETUNREACH = 101"
definition EISCONN :: int where "EISCONN = 106"
definition ECONNREFUSED :: int where "ECONNREFUSED = 111"
definition EALREADY :: int where "EALREADY = 114"
definition EINPROGRESS :: int where "EINPROGRESS = 115"

lemmas errno_defs = EPERM_def EINTR_def EBADF_def EAGAIN_def EACCES_def EFAULT_def ENOTSOCK_def EAFNOSUPPORT_def
  EADDRINUSE_def EADDRNOTAVAIL_def ENETUNREACH_def EISCONN_def ECONNREFUSED_def EALREADY_def EINPROGRESS_def

subsection \<open>System calls\<close>

text \<open>
  \<open>createNonblockingOrDie\<close> does not die: the log statement is commented out, and the caller goes on with the
  descriptor -1. The kernel never returns a descriptor that is open.
\<close>

definition createNonblockingOrDie :: "'z connector_scheme \<Rightarrow> (int \<times> 'z connector_scheme) option" where
  "createNonblockingOrDie w =
     (let sockfd = co_socket w (co_calls w); w1 = w\<lparr>co_calls := Suc (co_calls w)\<rparr>
      in if sockfd < 0 then Some (sockfd, w1)
         else do { assert_that (sockfd \<notin> set (co_open w)); Some (sockfd, w1\<lparr>co_open := sockfd # co_open w1\<rparr>) })"

text \<open>\<open>connect\<close> on the descriptor -1 fails with \<open>EBADF\<close>.\<close>

definition sockets_connect :: "int \<Rightarrow> 'z connector_scheme \<Rightarrow> int \<times> 'z connector_scheme" where
  "sockets_connect sockfd w =
     (if sockfd < 0 then EBADF else co_connects w (co_calls w), w\<lparr>co_calls := Suc (co_calls w)\<rparr>)"

text \<open>\<open>sockets::close\<close> asserts that \<open>close\<close> succeeds, which it does on an open descriptor only.\<close>

definition sockets_close :: "int \<Rightarrow> 'z connector_scheme \<Rightarrow> 'z connector_scheme option" where
  "sockets_close sockfd w = do {
     assert_that (sockfd \<in> set (co_open w));
     Some (w\<lparr>co_open := remove1 sockfd (co_open w)\<rparr>)
   }"

definition getSocketError :: "'z connector_scheme \<Rightarrow> int \<times> 'z connector_scheme" where
  "getSocketError w = (co_errors w (co_calls w), w\<lparr>co_calls := Suc (co_calls w)\<rparr>)"

definition isSelfConnect_call :: "'z connector_scheme \<Rightarrow> bool \<times> 'z connector_scheme" where
  "isSelfConnect_call w = (co_selfs w (co_calls w), w\<lparr>co_calls := Suc (co_calls w)\<rparr>)"

definition alloc :: "'z connector_scheme \<Rightarrow> addr \<times> 'z connector_scheme" where
  "alloc w = (co_addrs w (co_allocs w), w\<lparr>co_allocs := Suc (co_allocs w)\<rparr>)"

subsection \<open>Construction and destruction\<close>

definition Connector_new :: "'z connector_scheme \<Rightarrow> 'z connector_scheme" where
  "Connector_new w = w\<lparr>co_connect := False, co_state := kDisconnected, co_channel := None,
     co_retryDelayMs := kInitRetryDelayMs, co_open := [], co_handed := [], co_retries := 0\<rparr>"

definition Connector_destroy :: "'z connector_scheme \<Rightarrow> 'z connector_scheme option" where
  "Connector_destroy w = do { assert_that (co_channel w = None); Some w }"

subsection \<open>Connecting\<close>

text \<open>
  \<open>runAfter\<close> in the loop thread runs \<open>addTimerInLoop\<close> and no function of the client, whose runner is therefore
  not needed.
\<close>

definition retry :: "(rat \<Rightarrow> rat) \<Rightarrow> int \<Rightarrow> 'z connector_scheme \<Rightarrow> 'z connector_scheme option" where
  "retry rnd sockfd w = do {
     w1 \<leftarrow> sockets_close sockfd w;
     let w2 = w1\<lparr>co_state := kDisconnected\<rparr>;
     if co_connect w2
     then do {
       let (a, w3) = alloc w2;
       (_, w4) \<leftarrow> runAfter rnd (\<lambda>_ _ _. None) (threadId w3) a (rnd (of_int (co_retryDelayMs w3) / 1000))
         (Fn_user Co_startInLoop) w3;
       d \<leftarrow> ck32 (co_retryDelayMs w4 * 2);
       Some (w4\<lparr>co_retryDelayMs := min d kMaxRetryDelayMs, co_retries := Suc (co_retries w4)\<rparr>) }
     else Some w2
   }"

definition connecting :: "int \<Rightarrow> 'z connector_scheme \<Rightarrow> 'z connector_scheme option" where
  "connecting sockfd w = do {
     let w1 = w\<lparr>co_state := kConnecting\<rparr>;
     assert_that (co_channel w1 = None);
     let (a, w2) = alloc w1;
     w3 \<leftarrow> Channel_new a sockfd w2;
     let w4 = w3\<lparr>co_channel := Some a\<rparr>;
     w5 \<leftarrow> setWriteCallback (Fn_user Co_handleWrite) a w4;
     w6 \<leftarrow> setErrorCallback (Fn_user Co_handleError) a w5;
     enableWriting a w6
   }"

definition Connector_connect :: "(rat \<Rightarrow> rat) \<Rightarrow> 'z connector_scheme \<Rightarrow> 'z connector_scheme option" where
  "Connector_connect rnd w = do {
     (sockfd, w1) \<leftarrow> createNonblockingOrDie w;
     let (savedErrno, w2) = sockets_connect sockfd w1;
     if savedErrno \<in> {0, EINPROGRESS, EINTR, EISCONN} then connecting sockfd w2
     else if savedErrno \<in> {EAGAIN, EADDRINUSE, EADDRNOTAVAIL, ECONNREFUSED, ENETUNREACH} then retry rnd sockfd w2
     else if savedErrno \<in> {EACCES, EPERM, EAFNOSUPPORT, EALREADY, EBADF, EFAULT, ENOTSOCK} then sockets_close sockfd w2
     else sockets_close sockfd w2
   }"

definition startInLoop :: "(rat \<Rightarrow> rat) \<Rightarrow> 'z connector_scheme \<Rightarrow> 'z connector_scheme option" where
  "startInLoop rnd w = do {
     assert_that (co_state w = kDisconnected);
     if co_connect w then Connector_connect rnd w else Some w
   }"

definition Connector_start :: "(rat \<Rightarrow> rat) \<Rightarrow> nat \<Rightarrow> 'z connector_scheme \<Rightarrow> 'z connector_scheme option" where
  "Connector_start rnd tid w =
     (let w1 = w\<lparr>co_connect := True\<rparr>
      in if isInLoopThread tid w1 then startInLoop rnd w1 else Some (queueInLoop tid (Fn_user Co_startInLoop) w1))"

definition restart :: "(rat \<Rightarrow> rat) \<Rightarrow> 'z connector_scheme \<Rightarrow> 'z connector_scheme option" where
  "restart rnd w =
     startInLoop rnd (w\<lparr>co_state := kDisconnected, co_retryDelayMs := kInitRetryDelayMs, co_connect := True, co_retries := 0\<rparr>)"

subsection \<open>Giving up the channel\<close>

definition removeAndResetChannel :: "'z connector_scheme \<Rightarrow> (int \<times> 'z connector_scheme) option" where
  "removeAndResetChannel w = do {
     a \<leftarrow> co_channel w;
     w1 \<leftarrow> disableAll a w;
     w2 \<leftarrow> Channel_remove a w1;
     ch \<leftarrow> rx_chans w2 a;
     Some (ch_fd ch, queueInLoop (threadId w2) (Fn_user Co_resetChannel) w2)
   }"

text \<open>\<open>channel_.reset()\<close> destroys the channel, if there is one.\<close>

definition resetChannel :: "'z connector_scheme \<Rightarrow> 'z connector_scheme option" where
  "resetChannel w = (case co_channel w of
       None \<Rightarrow> Some w
     | Some a \<Rightarrow> do { w1 \<leftarrow> Channel_destroy a w; Some (w1\<lparr>co_channel := None\<rparr>) })"

definition stopInLoop :: "(rat \<Rightarrow> rat) \<Rightarrow> 'z connector_scheme \<Rightarrow> 'z connector_scheme option" where
  "stopInLoop rnd w =
     (if co_state w = kConnecting
      then do {
        (sockfd, w1) \<leftarrow> removeAndResetChannel (w\<lparr>co_state := kDisconnected\<rparr>);
        retry rnd sockfd w1 }
      else Some w)"

definition Connector_stop :: "nat \<Rightarrow> 'z connector_scheme \<Rightarrow> 'z connector_scheme" where
  "Connector_stop tid w = queueInLoop tid (Fn_user Co_stopInLoop) (w\<lparr>co_connect := False\<rparr>)"

subsection \<open>Events of the socket\<close>

definition Connector_handleWrite :: "(rat \<Rightarrow> rat) \<Rightarrow> 'z connector_scheme \<Rightarrow> 'z connector_scheme option" where
  "Connector_handleWrite rnd w =
     (if co_state w = kConnecting
      then do {
        (sockfd, w1) \<leftarrow> removeAndResetChannel w;
        let (err, w2) = getSocketError w1;
        if err \<noteq> 0 then retry rnd sockfd w2
        else let (self, w3) = isSelfConnect_call w2 in
          if self then retry rnd sockfd w3
          else let w4 = w3\<lparr>co_state := kConnected\<rparr> in
            if co_connect w4 then Some (w4\<lparr>co_handed := co_handed w4 @ [sockfd]\<rparr>) else sockets_close sockfd w4 }
      else do { assert_that (co_state w = kDisconnected); Some w })"

definition Connector_handleError :: "(rat \<Rightarrow> rat) \<Rightarrow> 'z connector_scheme \<Rightarrow> 'z connector_scheme option" where
  "Connector_handleError rnd w =
     (if co_state w = kConnecting
      then do {
        (sockfd, w1) \<leftarrow> removeAndResetChannel w;
        let (err, w2) = getSocketError w1;
        retry rnd sockfd w2 }
      else Some w)"

definition co_run :: "(rat \<Rightarrow> rat) \<Rightarrow> co_fn \<Rightarrow> Timestamp \<Rightarrow> 'z connector_scheme \<Rightarrow> 'z connector_scheme option" where
  "co_run rnd fn t w = (case fn of
       Co_startInLoop \<Rightarrow> startInLoop rnd w
     | Co_stopInLoop \<Rightarrow> stopInLoop rnd w
     | Co_resetChannel \<Rightarrow> resetChannel w
     | Co_handleWrite \<Rightarrow> Connector_handleWrite rnd w
     | Co_handleError \<Rightarrow> Connector_handleError rnd w)"

end
