(* ===== verification/ConnectorProps.thy ===== *)
theory ConnectorProps
  imports Connector "HOL-Library.Multiset"
begin

section \<open>Properties of the connector\<close>

text \<open>
  The delays of the timers for retries grow by doubling up to a bound, and the connector accounts for every socket it
  opens as long as \<open>restart\<close> is not called while a connection is being made. Both follow from invariants of the machine
  whose steps are the calls of the members and the functors run by the loop. The last theorems are runs in which a
  socket leaks and in which an assertion of the code fails.
\<close>

subsection \<open>Frame\<close>

lemma co_frame:
  assumes "event_loop.more w' = event_loop.more w"
  shows "co_connect w' = co_connect w" "co_state w' = co_state w" "co_channel w' = co_channel w"
    "co_retryDelayMs w' = co_retryDelayMs w" "co_open w' = co_open w" "co_handed w' = co_handed w" "co_retries w' = co_retries w"
    "co_connects w' = co_connects w"
  using assms by (cases w; cases w'; simp)+

lemma more_more: "reactor.more w' = reactor.more w \<Longrightarrow> event_loop.more w' = event_loop.more w"
  by (cases w; cases w'; simp)

lemma queueInLoop_more [simp]:
  "event_loop.more (queueInLoop tid f w) = event_loop.more w" "rx_chans (queueInLoop tid f w) = rx_chans w"
  by (simp_all add: queueInLoop_eq push_functor_def wakeup_def Let_def)

lemma addTimerInLoop_frame:
  assumes "addTimerInLoop now a w = Some w'"
  shows "timer_queue.more w' = timer_queue.more w"
  using assms
  by (auto simp: addTimerInLoop_def TimerQueue_insert_def resetTimerfd_def Let_def
      elim!: bind_SomeE split: if_splits prod.splits)

lemma timer_more: "timer_queue.more w' = timer_queue.more w \<Longrightarrow> event_loop.more w' = event_loop.more w"
  by (cases w; cases w'; simp)

lemma runAfter_frame:
  assumes "runAfter rnd user tid a delay cb w = Some (r, w')"
  shows "event_loop.more w' = event_loop.more w"
proof -
  obtain t w1 w2 where w1: "Timer_new a cb t 0 (w\<lparr>clock_reads := Suc (clock_reads w)\<rparr>) = Some w1"
    and w2: "runInLoop rnd user tid (Fn_addTimerInLoop a) w1 = Some w'"
    using assms by (auto simp: runAfter_def runAt_def addTimer_eq read_clock_def Let_def elim!: bind_SomeE split: prod.splits)
  have "event_loop.more w1 = event_loop.more w"
    using w1 by (auto simp: Timer_new_def elim!: bind_SomeE split: if_splits)
  moreover have "event_loop.more w' = event_loop.more w1"
  proof (cases "isInLoopThread tid w1")
    case True
    then have "addTimerInLoop (fst (clock w1 (clock_reads w1))) a (w1\<lparr>clock_reads := Suc (clock_reads w1)\<rparr>) = Some w'"
      using w2 by (simp add: runInLoop_def run_functor_def read_clock_def split: prod.splits)
    from timer_more [OF addTimerInLoop_frame [OF this]] show ?thesis
      by simp
  next
    case False
    then show ?thesis
      using w2 by (auto simp: runInLoop_def)
  qed
  ultimately show ?thesis
    by simp
qed

text \<open>What a retry depends on: the timers, the clock and the delay.\<close>

definition same_timing :: "'z connector_scheme \<Rightarrow> 'z connector_scheme \<Rightarrow> bool" where
  "same_timing w w' \<longleftrightarrow> timer_objs w' = timer_objs w \<and> clock w' = clock w \<and> clock_reads w' = clock_reads w
     \<and> co_retryDelayMs w' = co_retryDelayMs w \<and> co_retries w' = co_retries w"

lemma same_timing_trans: "same_timing w w1 \<Longrightarrow> same_timing w1 w' \<Longrightarrow> same_timing w w'"
  by (simp add: same_timing_def)

lemma reactor_same_timing: "reactor.more w' = reactor.more w \<Longrightarrow> same_timing w w'"
  by (cases w; cases w'; simp add: same_timing_def)

lemma queue_same_timing: "same_timing w (queueInLoop tid f w)"
  by (simp add: same_timing_def co_frame [OF queueInLoop_more(1)])
    (simp add: queueInLoop_eq push_functor_def wakeup_def Let_def)

text \<open>
  A step that retries makes one timer for \<open>startInLoop\<close>, with the delay \<open>retryDelayMs_\<close> from the time the clock shows; any
  other step makes none.
\<close>

definition timed :: "(rat \<Rightarrow> rat) \<Rightarrow> 'z connector_scheme \<Rightarrow> 'z connector_scheme \<Rightarrow> bool" where
  "timed rnd w w' \<longleftrightarrow>
     timer_objs w' = timer_objs w \<and> co_retryDelayMs w' = co_retryDelayMs w \<and> co_retries w' = co_retries w
     \<or> (\<exists>a tm. timer_objs w a = None \<and> timer_objs w' = (timer_objs w)(a \<mapsto> tm) \<and> tm_callback tm = Fn_user Co_startInLoop
          \<and> addTime rnd (fst (clock w (clock_reads w))) (rnd (of_int (co_retryDelayMs w) / 1000)) = Some (tm_expiration tm)
          \<and> co_retryDelayMs w' = min (co_retryDelayMs w * 2) kMaxRetryDelayMs \<and> co_retries w' = Suc (co_retries w))"

lemma same_timed: "same_timing w w1 \<Longrightarrow> timed rnd w1 w' \<Longrightarrow> timed rnd w w'"
  by (simp add: same_timing_def timed_def)

lemma same_timing_timed: "same_timing w w' \<Longrightarrow> timed rnd w w'"
  by (simp add: same_timing_def timed_def)

lemma runAfter_timer:
  assumes "runAfter rnd user (threadId w) a delay cb w = Some (r, w')"
  shows "\<exists>tm. timer_objs w a = None \<and> timer_objs w' = (timer_objs w)(a \<mapsto> tm) \<and> tm_callback tm = cb
    \<and> addTime rnd (fst (clock w (clock_reads w))) delay = Some (tm_expiration tm)"
proof -
  let ?w = "w\<lparr>clock_reads := Suc (clock_reads w)\<rparr>"
  obtain t w1 where t: "addTime rnd (fst (clock w (clock_reads w))) delay = Some t" and w1: "Timer_new a cb t 0 ?w = Some w1"
    and w2: "runInLoop rnd user (threadId w) (Fn_addTimerInLoop a) w1 = Some w'"
    using assms by (auto simp: runAfter_def runAt_def addTimer_eq read_clock_def Let_def elim!: bind_SomeE split: prod.splits)
  obtain n s where n: "timer_objs w a = None" "w1 = ?w\<lparr>numCreated := n, timer_objs := (timer_objs w)(a \<mapsto> Timer_init cb t 0 s)\<rparr>"
    using w1 by (auto simp: Timer_new_def elim!: bind_SomeE split: if_splits)
  then have "addTimerInLoop (fst (clock w1 (clock_reads w1))) a (w1\<lparr>clock_reads := Suc (clock_reads w1)\<rparr>) = Some w'"
    using w2 by (simp add: runInLoop_def isInLoopThread_def run_functor_def read_clock_def split: prod.splits)
  then have "timer_objs w' = timer_objs w1"
    by (auto simp: addTimerInLoop_def TimerQueue_insert_def resetTimerfd_def Let_def elim!: bind_SomeE
        split: if_splits prod.splits)
  then show ?thesis
    using n t by (intro exI [of _ "Timer_init cb t 0 s"]) (simp add: Timer_init_def)
qed

lemma retry_timed:
  assumes "retry rnd fd w = Some w'"
  shows "timed rnd w w'"
proof -
  obtain w1 where "sockets_close fd w = Some w1"
    using assms by (auto simp: retry_def elim!: bind_SomeE)
  then have w1: "retry rnd fd w = (let w2 = w1\<lparr>co_state := kDisconnected\<rparr> in if co_connect w2
     then do {
       let (a, w3) = alloc w2;
       (_, w4) \<leftarrow> runAfter rnd (\<lambda>_ _ _. None) (threadId w3) a (rnd (of_int (co_retryDelayMs w3) / 1000))
         (Fn_user Co_startInLoop) w3;
       d \<leftarrow> ck32 (co_retryDelayMs w4 * 2);
       Some (w4\<lparr>co_retryDelayMs := min d kMaxRetryDelayMs, co_retries := Suc (co_retries w4)\<rparr>) }
     else Some w2)" "same_timing w w1"
    by (auto simp: retry_def same_timing_def sockets_close_def split: if_splits)
  show ?thesis
  proof (cases "co_connect w1")
    case True
    let ?w3 = "w1\<lparr>co_state := kDisconnected, co_allocs := Suc (co_allocs w1)\<rparr>"
    obtain x w4 z where run: "runAfter rnd (\<lambda>_ _ _. None) (threadId ?w3) (co_addrs w1 (co_allocs w1))
        (rnd (of_int (co_retryDelayMs w1) / 1000)) (Fn_user Co_startInLoop) ?w3 = Some (x, w4)"
      and z: "ck32 (co_retryDelayMs w4 * 2) = Some z"
      and w': "w' = w4\<lparr>co_retryDelayMs := min z kMaxRetryDelayMs, co_retries := Suc (co_retries w4)\<rparr>"
      using assms w1(1) True by (auto simp: alloc_def Let_def elim!: bind_SomeE)
    have "z = co_retryDelayMs w4 * 2"
      using z by (auto simp: ck32_def split: if_splits)
    then have "timed rnd ?w3 w'"
      using runAfter_timer [OF run] co_frame [OF runAfter_frame [OF run]] by (auto simp: timed_def w')
    moreover have "same_timing w ?w3"
      using w1(2) by (simp add: same_timing_def)
    ultimately show ?thesis
      using same_timed by blast
  next
    case False
    then show ?thesis
      using assms w1 by (auto simp: same_timing_def timed_def Let_def)
  qed
qed

lemma set_events_fd:
  assumes "set_events f a w = Some w'" "rx_chans w a = Some ch"
  shows "\<exists>ch'. rx_chans w' a = Some ch' \<and> ch_fd ch' = ch_fd ch \<and> ch_addedToLoop ch'"
  using assms
  by (auto simp: set_events_def Channel_update_def modify_chan_def EventLoop_updateChannel_def EPollPoller_updateChannel_def
      EPollPoller_update_def set_index_def set_chan_def Let_def elim!: bind_SomeE split: if_splits)

lemma Channel_remove_fd:
  assumes "Channel_remove a w = Some w'" "rx_chans w a = Some ch"
  shows "\<exists>ch'. rx_chans w' a = Some ch' \<and> ch_fd ch' = ch_fd ch"
  using assms
  by (auto simp: Channel_remove_def modify_chan_def EventLoop_removeChannel_def EPollPoller_removeChannel_def
      EPollPoller_update_def set_index_def set_chan_def Let_def elim!: bind_SomeE split: if_splits)

subsection \<open>The invariant\<close>

text \<open>The delay before the retry number \<open>n\<close>, in milliseconds.\<close>

definition backoff :: "nat \<Rightarrow> int" where
  "backoff n = min (kInitRetryDelayMs * 2 ^ n) kMaxRetryDelayMs"

lemma backoff_0: "backoff 0 = kInitRetryDelayMs"
  by (simp add: backoff_def kInitRetryDelayMs_def kMaxRetryDelayMs_def)

lemma backoff_Suc: "backoff (Suc n) = min (backoff n * 2) kMaxRetryDelayMs"
  by (simp add: backoff_def kMaxRetryDelayMs_def min_def)

lemma backoff_bounds: "kInitRetryDelayMs \<le> backoff n \<and> backoff n \<le> kMaxRetryDelayMs"
proof -
  have "(1::int) \<le> 2 ^ n"
    by simp
  then show ?thesis
    by (simp add: backoff_def kInitRetryDelayMs_def kMaxRetryDelayMs_def)
qed

definition delays_ok :: "'z connector_scheme \<Rightarrow> bool" where
  "delays_ok w \<longleftrightarrow> co_retryDelayMs w = backoff (co_retries w)"

lemma timed_delays: "timed rnd w w' \<Longrightarrow> delays_ok w \<Longrightarrow> delays_ok w'"
  by (auto simp: timed_def delays_ok_def backoff_Suc)

text \<open>The descriptor of the connection being made.\<close>

definition co_fd :: "'z connector_scheme \<Rightarrow> int option" where
  "co_fd w = do { a \<leftarrow> co_channel w; ch \<leftarrow> rx_chans w a; Some (ch_fd ch) }"

text \<open>Its channel is registered.\<close>

definition co_added :: "'z connector_scheme \<Rightarrow> bool" where
  "co_added w \<longleftrightarrow> do { a \<leftarrow> co_channel w; ch \<leftarrow> rx_chans w a; Some (ch_addedToLoop ch) } = Some True"

definition owns :: "int option \<Rightarrow> 'z connector_scheme \<Rightarrow> bool" where
  "owns fd w \<longleftrightarrow> mset (co_open w) = mset (co_handed w) + (case fd of None \<Rightarrow> {#} | Some d \<Rightarrow> {#d#})
     \<and> (\<forall>d \<in> set (co_open w). 0 \<le> d) \<and> distinct (co_open w)"

definition co_inv :: "'z connector_scheme \<Rightarrow> bool" where
  "co_inv w \<longleftrightarrow>
     (if co_state w = kConnecting then co_added w \<and> owns (co_fd w) w else owns None w)"

lemma owns_frame: "co_open w' = co_open w \<Longrightarrow> co_handed w' = co_handed w \<Longrightarrow> owns fd w' = owns fd w"
  by (simp add: owns_def)

lemma close_owns:
  assumes "sockets_close fd w = Some w'" "owns (Some fd) w"
  shows "owns None w'" "co_handed w' = co_handed w" "same_timing w w'"
    "co_state w' = co_state w" "co_connect w' = co_connect w"
  using assms by (auto simp: sockets_close_def owns_def same_timing_def split: if_splits dest!: subsetD [OF set_remove1_subset])

lemma retry_inv:
  assumes r: "retry rnd fd w = Some w'" and o: "owns (Some fd) w"
  shows "co_inv w' \<and> co_state w' = kDisconnected"
proof -
  obtain w1 where c: "sockets_close fd w = Some w1"
    using r by (auto simp: retry_def elim!: bind_SomeE)
  note cw = close_owns [OF c o]
  show ?thesis
  proof (cases "co_connect w1")
    case False
    then have "w' = w1\<lparr>co_state := kDisconnected\<rparr>"
      using r c by (auto simp: retry_def)
    then show ?thesis
      using cw by (simp add: co_inv_def owns_def)
  next
    case True
    let ?w3 = "w1\<lparr>co_state := kDisconnected, co_allocs := Suc (co_allocs w1)\<rparr>"
    obtain x w4 z where run: "runAfter rnd (\<lambda>_ _ _. None) (threadId ?w3) (co_addrs w1 (co_allocs w1))
        (rnd (of_int (co_retryDelayMs w1) / 1000)) (Fn_user Co_startInLoop) ?w3 = Some (x, w4)"
      and w': "w' = w4\<lparr>co_retryDelayMs := min z kMaxRetryDelayMs, co_retries := Suc (co_retries w4)\<rparr>"
      using r c True by (auto simp: retry_def alloc_def elim!: bind_SomeE)
    show ?thesis
      using cw co_frame [OF runAfter_frame [OF run]] by (simp add: w' co_inv_def owns_def)
  qed
qed

lemma removeAndReset_inv:
  assumes r: "removeAndResetChannel w = Some (fd, w')"
  shows "co_fd w = Some fd \<and> event_loop.more w' = event_loop.more w"
proof -
  obtain a w1 w2 ch2 where s: "co_channel w = Some a" "disableAll a w = Some w1" "Channel_remove a w1 = Some w2"
    "rx_chans w2 a = Some ch2" "fd = ch_fd ch2" "w' = queueInLoop (threadId w2) (Fn_user Co_resetChannel) w2"
    using r by (auto simp: removeAndResetChannel_def elim!: bind_SomeE)
  obtain ch where ch: "rx_chans w a = Some ch"
    using s(2) by (auto simp: disableAll_def set_events_def modify_chan_def elim!: bind_SomeE)
  obtain ch1 where "rx_chans w1 a = Some ch1" "ch_fd ch1 = ch_fd ch"
    using set_events_fd [OF s(2) [unfolded disableAll_def] ch] by blast
  then have "co_fd w = Some fd"
    using Channel_remove_fd [OF s(3)] s(1,4,5) ch by (force simp: co_fd_def)
  moreover have "event_loop.more w' = event_loop.more w"
    using more_more [OF set_events_frame(1) [OF s(2) [unfolded disableAll_def]]] more_more [OF set_events_frame(2) [OF s(3)]] s(6)
    by simp
  ultimately show ?thesis
    by simp
qed

lemma connecting_inv:
  assumes c: "connecting fd w = Some w'" and o: "owns (Some fd) w"
  shows "co_inv w'"
proof -
  let ?a = "co_addrs w (co_allocs w)"
  let ?w2 = "w\<lparr>co_state := kConnecting, co_allocs := Suc (co_allocs w)\<rparr>"
  obtain w3 w5 w6 where s: "Channel_new ?a fd ?w2 = Some w3"
    "setWriteCallback (Fn_user Co_handleWrite) ?a (w3\<lparr>co_channel := Some ?a\<rparr>) = Some w5"
    "setErrorCallback (Fn_user Co_handleError) ?a w5 = Some w6" "enableWriting ?a w6 = Some w'"
    using c by (auto simp: connecting_def alloc_def Let_def elim!: bind_SomeE split: if_splits)
  have "event_loop.more w3 = event_loop.more ?w2"
    using more_more [OF chan_frame(1) [OF s(1)]] .
  note f3 = co_frame [OF this]
  have "event_loop.more w5 = event_loop.more (w3\<lparr>co_channel := Some ?a\<rparr>)" "event_loop.more w6 = event_loop.more w5"
    using more_more [OF chan_frame(3)] s(2,3) unfolding setWriteCallback_def setErrorCallback_def by blast+
  moreover have "event_loop.more w' = event_loop.more w6"
    using more_more [OF set_events_frame(1)] s(4) unfolding enableWriting_def by blast
  ultimately have "event_loop.more w' = event_loop.more (w3\<lparr>co_channel := Some ?a\<rparr>)"
    by simp
  note f = co_frame [OF this]
  obtain ch6 where "rx_chans w6 ?a = Some ch6" "ch_fd ch6 = fd"
    using s(1-3) by (auto simp: Channel_new_def setWriteCallback_def setErrorCallback_def modify_chan_def set_chan_def
        channel_init_def elim!: bind_SomeE split: if_splits)
  then obtain ch where "rx_chans w' ?a = Some ch" "ch_fd ch = fd" "ch_addedToLoop ch"
    using set_events_fd [OF s(4) [unfolded enableWriting_def]] by metis
  then have "co_fd w' = Some fd" "co_added w'"
    using f by (simp_all add: co_fd_def co_added_def)
  moreover have "owns (Some fd) w'"
    using o f f3 by (simp add: owns_def)
  moreover have "co_state w' = kConnecting"
    using f(2) f3(2) by simp
  ultimately show ?thesis
    by (simp add: co_inv_def)
qed

lemma connect_inv:
  assumes c: "Connector_connect rnd w = Some w'" and o: "owns None w" and st: "co_state w = kDisconnected"
  shows "co_inv w'"
proof -
  obtain fd w1 where s: "createNonblockingOrDie w = Some (fd, w1)"
    using c by (auto simp: Connector_connect_def elim!: bind_SomeE)
  obtain e w2 where e: "sockets_connect fd w1 = (e, w2)"
    by fastforce
  have "fd < 0 \<Longrightarrow> e = EBADF"
    using e by (auto simp: sockets_connect_def)
  moreover have "EBADF \<notin> {0, EINPROGRESS, EINTR, EISCONN, EAGAIN, EADDRINUSE, EADDRNOTAVAIL, ECONNREFUSED, ENETUNREACH}"
    by (simp add: EBADF_def EINPROGRESS_def EINTR_def EISCONN_def EAGAIN_def EADDRINUSE_def EADDRNOTAVAIL_def ECONNREFUSED_def
        ENETUNREACH_def)
  ultimately have neg: "fd < 0 \<Longrightarrow> sockets_close fd w2 = Some w'"
    using c s e by (auto simp: Connector_connect_def)
  have w2: "co_state w2 = kDisconnected" "0 \<le> fd \<Longrightarrow> owns (Some fd) w2" "fd < 0 \<Longrightarrow> co_open w2 = co_open w \<and> co_handed w2 = co_handed w"
    using s e o st by (auto simp: createNonblockingOrDie_def sockets_connect_def owns_def Let_def
        elim!: bind_SomeE split: if_splits)
  have "\<not> fd < 0"
  proof
    assume "fd < 0"
    then have "sockets_close fd w2 = Some w'" "co_open w2 = co_open w"
      using neg w2(3) by simp_all
    then show False
      using o \<open>fd < 0\<close> by (auto simp: sockets_close_def owns_def split: if_splits)
  qed
  then have o2: "owns (Some fd) w2"
    using w2(2) by simp
  consider "connecting fd w2 = Some w'" | "retry rnd fd w2 = Some w'" | "sockets_close fd w2 = Some w'"
    using c s e by (auto simp: Connector_connect_def split: if_splits)
  then show ?thesis
  proof cases
    case 1
    then show ?thesis
      using connecting_inv o2 by blast
  next
    case 2
    then show ?thesis
      using retry_inv o2 by blast
  next
    case 3
    then show ?thesis
      using close_owns [OF 3 o2] w2 by (simp add: co_inv_def)
  qed
qed

lemma startInLoop_inv:
  assumes "startInLoop rnd w = Some w'" and i: "co_inv w"
  shows "co_inv w'"
proof (cases "co_connect w")
  case True
  then have "Connector_connect rnd w = Some w'" "co_state w = kDisconnected"
    using assms(1) by (auto simp: startInLoop_def split: if_splits)
  then show ?thesis
    using connect_inv [of rnd w w'] i by (simp add: co_inv_def)
next
  case False
  then show ?thesis
    using assms by (auto simp: startInLoop_def split: if_splits)
qed

lemma inv_connecting:
  assumes "co_inv w" "co_state w = kConnecting" "removeAndResetChannel (f w) = Some (fd, w1)"
    and f: "event_loop.more (f w) = event_loop.more (w\<lparr>co_state := st\<rparr>)" "rx_chans (f w) = rx_chans w"
  shows "owns (Some fd) w1" "co_state w1 = st" "co_connect w1 = co_connect w"
proof -
  note r = removeAndReset_inv [OF assms(3)]
  note g = co_frame [OF r [THEN conjunct2]] co_frame [OF f(1)]
  have "co_fd w = Some fd"
    using r g f(2) by (simp add: co_fd_def)
  then show "owns (Some fd) w1" "co_state w1 = st" "co_connect w1 = co_connect w"
    using assms(1,2) g by (auto simp: co_inv_def owns_def)
qed

lemma stopInLoop_inv:
  assumes "stopInLoop rnd w = Some w'" and i: "co_inv w"
  shows "co_inv w'"
proof (cases "co_state w = kConnecting")
  case True
  then obtain fd w1 where r: "removeAndResetChannel (w\<lparr>co_state := kDisconnected\<rparr>) = Some (fd, w1)" "retry rnd fd w1 = Some w'"
    using assms(1) by (auto simp: stopInLoop_def elim!: bind_SomeE)
  note k = inv_connecting [of w "\<lambda>w. w\<lparr>co_state := kDisconnected\<rparr>" fd w1 kDisconnected, OF i True r(1)]
  show ?thesis
    using retry_inv [OF r(2)] k by simp
next
  case False
  then show ?thesis
    using assms by (simp add: stopInLoop_def)
qed

lemma co_handleWrite_inv:
  assumes "Connector_handleWrite rnd w = Some w'" and i: "co_inv w"
  shows "co_inv w'"
proof (cases "co_state w = kConnecting")
  case True
  then obtain fd w1 where r: "removeAndResetChannel w = Some (fd, w1)"
    using assms(1) by (auto simp: Connector_handleWrite_def elim!: bind_SomeE)
  have "event_loop.more w = event_loop.more (w\<lparr>co_state := kConnecting\<rparr>)"
    using True by (cases w) simp
  note k = inv_connecting [of w "\<lambda>w. w" fd w1 kConnecting, OF i True r this refl]
  let ?w2 = "snd (getSocketError w1)"
  let ?w3 = "snd (isSelfConnect_call ?w2)"
  have w2: "owns (Some fd) ?w2" "owns (Some fd) ?w3"
    using k by (simp_all add: getSocketError_def isSelfConnect_call_def owns_def)
  have "retry rnd fd ?w2 = Some w' \<or> retry rnd fd ?w3 = Some w'
      \<or> w' = ?w3\<lparr>co_state := kConnected, co_handed := co_handed ?w3 @ [fd]\<rparr>
      \<or> sockets_close fd (?w3\<lparr>co_state := kConnected\<rparr>) = Some w'"
    using assms(1) True r by (auto simp: Connector_handleWrite_def Let_def split: if_splits prod.splits)
  then consider "retry rnd fd ?w2 = Some w'" | "retry rnd fd ?w3 = Some w'"
    | "w' = ?w3\<lparr>co_state := kConnected, co_handed := co_handed ?w3 @ [fd]\<rparr>"
    | "sockets_close fd (?w3\<lparr>co_state := kConnected\<rparr>) = Some w'"
    by blast
  then show ?thesis
  proof cases
    case 1
    then show ?thesis
      using retry_inv w2 by blast
  next
    case 2
    then show ?thesis
      using retry_inv w2 by blast
  next
    case 3
    then show ?thesis
      using w2(2) by (simp add: co_inv_def owns_def)
  next
    case 4
    have "owns (Some fd) (?w3\<lparr>co_state := kConnected\<rparr>)"
      using w2(2) by (simp add: owns_def)
    then show ?thesis
      using close_owns [OF 4] by (simp add: co_inv_def)
  qed
next
  case False
  then show ?thesis
    using assms by (auto simp: Connector_handleWrite_def split: if_splits)
qed

lemma co_handleError_inv:
  assumes "Connector_handleError rnd w = Some w'" and i: "co_inv w"
  shows "co_inv w'"
proof (cases "co_state w = kConnecting")
  case True
  then obtain fd w1 where r: "removeAndResetChannel w = Some (fd, w1)" "retry rnd fd (snd (getSocketError w1)) = Some w'"
    using assms(1) by (auto simp: Connector_handleError_def Let_def elim!: bind_SomeE split: prod.splits)
  have "event_loop.more w = event_loop.more (w\<lparr>co_state := kConnecting\<rparr>)"
    using True by (cases w) simp
  note k = inv_connecting [of w "\<lambda>w. w" fd w1 kConnecting, OF i True r(1) this refl]
  show ?thesis
    using retry_inv [OF r(2)] k by (simp add: getSocketError_def owns_def)
next
  case False
  then show ?thesis
    using assms by (simp add: Connector_handleError_def)
qed

text \<open>The channel that is destroyed is not the one of a connection being made, which is still registered.\<close>

lemma resetChannel_inv:
  assumes r: "resetChannel w = Some w'" and i: "co_inv w"
  shows "co_inv w'"
proof (cases "co_channel w")
  case None
  then show ?thesis
    using assms by (simp add: resetChannel_def)
next
  case (Some a)
  then obtain w1 where w1: "Channel_destroy a w = Some w1" "w' = w1\<lparr>co_channel := None\<rparr>"
    using r by (auto simp: resetChannel_def elim!: bind_SomeE)
  note f = co_frame [OF more_more [OF chan_frame(2) [OF w1(1)]]]
  have "\<not> co_added w"
    using w1(1) Some by (auto simp: co_added_def Channel_destroy_def elim!: bind_SomeE split: if_splits option.splits)
  then have "co_state w \<noteq> kConnecting"
    using i by (auto simp: co_inv_def)
  then show ?thesis
    using i f by (simp add: w1(2) co_inv_def owns_def)
qed

lemma co_run_inv: "co_run rnd fn t w = Some w' \<Longrightarrow> co_inv w \<Longrightarrow> co_inv w'"
  using startInLoop_inv stopInLoop_inv resetChannel_inv co_handleWrite_inv co_handleError_inv
  by (cases fn) (simp_all add: co_run_def)

lemma co_inv_frame:
  assumes "event_loop.more w' = event_loop.more w" "rx_chans w' = rx_chans w"
  shows "co_inv w' = co_inv w"
  by (simp add: co_inv_def owns_def co_fd_def co_added_def co_frame [OF assms(1)] assms(2))

lemma queued_inv: "co_inv (queueInLoop tid f w) = co_inv w"
  by (rule co_inv_frame) simp_all

subsection \<open>The timers of the retries\<close>

lemma removeAndReset_timing:
  assumes "removeAndResetChannel w = Some (fd, w')"
  shows "same_timing w w'"
proof -
  obtain a w1 w2 where s: "disableAll a w = Some w1" "Channel_remove a w1 = Some w2"
    "w' = queueInLoop (threadId w2) (Fn_user Co_resetChannel) w2"
    using assms by (auto simp: removeAndResetChannel_def elim!: bind_SomeE)
  have "same_timing w w2"
    using set_events_frame(1) [OF s(1) [unfolded disableAll_def]] set_events_frame(2) [OF s(2)]
    by (intro reactor_same_timing) simp
  then show ?thesis
    using same_timing_trans queue_same_timing unfolding s(3) by blast
qed

lemma connecting_timing:
  assumes "connecting fd w = Some w'"
  shows "same_timing w w'"
proof -
  let ?a = "co_addrs w (co_allocs w)"
  let ?w2 = "w\<lparr>co_state := kConnecting, co_allocs := Suc (co_allocs w)\<rparr>"
  obtain w3 w5 w6 where s: "Channel_new ?a fd ?w2 = Some w3"
    "setWriteCallback (Fn_user Co_handleWrite) ?a (w3\<lparr>co_channel := Some ?a\<rparr>) = Some w5"
    "setErrorCallback (Fn_user Co_handleError) ?a w5 = Some w6" "enableWriting ?a w6 = Some w'"
    using assms by (auto simp: connecting_def alloc_def Let_def elim!: bind_SomeE split: if_splits)
  have "reactor.more w5 = reactor.more (w3\<lparr>co_channel := Some ?a\<rparr>)" "reactor.more w6 = reactor.more w5"
    "reactor.more w' = reactor.more w6"
    using chan_frame(3) set_events_frame(1) s(2-4) unfolding setWriteCallback_def setErrorCallback_def enableWriting_def
    by blast+
  then have "same_timing (w3\<lparr>co_channel := Some ?a\<rparr>) w'"
    using reactor_same_timing by metis
  moreover have "same_timing ?w2 w3"
    using reactor_same_timing chan_frame(1) [OF s(1)] .
  ultimately show ?thesis
    by (simp add: same_timing_def)
qed

lemma connect_timed:
  assumes "Connector_connect rnd w = Some w'"
  shows "timed rnd w w'"
proof -
  obtain fd w1 where c: "createNonblockingOrDie w = Some (fd, w1)"
    using assms by (auto simp: Connector_connect_def elim!: bind_SomeE)
  let ?w2 = "snd (sockets_connect fd w1)"
  have w2: "same_timing w ?w2"
    using c by (auto simp: createNonblockingOrDie_def sockets_connect_def same_timing_def Let_def elim!: bind_SomeE
        split: if_splits)
  consider "connecting fd ?w2 = Some w'" | "retry rnd fd ?w2 = Some w'" | "sockets_close fd ?w2 = Some w'"
    using assms c by (auto simp: Connector_connect_def split: if_splits prod.splits)
  then have "timed rnd ?w2 w'"
    by cases (auto intro: retry_timed same_timing_timed connecting_timing simp: sockets_close_def same_timing_def
        split: if_splits)
  then show ?thesis
    using same_timed [OF w2] by simp
qed

lemma startInLoop_timed: "startInLoop rnd w = Some w' \<Longrightarrow> timed rnd w w'"
  by (auto simp: startInLoop_def intro: connect_timed same_timing_timed simp: same_timing_def split: if_splits)

lemma removed_timed:
  assumes "removeAndResetChannel w = Some (fd, w1)" "same_timing w1 w2" "retry rnd fd w2 = Some w'"
  shows "timed rnd w w'"
  using same_timed [OF same_timing_trans [OF removeAndReset_timing [OF assms(1)] assms(2)]] retry_timed [OF assms(3)] .

lemma stopInLoop_timed:
  assumes "stopInLoop rnd w = Some w'"
  shows "timed rnd w w'"
proof (cases "co_state w = kConnecting")
  case True
  then obtain fd w1 where "removeAndResetChannel (w\<lparr>co_state := kDisconnected\<rparr>) = Some (fd, w1)" "retry rnd fd w1 = Some w'"
    using assms by (auto simp: stopInLoop_def elim!: bind_SomeE)
  then have "timed rnd (w\<lparr>co_state := kDisconnected\<rparr>) w'"
    using removed_timed [of _ fd w1 w1] by (simp add: same_timing_def)
  then show ?thesis
    by (simp add: timed_def)
qed (use assms in \<open>simp add: stopInLoop_def timed_def\<close>)

lemma co_handleWrite_timed:
  assumes "Connector_handleWrite rnd w = Some w'"
  shows "timed rnd w w'"
proof (cases "co_state w = kConnecting")
  case True
  then obtain fd w1 where r: "removeAndResetChannel w = Some (fd, w1)"
    using assms by (auto simp: Connector_handleWrite_def elim!: bind_SomeE)
  have "(\<exists>w2. same_timing w1 w2 \<and> retry rnd fd w2 = Some w') \<or> same_timing w1 w'"
    using assms True r by (auto simp: Connector_handleWrite_def getSocketError_def isSelfConnect_call_def sockets_close_def
        same_timing_def Let_def split: if_splits)
  then show ?thesis
    using removed_timed [OF r] same_timing_timed [OF same_timing_trans [OF removeAndReset_timing [OF r]]] by blast
qed (use assms in \<open>auto simp: Connector_handleWrite_def timed_def split: if_splits\<close>)

lemma co_handleError_timed:
  assumes "Connector_handleError rnd w = Some w'"
  shows "timed rnd w w'"
proof (cases "co_state w = kConnecting")
  case True
  then obtain fd w1 where r: "removeAndResetChannel w = Some (fd, w1)" "retry rnd fd (snd (getSocketError w1)) = Some w'"
    using assms by (auto simp: Connector_handleError_def Let_def elim!: bind_SomeE split: prod.splits)
  then show ?thesis
    using removed_timed [OF r(1) _ r(2)] by (simp add: getSocketError_def same_timing_def)
qed (use assms in \<open>simp add: Connector_handleError_def timed_def\<close>)

lemma resetChannel_timed: "resetChannel w = Some w' \<Longrightarrow> timed rnd w w'"
  by (rule same_timing_timed, cases "co_channel w")
    (auto simp: resetChannel_def same_timing_def elim!: bind_SomeE dest!: chan_frame(2) reactor_same_timing)

lemma co_run_timed: "co_run rnd fn t w = Some w' \<Longrightarrow> timed rnd w w'"
  by (cases fn) (simp_all add: co_run_def startInLoop_timed stopInLoop_timed resetChannel_timed co_handleWrite_timed
      co_handleError_timed)

subsection \<open>Runs\<close>

text \<open>
  Calls of the members by any thread, functors the loop runs, and a client that closes a descriptor it was given, in any
  order.
\<close>

datatype co_event = Ev_start nat | Ev_stop nat | Ev_restart | Ev_run co_fn Timestamp | Ev_close int

fun co_step :: "(rat \<Rightarrow> rat) \<Rightarrow> co_event \<Rightarrow> 'z connector_scheme \<Rightarrow> 'z connector_scheme option" where
  "co_step rnd (Ev_start tid) w = Connector_start rnd tid w"
| "co_step rnd (Ev_stop tid) w = Some (Connector_stop tid w)"
| "co_step rnd Ev_restart w = restart rnd w"
| "co_step rnd (Ev_run fn t) w = co_run rnd fn t w"
| "co_step rnd (Ev_close fd) w = do {
     assert_that (fd \<in> set (co_handed w));
     Some (w\<lparr>co_open := remove1 fd (co_open w), co_handed := remove1 fd (co_handed w)\<rparr>)
   }"

text \<open>\<open>restart\<close> is called only when no connection is being made.\<close>

definition idle_restart :: "co_event \<Rightarrow> 'z connector_scheme \<Rightarrow> bool" where
  "idle_restart ev w \<longleftrightarrow> (ev = Ev_restart \<longrightarrow> co_state w \<noteq> kConnecting)"

fun idle_restarts :: "(rat \<Rightarrow> rat) \<Rightarrow> co_event list \<Rightarrow> 'z connector_scheme \<Rightarrow> bool" where
  "idle_restarts rnd [] w = True"
| "idle_restarts rnd (ev # evs) w = (idle_restart ev w
     \<and> (case co_step rnd ev w of None \<Rightarrow> True | Some w' \<Rightarrow> idle_restarts rnd evs w'))"

definition idle_step :: "(rat \<Rightarrow> rat) \<Rightarrow> co_event \<Rightarrow> 'z connector_scheme \<Rightarrow> 'z connector_scheme option" where
  "idle_step rnd ev w = do { assert_that (idle_restart ev w); co_step rnd ev w }"

lemma idle_run: "idle_restarts rnd evs w \<Longrightarrow> run_all (idle_step rnd) evs w = run_all (co_step rnd) evs w"
  by (induction evs arbitrary: w) (auto simp: idle_step_def split: option.splits bind_split)

lemma set_connect_inv: "co_inv (w\<lparr>co_connect := b\<rparr>) = co_inv w"
  by (simp add: co_inv_def owns_def co_fd_def co_added_def)

lemma mset_remove1_both:
  assumes "mset xs = mset ys + X" "a \<in> set ys"
  shows "mset (remove1 a xs) = mset (remove1 a ys) + X"
  using assms diff_union_single_conv [of a "mset ys" X] by (simp add: add.commute)

lemma close_handed_owns:
  assumes "owns d w" "fd \<in> set (co_handed w)"
  shows "owns d (w\<lparr>co_open := remove1 fd (co_open w), co_handed := remove1 fd (co_handed w)\<rparr>)"
proof -
  let ?w = "w\<lparr>co_open := remove1 fd (co_open w), co_handed := remove1 fd (co_handed w)\<rparr>"
  have "co_open ?w = remove1 fd (co_open w)" "co_handed ?w = remove1 fd (co_handed w)"
    by simp_all
  moreover have "\<forall>e \<in> set (remove1 fd (co_open w)). 0 \<le> e" "distinct (remove1 fd (co_open w))"
    using assms(1) set_remove1_subset [of fd "co_open w"] by (auto simp: owns_def)
  ultimately show ?thesis
    using mset_remove1_both [OF _ assms(2)] assms(1) unfolding owns_def by metis
qed

lemma idle_step_inv:
  assumes "co_inv w" "idle_step rnd ev w = Some w'"
  shows "co_inv w'"
proof (cases ev)
  case (Ev_start tid)
  then show ?thesis
    using assms startInLoop_inv [of rnd "w\<lparr>co_connect := True\<rparr>" w']
    by (auto simp: idle_step_def Connector_start_def Let_def queued_inv set_connect_inv split: if_splits)
next
  case (Ev_stop tid)
  then show ?thesis
    using assms by (auto simp: idle_step_def Connector_stop_def queued_inv set_connect_inv split: if_splits)
next
  case Ev_restart
  let ?w = "w\<lparr>co_state := kDisconnected, co_retryDelayMs := kInitRetryDelayMs, co_connect := True, co_retries := 0\<rparr>"
  have "startInLoop rnd ?w = Some w'" "co_state w \<noteq> kConnecting"
    using assms(2) Ev_restart by (auto simp: idle_step_def idle_restart_def restart_def split: if_splits)
  moreover have "co_inv ?w"
    using assms(1) calculation(2) by (simp add: co_inv_def owns_def)
  ultimately show ?thesis
    using startInLoop_inv by blast
next
  case (Ev_run fn t)
  then show ?thesis
    using assms co_run_inv by (auto simp: idle_step_def split: if_splits)
next
  case (Ev_close fd)
  then have "w' = w\<lparr>co_open := remove1 fd (co_open w), co_handed := remove1 fd (co_handed w)\<rparr>" "fd \<in> set (co_handed w)"
    using assms(2) by (auto simp: idle_step_def split: if_splits)
  then show ?thesis
    using assms(1) close_handed_owns [of None w fd] close_handed_owns [of "co_fd w" w fd]
    by (cases "co_state w = kConnecting") (simp_all add: co_inv_def co_added_def co_fd_def)
qed

interpretation connector: machine "idle_step rnd" co_inv for rnd
  by unfold_locales (rule idle_step_inv)

text \<open>The number of retries and the delay for the next one when a step is made: \<open>restart\<close> sets both back.\<close>

definition retries_before :: "co_event \<Rightarrow> 'z connector_scheme \<Rightarrow> nat" where
  "retries_before ev w = (if ev = Ev_restart then 0 else co_retries w)"

definition before :: "co_event \<Rightarrow> 'z connector_scheme \<Rightarrow> 'z connector_scheme" where
  "before ev w = (if ev = Ev_restart then w\<lparr>co_retryDelayMs := kInitRetryDelayMs, co_retries := 0\<rparr> else w)"

lemma co_step_timed:
  assumes "co_step rnd ev w = Some w'"
  shows "timed rnd (before ev w) w'"
proof (cases ev)
  case (Ev_start tid)
  have "same_timing w (w\<lparr>co_connect := True\<rparr>)"
    by (simp add: same_timing_def)
  then show ?thesis
    using assms Ev_start same_timed [OF _ startInLoop_timed] same_timing_timed [OF same_timing_trans [OF _ queue_same_timing]]
    by (auto simp: before_def Connector_start_def Let_def split: if_splits)
next
  case (Ev_stop tid)
  have "same_timing w (w\<lparr>co_connect := False\<rparr>)"
    by (simp add: same_timing_def)
  then show ?thesis
    using assms Ev_stop same_timing_timed [OF same_timing_trans [OF _ queue_same_timing]]
    by (auto simp: before_def Connector_stop_def)
next
  case Ev_restart
  then have "timed rnd (w\<lparr>co_state := kDisconnected, co_retryDelayMs := kInitRetryDelayMs, co_connect := True, co_retries := 0\<rparr>) w'"
    using assms startInLoop_timed by (simp add: restart_def)
  then show ?thesis
    using Ev_restart by (simp add: before_def timed_def)
next
  case (Ev_run fn t)
  then show ?thesis
    using assms co_run_timed by (simp add: before_def)
next
  case (Ev_close fd)
  then show ?thesis
    using assms by (auto simp: before_def timed_def split: if_splits)
qed

lemma before_delays: "delays_ok w \<Longrightarrow> delays_ok (before ev w)"
  by (simp add: before_def delays_ok_def backoff_0)

interpretation delays: machine "co_step rnd" delays_ok for rnd
  by unfold_locales (blast intro: timed_delays co_step_timed before_delays)

lemma Connector_new_inv: "co_inv (Connector_new w)"
  by (simp add: Connector_new_def co_inv_def owns_def)

lemma Connector_new_delays: "delays_ok (Connector_new w)"
  by (simp add: Connector_new_def delays_ok_def backoff_0)

lemma added_fd: "co_added w \<Longrightarrow> \<exists>fd. co_fd w = Some fd"
  by (auto simp: co_added_def co_fd_def elim!: bind_SomeE)

subsection \<open>Properties\<close>

text \<open>
  C37: The connector backs off exponentially and within bounds: whatever is called and whatever happens to its
  sockets, a step of the connector after \<open>n\<close> retries since the construction or the last \<open>restart\<close> makes no timer, or it
  makes one new timer and counts one more retry. That timer calls \<open>startInLoop\<close> and expires \<open>500 * 2 ^ n\<close> milliseconds,
  but at most 30 seconds, after the time the clock shows, where the delay in seconds and the sum are rounded as \<open>addTime\<close> does.
\<close>

theorem connector_backoff:
  assumes "run_all (co_step rnd) evs (Connector_new w0) = Some w" "co_step rnd ev w = Some w'" "n = retries_before ev w"
  shows "(timer_objs w' = timer_objs w \<and> co_retries w' = n)
      \<or> (\<exists>a tm. timer_objs w a = None \<and> timer_objs w' = (timer_objs w)(a \<mapsto> tm) \<and> co_retries w' = Suc n
           \<and> tm_callback tm = Fn_user Co_startInLoop
           \<and> addTime rnd (fst (clock w (clock_reads w))) (rnd (min (500 * 2 ^ n) 30000 / 1000)) = Some (tm_expiration tm))"
proof -
  have "delays_ok (before ev w)"
    using delays.run_inv [OF Connector_new_delays assms(1)] before_delays by blast
  moreover have "of_int (backoff n) = (min (500 * 2 ^ n) 30000 :: rat)"
    by (simp add: backoff_def kInitRetryDelayMs_def kMaxRetryDelayMs_def min_def flip: of_int_le_iff [where 'a = rat])
  ultimately have "of_int (co_retryDelayMs (before ev w)) = (min (500 * 2 ^ n) 30000 :: rat)" "co_retries (before ev w) = n"
    using assms(3) by (auto simp: delays_ok_def before_def retries_before_def split: if_splits)
  moreover have "timer_objs (before ev w) = timer_objs w" "clock (before ev w) = clock w" "clock_reads (before ev w) = clock_reads w"
    by (simp_all add: before_def)
  ultimately show ?thesis
    using co_step_timed [OF assms(2)] by (auto simp: timed_def)
qed

text \<open>
  C38: The connector accounts for its sockets as long as \<open>restart\<close> is not called while a connection is being made: the
  open descriptors it got are those it passed to the client and the client has not closed, and the one of the
  connection it is making. They are distinct, and closing the latter is possible. Nothing else stays open, so a connection
  that failed or was given up has been closed.
\<close>

theorem connector_sockets:
  assumes "run_all (co_step rnd) evs (Connector_new w0) = Some w" "idle_restarts rnd evs (Connector_new w0)"
  shows "mset (co_open w) = mset (co_handed w)
    + (if co_state w = kConnecting then (case co_fd w of None \<Rightarrow> {#} | Some fd \<Rightarrow> {#fd#}) else {#})
    \<and> distinct (co_open w)
    \<and> (co_state w = kConnecting \<longrightarrow> (\<exists>fd. co_fd w = Some fd \<and> sockets_close fd w \<noteq> None))"
proof -
  have "co_inv w"
    using connector.run_inv [OF Connector_new_inv] assms idle_run by metis
  moreover have "\<exists>fd. co_fd w = Some fd \<and> sockets_close fd w \<noteq> None" if st: "co_state w = kConnecting"
  proof -
    obtain fd where fd: "co_fd w = Some fd" "owns (Some fd) w"
      using calculation st added_fd [of w] by (auto simp: co_inv_def)
    then have "fd \<in> set (co_open w)"
      by (metis owns_def option.simps(5) union_single_eq_member set_mset_mset add_mset_add_single)
    then show ?thesis
      using fd by (simp add: sockets_close_def)
  qed
  ultimately show ?thesis
    by (simp add: co_inv_def owns_def split: if_splits)
qed

text \<open>A connector in thread 1: its first connection is refused, the second one is made.\<close>

definition sample_connector :: connector where
  "sample_connector = event_loop.extend (timer_queue.extend (reactor.extend (reactor_new 0)
     \<lparr>timerfd = 3, timerfdChannel = 100, timer_objs = Map.empty, timers = [], activeTimers = [],
      callingExpiredTimers = False, cancelingTimers = [], numCreated = 0, timerfd_calls = []\<rparr>)
     \<lparr>looping = True, quit = False, callingPendingFunctors = False, iteration = 0, threadId = 1,
      pollReturnTime = Timestamp_invalid, wakeupFd = 4, wakeupChannel = 101, pendingFunctors = [],
      wakeup_counter = 0, clock = (\<lambda>_. (Timestamp_of 2000000, Timestamp_of 2000000)), clock_reads = 0,
      loopInThisThread = None\<rparr>)
     \<lparr>co_connect = False, co_state = kDisconnected, co_channel = None, co_retryDelayMs = 0, co_open = [],
      co_socket = (\<lambda>n. 10 + int n), co_connects = (\<lambda>n. if n < 2 then ECONNREFUSED else EINPROGRESS),
      co_errors = (\<lambda>_. 0), co_selfs = (\<lambda>_. False), co_calls = 0, co_addrs = (\<lambda>n. 200 + n), co_allocs = 0,
      co_handed = [], co_retries = 0\<rparr>"

definition sample_run :: "co_event list" where
  "sample_run = [Ev_start 1, Ev_run Co_startInLoop Timestamp_invalid, Ev_run Co_handleWrite Timestamp_invalid]"

lemma first_timer: "incrementAndGet (0 :: 64 word) = Some (1, 1)"
  using incrementAndGet_returns(1) [of 0] by simp

lemmas connector_eval = Connector_new_def Connector_start_def startInLoop_def Connector_connect_def
  createNonblockingOrDie_def sockets_connect_def isInLoopThread_def retry_def sockets_close_def alloc_def errno_defs
  runAfter_def runAt_def addTimer_eq read_clock_def addTime_def Timer_new_def runInLoop_def run_functor_def
  addTimerInLoop_def TimerQueue_insert_def resetTimerfd_def howMuchTimeFromNow_def reactor.defs timer_queue.defs
  event_loop.defs reactor_new_def UINTPTR_MAX_def set_insert_def Timer_init_def Let_def kInitRetryDelayMs_def
  kMaxRetryDelayMs_def double_to_int64_def ck64_def ck32_def Timestamp_of_def kMicroSecondsPerSecond_def first_timer
  INT32_MIN_def INT32_MAX_def INT64_MIN_def INT64_MAX_def

lemmas channel_eval = connecting_def Channel_new_def channel_init_def setWriteCallback_def setErrorCallback_def modify_chan_def
  set_chan_def enableWriting_def set_events_def Channel_update_def EventLoop_updateChannel_def EPollPoller_updateChannel_def
  EPollPoller_update_def set_index_def isNoneEvent_def kNew_def kAdded_def kDeleted_def kNoneEvent_def kWriteEvent_def POLLOUT_def

lemmas remove_eval = removeAndResetChannel_def queueInLoop_eq push_functor_def wakeup_def disableAll_def Channel_remove_def
  EventLoop_removeChannel_def EPollPoller_removeChannel_def

lemma sample_run_ends:
  "\<exists>w. run_all (co_step (\<lambda>x. x)) sample_run (Connector_new sample_connector) = Some w
     \<and> idle_restarts (\<lambda>x. x) sample_run (Connector_new sample_connector)
     \<and> co_handed w = [12] \<and> co_state w = kConnected"
  by (simp add: sample_run_def sample_connector_def connector_eval co_run_def Connector_handleWrite_def
    getSocketError_def isSelfConnect_call_def idle_restart_def channel_eval remove_eval)

lemma sample_first_timer:
  "\<exists>w'. co_step (\<lambda>x. x) (Ev_start 1) (Connector_new sample_connector) = Some w'
     \<and> timer_objs w' 200 = Some (Timer_init (Fn_user Co_startInLoop) (Timestamp_of 2500000) 0 1)
     \<and> timer_objs (Connector_new sample_connector) = Map.empty \<and> co_retries w' = 1"
  by (simp add: sample_connector_def connector_eval)

theorem connector_backoff_witness:
  "\<exists>w' tm. co_step (\<lambda>x. x) (Ev_start 1) (Connector_new sample_connector) = Some w' \<and> timer_objs w' = [200 \<mapsto> tm]
     \<and> co_retries w' = 1 \<and> tm_callback tm = Fn_user Co_startInLoop
     \<and> addTime (\<lambda>x. x) (Timestamp_of 2000000) (1/2) = Some (tm_expiration tm)"
proof -
  obtain w' where w': "co_step (\<lambda>x. x) (Ev_start 1) (Connector_new sample_connector) = Some w'" "timer_objs w' 200 \<noteq> None"
    "timer_objs (Connector_new sample_connector) = Map.empty" "co_retries w' = 1"
    using sample_first_timer by auto
  have "retries_before (Ev_start 1) (Connector_new sample_connector) = 0"
    "fst (clock (Connector_new sample_connector) (clock_reads (Connector_new sample_connector))) = Timestamp_of 2000000"
    by (simp_all add: retries_before_def Connector_new_def sample_connector_def event_loop.defs timer_queue.defs reactor.defs)
  then show ?thesis
    using connector_backoff [of "\<lambda>x. x" "[]" sample_connector "Connector_new sample_connector" "Ev_start 1" w' 0] w'
    by (auto split: if_splits)
qed

theorem connector_sockets_witness:
  "\<exists>w. run_all (co_step (\<lambda>x. x)) sample_run (Connector_new sample_connector) = Some w
     \<and> co_handed w = [12] \<and> mset (co_open w) = {#12#}"
proof -
  obtain w where "run_all (co_step (\<lambda>x. x)) sample_run (Connector_new sample_connector) = Some w"
    "idle_restarts (\<lambda>x. x) sample_run (Connector_new sample_connector)" "co_handed w = [12]" "co_state w = kConnected"
    using sample_run_ends by blast
  then show ?thesis
    using connector_sockets [of "\<lambda>x. x" sample_run sample_connector w] by simp
qed

text \<open>
  A flaw: \<open>restart\<close> during the making of a connection forgets it. Here the connection of the descriptor 10 is in progress when
  \<open>restart\<close> is called, and the new one is refused. Then the connector is disconnected and the client was given nothing, but
  the descriptor 10 stays open, and its channel registered.
\<close>

theorem connector_restart_leaks:
  "\<exists>w. run_all (co_step (\<lambda>x. x)) [Ev_start 1, Ev_restart]
       (Connector_new (sample_connector\<lparr>co_connects := \<lambda>n. if n < 2 then EINPROGRESS else ECONNREFUSED\<rparr>)) = Some w
     \<and> co_state w = kDisconnected \<and> co_handed w = [] \<and> co_open w = [10] \<and> co_added w"
  by (simp add: sample_connector_def connector_eval restart_def co_added_def channel_eval)

text \<open>
  A flaw: while a connection is being made, another thread calls \<open>stop\<close> and then \<open>start\<close>. The loop runs \<open>stopInLoop\<close>,
  which leaves the destruction of the channel to a functor that is run later, and then \<open>startInLoop\<close>, where \<open>connecting\<close>
  finds the old channel and its assertion fails.
\<close>

lemma retry_keeps:
  assumes "retry rnd fd w = Some w'"
  shows "co_channel w' = co_channel w \<and> co_connects w' = co_connects w \<and> co_connect w' = co_connect w"
proof -
  obtain w1 where c: "sockets_close fd w = Some w1"
    using assms by (auto simp: retry_def elim!: bind_SomeE)
  then have w1: "co_channel w1 = co_channel w" "co_connects w1 = co_connects w" "co_connect w1 = co_connect w"
    by (auto simp: sockets_close_def split: if_splits)
  show ?thesis
  proof (cases "co_connect w1")
    case True
    let ?w3 = "w1\<lparr>co_state := kDisconnected, co_allocs := Suc (co_allocs w1)\<rparr>"
    obtain x w4 z where run: "runAfter rnd (\<lambda>_ _ _. None) (threadId ?w3) (co_addrs w1 (co_allocs w1))
        (rnd (of_int (co_retryDelayMs w1) / 1000)) (Fn_user Co_startInLoop) ?w3 = Some (x, w4)"
      and w': "w' = w4\<lparr>co_retryDelayMs := min z kMaxRetryDelayMs, co_retries := Suc (co_retries w4)\<rparr>"
      using assms c True by (auto simp: retry_def alloc_def elim!: bind_SomeE)
    then show ?thesis
      using co_frame [OF runAfter_frame [OF run]] w1 by simp
  qed (use assms c w1 in \<open>auto simp: retry_def\<close>)
qed

lemma connect_with_channel_aborts:
  assumes "co_channel w \<noteq> None" "\<forall>d \<in> set (co_open w). 0 \<le> d"
    and "\<forall>k. co_connects w k \<in> {0, EINPROGRESS, EINTR, EISCONN}"
  shows "Connector_connect rnd w = None"
proof -
  have abort: "Connector_connect rnd w = None" if c: "createNonblockingOrDie w = Some (fd, w1)" and e: "sockets_connect fd w1 = (e, w2)"
    for fd w1 e w2
  proof (cases "fd < 0")
    case True
    then have "fd \<notin> set (co_open w)"
      using assms(2) by auto
    then have "e = EBADF" "sockets_close fd w2 = None"
      using c e True by (auto simp: createNonblockingOrDie_def sockets_connect_def sockets_close_def Let_def split: if_splits)
    then show ?thesis
      using c e by (simp add: Connector_connect_def errno_defs)
  next
    case False
    then have "e \<in> {0, EINPROGRESS, EINTR, EISCONN}" "connecting fd w2 = None"
      using c e assms(1,3) by (auto simp: createNonblockingOrDie_def sockets_connect_def connecting_def Let_def split: if_splits)
    then show ?thesis
      using c e by (simp add: Connector_connect_def)
  qed
  show ?thesis
  proof (cases "createNonblockingOrDie w")
    case (Some p)
    then show ?thesis
      using abort [of "fst p" "snd p" "fst (sockets_connect (fst p) (snd p))" "snd (sockets_connect (fst p) (snd p))"] by simp
  qed (simp add: Connector_connect_def)
qed

theorem connector_stop_start_aborts:
  assumes "co_inv w" "co_state w = kConnecting" "pendingFunctors w = []" "tid \<noteq> threadId w"
    and "\<forall>k. co_connects w k \<in> {0, EINPROGRESS, EINTR, EISCONN}"
  shows "do { w1 \<leftarrow> Connector_start rnd tid (Connector_stop tid w); doPendingFunctors rnd (co_run rnd) w1 } = None"
proof -
  let ?w1 = "Connector_stop tid w"
  let ?w2 = "queueInLoop tid (Fn_user Co_startInLoop) (?w1\<lparr>co_connect := True\<rparr>)"
  have q: "pendingFunctors (queueInLoop tid f v) = pendingFunctors v @ [f]" "threadId (queueInLoop tid f v) = threadId v"
    for f and v :: "'a connector_scheme"
    by (simp_all add: queueInLoop_eq push_functor_def wakeup_def Let_def)
  have "Connector_start rnd tid ?w1 = Some ?w2"
    using assms(4) by (simp add: Connector_start_def isInLoopThread_def Connector_stop_def q)
  moreover have "co_inv ?w2"
    using assms(1) by (simp add: Connector_stop_def queued_inv set_connect_inv)
  moreover have "co_connect ?w2" "co_state ?w2 = kConnecting" "co_connects ?w2 = co_connects w"
    using assms(2) by (simp_all add: Connector_stop_def co_frame [OF queueInLoop_more(1)])
  moreover have "pendingFunctors ?w2 = [Fn_user Co_stopInLoop, Fn_user Co_startInLoop]"
    using assms(3) by (simp add: Connector_stop_def q)
  ultimately obtain w2 where w2: "Connector_start rnd tid (Connector_stop tid w) = Some w2" "co_connect w2" "co_inv w2"
    "co_state w2 = kConnecting" "pendingFunctors w2 = [Fn_user Co_stopInLoop, Fn_user Co_startInLoop]" "co_connects w2 = co_connects w"
    by blast
  let ?w3 = "w2\<lparr>callingPendingFunctors := True, pendingFunctors := []\<rparr>"
  have "run_pending rnd (co_run rnd) [Fn_user Co_stopInLoop, Fn_user Co_startInLoop] ?w3 = None"
  proof (cases "stopInLoop rnd ?w3")
    case None
    then show ?thesis
      by (simp add: run_pending_def run_functor_def co_run_def)
  next
    case (Some w4)
    obtain fd w5 where r: "removeAndResetChannel (?w3\<lparr>co_state := kDisconnected\<rparr>) = Some (fd, w5)" "retry rnd fd w5 = Some w4"
      using Some w2(4) by (auto simp: stopInLoop_def elim!: bind_SomeE)
    note f5 = co_frame [OF removeAndReset_inv [OF r(1), THEN conjunct2]]
    have "co_inv ?w3"
      using w2(3) co_inv_frame [of ?w3 w2] by simp
    then have i: "co_inv w4"
      using stopInLoop_inv [OF Some] by simp
    have "co_channel w4 \<noteq> None" "co_connect w4" "co_connects w4 = co_connects w"
      using retry_keeps [OF r(2)] f5 w2 removeAndReset_inv [OF r(1)] by (auto simp: co_fd_def elim!: bind_SomeE)
    then have "startInLoop rnd w4 = None"
      using connect_with_channel_aborts [of w4 rnd] i assms(5) by (auto simp: startInLoop_def co_inv_def owns_def split: if_splits)
    then show ?thesis
      using Some by (simp add: run_pending_def run_functor_def co_run_def)
  qed
  then show ?thesis
    using w2 by (simp add: doPendingFunctors_eq Let_def)
qed

end
