(* ===== verification/InetAddress.thy ===== *)
theory InetAddress
  imports Timestamp Endian
begin

section \<open>InetAddress and the address functions of sockets\<close>

text \<open>
  The class \<open>InetAddress\<close> (\<open>net/inet_address.h\<close>, \<open>net/inet_address.cc\<close>) and the functions of \<open>net/sockets_ops.cc\<close> on IPv4
  addresses and their texts. \<open>inet_ntop\<close> and \<open>inet_pton\<close> of the C library are modelled as they are documented: four numbers
  of at most 255 without leading zeros, separated by points.
\<close>

subsection \<open>Socket addresses\<close>

text \<open>
  A \<open>struct sockaddr_in\<close>. The port and the address hold their bytes in network order; their values as integers
  depend on the host. The padding \<open>sin_zero\<close> is never read.
\<close>

record sockaddr_in =
  sin_family :: "16 word"
  sin_port :: "16 word"
  s_addr :: "32 word"

definition AF_INET :: "16 word" where "AF_INET = 2"
definition INET_ADDRSTRLEN :: nat where "INET_ADDRSTRLEN = 16"
definition kInaddrAny :: "32 word" where "kInaddrAny = 0"
definition kInaddrLoopback :: "32 word" where "kInaddrLoopback = 0x7f000001"

text \<open>\<open>bzero\<close> of an address.\<close>

definition sockaddr_zero :: sockaddr_in where
  "sockaddr_zero = \<lparr>sin_family = 0, sin_port = 0, s_addr = 0\<rparr>"

subsection \<open>Dotted decimals: \<open>inet_ntop\<close> and \<open>inet_pton\<close> of the C library\<close>

text \<open>The string a C function finds at a pointer ends before the first null character.\<close>

definition c_str :: "string \<Rightarrow> string" where
  "c_str = takeWhile (\<lambda>c. c \<noteq> CHR 0x00)"

fun dotted :: "byte list \<Rightarrow> string" where
  "dotted [] = []"
| "dotted [b] = decimal (uint b)"
| "dotted (b # bs) = decimal (uint b) @ ''.'' @ dotted bs"

text \<open>The address is four bytes in memory. Without room for the text and the null character the call fails.\<close>

definition inet_ntop :: "endianness \<Rightarrow> 32 word \<Rightarrow> nat \<Rightarrow> string option" where
  "inet_ntop host a bufsize = (let txt = dotted (mem_bytes host a) in if length txt < bufsize then Some txt else None)"

fun split_dots :: "string \<Rightarrow> string list" where
  "split_dots [] = [[]]"
| "split_dots (c # cs) =
     (if c = CHR ''.'' then [] # split_dots cs else (c # hd (split_dots cs)) # tl (split_dots cs))"

definition is_digit :: "char \<Rightarrow> bool" where
  "is_digit c \<longleftrightarrow> c \<in> set ''0123456789''"

text \<open>A number of at most 255, in digits and without leading zeros.\<close>

definition octet :: "string \<Rightarrow> byte option" where
  "octet ds = (if ds \<noteq> [] \<and> list_all is_digit ds \<and> (hd ds = CHR ''0'' \<longrightarrow> length ds = 1) \<and> base_value 10 ds \<le> 255
     then Some (of_nat (base_value 10 ds)) else None)"

fun octets :: "string list \<Rightarrow> byte list option" where
  "octets [] = Some []"
| "octets (p # ps) = do { b \<leftarrow> octet p; bs \<leftarrow> octets ps; Some (b # bs) }"

definition inet_pton :: "endianness \<Rightarrow> string \<Rightarrow> 32 word option" where
  "inet_pton host src = do {
     bs \<leftarrow> octets (split_dots (c_str src));
     if length bs = 4 then Some (mem_word host bs) else None
   }"

subsection \<open>Functions of \<open>sockets\<close>\<close>

text \<open>
  \<open>buf\<close> is the string in the array of \<open>bufsize\<close> characters before the call; the result is the string afterwards.
\<close>

definition sockets_toIp :: "endianness \<Rightarrow> string \<Rightarrow> nat \<Rightarrow> sockaddr_in \<Rightarrow> string option" where
  "sockets_toIp host buf bufsize addr = do {
     assert_that (bufsize \<ge> INET_ADDRSTRLEN);
     Some (case inet_ntop host (s_addr addr) bufsize of None \<Rightarrow> buf | Some txt \<Rightarrow> txt)
   }"

definition sockets_toIpPort :: "endianness \<Rightarrow> string \<Rightarrow> nat \<Rightarrow> sockaddr_in \<Rightarrow> string option" where
  "sockets_toIpPort host buf bufsize addr = do {
     buf1 \<leftarrow> sockets_toIp host buf bufsize addr;
     let n = length buf1;
     let port = networkToHost16 host (sin_port addr);
     assert_that (bufsize > n);
     Some (buf1 @ snprintf (bufsize - n) ('':'' @ decimal (uint port)))
   }"

definition fromIpPort :: "endianness \<Rightarrow> string \<Rightarrow> 16 word \<Rightarrow> sockaddr_in \<Rightarrow> sockaddr_in" where
  "fromIpPort host ip port addr =
     (let a1 = addr\<lparr>sin_family := AF_INET, sin_port := hostToNetwork16 host port\<rparr>
      in case inet_pton host ip of None \<Rightarrow> a1 | Some x \<Rightarrow> a1\<lparr>s_addr := x\<rparr>)"

text \<open>The argument is what \<open>getsockname\<close> or \<open>getpeername\<close> stores, \<open>None\<close> when the call fails.\<close>

definition getLocalAddr :: "sockaddr_in option \<Rightarrow> sockaddr_in" where
  "getLocalAddr name = (case name of None \<Rightarrow> sockaddr_zero | Some a \<Rightarrow> a)"

definition getPeerAddr :: "sockaddr_in option \<Rightarrow> sockaddr_in" where
  "getPeerAddr name = (case name of None \<Rightarrow> sockaddr_zero | Some a \<Rightarrow> a)"

definition isSelfConnect :: "sockaddr_in option \<Rightarrow> sockaddr_in option \<Rightarrow> bool" where
  "isSelfConnect local_name peer_name =
     (let localaddr = getLocalAddr local_name; peeraddr = getPeerAddr peer_name
      in sin_port localaddr = sin_port peeraddr \<and> s_addr localaddr = s_addr peeraddr)"

subsection \<open>\<open>InetAddress\<close>\<close>

type_synonym InetAddress = sockaddr_in

definition InetAddress_of_port :: "endianness \<Rightarrow> 16 word \<Rightarrow> bool \<Rightarrow> InetAddress" where
  "InetAddress_of_port host port loopbackOnly =
     (let ip = (if loopbackOnly then kInaddrLoopback else kInaddrAny)
      in sockaddr_zero\<lparr>sin_family := AF_INET, s_addr := hostToNetwork32 host ip, sin_port := hostToNetwork16 host port\<rparr>)"

definition InetAddress_of_ip :: "endianness \<Rightarrow> string \<Rightarrow> 16 word \<Rightarrow> InetAddress" where
  "InetAddress_of_ip host ip port = fromIpPort host ip port sockaddr_zero"

definition InetAddress_toIpPort :: "endianness \<Rightarrow> InetAddress \<Rightarrow> string option" where
  "InetAddress_toIpPort host a = sockets_toIpPort host [] 64 a"

definition InetAddress_toIp :: "endianness \<Rightarrow> InetAddress \<Rightarrow> string option" where
  "InetAddress_toIp host a = sockets_toIp host [] 64 a"

definition ipNetEndian :: "InetAddress \<Rightarrow> 32 word option" where
  "ipNetEndian a = do { assert_that (sin_family a = AF_INET); Some (s_addr a) }"

definition toPort :: "endianness \<Rightarrow> InetAddress \<Rightarrow> 16 word" where
  "toPort host a = networkToHost16 host (sin_port a)"

text \<open>
  \<open>resolve\<close>, given what \<open>gethostbyname_r\<close> returns and the host entry it finds: its type of address, the length of an
  address and the bytes of the first one.
\<close>

definition InetAddress_resolve ::
  "endianness \<Rightarrow> int \<Rightarrow> (16 word \<times> nat \<times> byte list) option \<Rightarrow> InetAddress \<Rightarrow> (bool \<times> InetAddress) option" where
  "InetAddress_resolve host ret he out = (case he of
       Some (h_addrtype, h_length, h_addr) \<Rightarrow>
         (if ret = 0
          then do {
            assert_that (h_addrtype = AF_INET \<and> h_length = 4);
            Some (True, out\<lparr>s_addr := mem_word host h_addr\<rparr>) }
          else Some (False, out))
     | None \<Rightarrow> Some (False, out))"

subsection \<open>Numbers without leading zeros\<close>

lemma in_base_digits: "list_all is_digit (in_base 10 n)"
proof (induction n rule: less_induct)
  case (less n)
  have d: "k < 10 \<Longrightarrow> is_digit (digit k)" for k
    by (rule digit_by_digit [of "\<lambda>n. is_digit (digit n)" 10]) code_simp
  show ?case
    using less d [of n] d [of "n mod 10"] by (cases "n < 10") (auto simp: in_base_small in_base_step)
qed

lemma hd_in_base_zero: "hd (in_base 10 n) = CHR ''0'' \<Longrightarrow> n = 0"
proof (induction n rule: less_induct)
  case (less n)
  have d: "k < 10 \<Longrightarrow> digit k = CHR ''0'' \<longrightarrow> k = 0" for k
    by (rule digit_by_digit [of "\<lambda>n. digit n = CHR ''0'' \<longrightarrow> n = 0" 10]) code_simp
  show ?case
  proof (cases "n < 10")
    case True
    then show ?thesis
      using less.prems d by (simp add: in_base_small)
  next
    case False
    then have "n div 10 = 0"
      using less by (simp add: in_base_step)
    then show ?thesis
      using False by simp
  qed
qed

lemma digit_of_digit_value: "is_digit c \<Longrightarrow> digit_value c < 10 \<and> digit (digit_value c) = c"
  by (auto simp: is_digit_def digit_value_def digit_def)

lemma base_value_snoc: "base_value b (ds @ [d]) = b * base_value b ds + digit_value d"
  by (simp add: base_value_def)

lemma in_base_base_value:
  assumes "ds \<noteq> []" "list_all is_digit ds" "hd ds = CHR ''0'' \<longrightarrow> length ds = 1"
  shows "in_base 10 (base_value 10 ds) = ds"
  using assms
proof (induction ds rule: rev_induct)
  case (snoc d ds)
  have d: "digit_value d < 10" "digit (digit_value d) = d"
    using snoc.prems(2) digit_of_digit_value by simp_all
  show ?case
  proof (cases "ds = []")
    case True
    then show ?thesis
      using d by (simp add: base_value_def in_base_small)
  next
    case False
    then have h: "hd ds \<noteq> CHR ''0''"
      using snoc.prems(3) by auto
    then have ih: "in_base 10 (base_value 10 ds) = ds"
      using snoc False by simp
    have "base_value 10 ds \<noteq> 0"
      using ih h by (metis in_base_small digit_def list.sel(1) nth_Cons_0 zero_less_numeral)
    then show ?thesis
      using ih d by (simp add: base_value_snoc in_base_step)
  qed
qed simp

lemma byte_255: "unat (b :: byte) \<le> 255"
proof -
  have "unat b < 2 ^ LENGTH(8)"
    by (rule unsigned_less)
  then show ?thesis
    by simp
qed

lemma octet_decimal: "octet (decimal (uint b)) = Some b"
proof -
  have "unat b \<le> 255"
    by (rule byte_255)
  moreover have "hd (in_base 10 (unat b)) = CHR ''0'' \<longrightarrow> length (in_base 10 (unat b)) = 1"
    using hd_in_base_zero [of "unat b"] by (auto simp: in_base_small)
  ultimately show ?thesis
    using in_base_digits [of "unat b"] base_value_in_base [of 10 "unat b"] by (simp add: octet_def decimal_def)
qed

lemma decimal_octet:
  assumes "octet ds = Some b"
  shows "decimal (uint b) = ds"
proof -
  have b: "b = of_nat (base_value 10 ds)" "base_value 10 ds \<le> 255" and
    ds: "ds \<noteq> []" "list_all is_digit ds" "hd ds = CHR ''0'' \<longrightarrow> length ds = 1"
    using assms by (auto simp: octet_def split: if_splits)
  then have "unat b = base_value 10 ds"
    by (simp add: unat_of_nat)
  then show ?thesis
    using in_base_base_value [OF ds] by (simp add: decimal_def)
qed

subsection \<open>Dotted decimals read back\<close>

lemma split_dots_nonempty [simp]: "split_dots cs \<noteq> []"
  by (cases cs) simp_all

lemma split_dots_part: "CHR ''.'' \<notin> set cs \<Longrightarrow> split_dots cs = [cs]"
  by (induction cs) auto

lemma split_dots_dot: "CHR ''.'' \<notin> set cs \<Longrightarrow> split_dots (cs @ ''.'' @ ds) = cs # split_dots ds"
  by (induction cs) auto

lemma octets_dotted: "bs \<noteq> [] \<Longrightarrow> octets (split_dots (dotted bs)) = Some bs"
  using decimal_no_dot by (induction bs rule: dotted.induct)
    (simp_all add: split_dots_part split_dots_dot [simplified] octet_decimal)

text \<open>Only the text of the bytes reads as them.\<close>

fun joined :: "string list \<Rightarrow> string" where
  "joined [] = []"
| "joined [p] = p"
| "joined (p # ps) = p @ ''.'' @ joined ps"

lemma joined_Cons: "ps \<noteq> [] \<Longrightarrow> joined (p # ps) = p @ ''.'' @ joined ps"
  by (cases ps) simp_all

lemma joined_prefix: "joined ((c # p) # ps) = c # joined (p # ps)"
  by (cases ps) simp_all

lemma joined_split_dots: "joined (split_dots cs) = cs"
  by (induction cs) (simp_all add: joined_Cons joined_prefix)

lemma dotted_octets: "octets ps = Some bs \<Longrightarrow> dotted bs = joined ps"
proof (induction ps arbitrary: bs rule: joined.induct)
  case (2 p)
  then show ?case
    by (auto simp: decimal_octet elim!: bind_SomeE)
next
  case (3 p q ps)
  then obtain b cs where bs: "bs = b # cs" "octet p = Some b" "octets (q # ps) = Some cs"
    by (auto elim!: bind_SomeE)
  moreover have "cs \<noteq> []"
    using bs(3) by (auto elim!: bind_SomeE)
  ultimately show ?case
    using 3 decimal_octet by (cases cs) auto
qed simp

lemma dotted_no_null: "c_str (dotted bs) = dotted bs"
proof -
  have d: "is_digit c \<Longrightarrow> c \<noteq> CHR 0x00" for c
    by (auto simp: is_digit_def)
  have "CHR 0x00 \<notin> set (decimal (uint b))" for b :: byte
    using in_base_digits [of "unat b"] d by (auto simp: decimal_def list_all_iff)
  then have "CHR 0x00 \<notin> set (dotted bs)"
    by (induction bs rule: dotted.induct) auto
  then show ?thesis
    by (simp add: c_str_def takeWhile_eq_all_conv) metis
qed

lemma length_octet: "length (decimal (uint (b :: byte))) \<le> 3"
  using in_base_length [of 10 "unat b" 2] byte_255 [of b] by (simp add: decimal_def)

lemma length_dotted:
  assumes "length bs = 4"
  shows "length (dotted bs) \<le> 15"
proof -
  obtain a b c d where bs: "bs = [a, b, c, d]"
    using assms by (auto simp: length_Suc_conv numeral_eq_Suc)
  show ?thesis
    using length_octet [of a] length_octet [of b] length_octet [of c] length_octet [of d] by (simp add: bs)
qed

lemma mem_bytes_mem_word:
  "length bs = LENGTH('a::len) div 8 \<Longrightarrow> mem_bytes host (mem_word host bs :: 'a word) = bs"
  by (simp add: mem_word_def mem_bytes_def of_be_bytes_def be_bytes_def split: endianness.split)

lemma inet_pton_dotted: "inet_pton host (dotted (mem_bytes host a)) = Some a"
proof -
  have n: "length (mem_bytes host a) = 4"
    by (simp add: length_mem_bytes)
  then have "mem_bytes host a \<noteq> []"
    by (metis list.size(3) zero_neq_numeral)
  then show ?thesis
    using octets_dotted n mem_word_mem_bytes [of host a] by (simp add: inet_pton_def dotted_no_null)
qed

lemma inet_pton_text:
  assumes "inet_pton host cs = Some a"
  shows "dotted (mem_bytes host a) = c_str cs"
proof -
  obtain bs where "octets (split_dots (c_str cs)) = Some bs" "length bs = 4" "a = mem_word host bs"
    using assms by (auto simp: inet_pton_def elim!: bind_SomeE split: if_splits)
  moreover from this(2,3) have "mem_bytes host a = bs"
    by (simp add: mem_bytes_mem_word)
  ultimately show ?thesis
    using dotted_octets joined_split_dots by metis
qed

lemma htobe_betoh: "8 dvd LENGTH('a) \<Longrightarrow> htobe host (betoh host x) = (x :: 'a::len word)"
  by (simp add: betoh_def htobe_def bswap_def split: endianness.split)

lemma zero_text: "dotted (mem_bytes host (0 :: 32 word)) = ''0.0.0.0''"
proof (cases host)
  case Little_Endian
  show ?thesis
    unfolding Little_Endian by code_simp
next
  case Big_Endian
  show ?thesis
    unfolding Big_Endian by code_simp
qed

lemma toIp_eq: "InetAddress_toIp host a = Some (dotted (mem_bytes host (s_addr a)))"
  using length_dotted [of "mem_bytes host (s_addr a)"]
  by (simp add: InetAddress_toIp_def sockets_toIp_def inet_ntop_def INET_ADDRSTRLEN_def Let_def)

lemma toIpPort_eq:
  "InetAddress_toIpPort host a = Some (dotted (mem_bytes host (s_addr a)) @ '':'' @ decimal (uint (toPort host a)))"
proof -
  let ?ip = "dotted (mem_bytes host (s_addr a))"
  have n: "length ?ip \<le> 15"
    using length_dotted [of "mem_bytes host (s_addr a)"] by simp
  have "uint (toPort host a) < 65536"
    using uint_bounded [of "toPort host a"] by simp
  moreover have "- (2 ^ 63) \<le> uint (toPort host a)"
    by (rule order_trans [OF _ uint_ge_0]) simp
  ultimately have "length (decimal (uint (toPort host a))) \<le> 20"
    using length_decimal [of "uint (toPort host a)"] by simp
  then show ?thesis
    using toIp_eq [of host a] n
    by (simp add: InetAddress_toIpPort_def sockets_toIpPort_def InetAddress_toIp_def toPort_def snprintf_def Let_def)
qed

subsection \<open>Properties\<close>

text \<open>
  C39: Addresses are printed and read without loss, on hosts of either byte order. The text of an address is at most
  15 characters long, and with the port it is the text, a colon and the number of the port. The address constructed from
  the text and the port is the address itself; the address constructed from any other string prints as \<open>0.0.0.0\<close> when the
  string is not of the form \<open>a.b.c.d\<close>, and as that very string otherwise.
\<close>

theorem inet_address_text:
  "(\<exists>ip. InetAddress_toIp host a = Some ip \<and> length ip < INET_ADDRSTRLEN
      \<and> InetAddress_toIpPort host a = Some (ip @ '':'' @ decimal (uint (toPort host a)))
      \<and> InetAddress_of_ip host ip (toPort host a) = a\<lparr>sin_family := AF_INET\<rparr>)
   \<and> InetAddress_toIp host (InetAddress_of_ip host cs port)
      = Some (if inet_pton host cs = None then ''0.0.0.0'' else c_str cs)
   \<and> toPort host (InetAddress_of_ip host cs port) = port"
proof (intro conjI)
  let ?ip = "dotted (mem_bytes host (s_addr a))"
  have "length ?ip < INET_ADDRSTRLEN"
    using length_dotted [of "mem_bytes host (s_addr a)"] by (simp add: INET_ADDRSTRLEN_def)
  moreover have "InetAddress_of_ip host ?ip (toPort host a) = a\<lparr>sin_family := AF_INET\<rparr>"
    by (simp add: InetAddress_of_ip_def fromIpPort_def inet_pton_dotted toPort_def sockaddr_zero_def endian_defs htobe_betoh)
  ultimately show "\<exists>ip. InetAddress_toIp host a = Some ip \<and> length ip < INET_ADDRSTRLEN
      \<and> InetAddress_toIpPort host a = Some (ip @ '':'' @ decimal (uint (toPort host a)))
      \<and> InetAddress_of_ip host ip (toPort host a) = a\<lparr>sin_family := AF_INET\<rparr>"
    using toIp_eq toIpPort_eq by blast
next
  show "InetAddress_toIp host (InetAddress_of_ip host cs port)
      = Some (if inet_pton host cs = None then ''0.0.0.0'' else c_str cs)"
    using inet_pton_text [of host cs]
    by (auto simp: toIp_eq InetAddress_of_ip_def fromIpPort_def sockaddr_zero_def zero_text Let_def)
next
  show "toPort host (InetAddress_of_ip host cs port) = port"
    by (simp add: toPort_def InetAddress_of_ip_def fromIpPort_def endian_defs betoh_htobe Let_def split: option.split)
qed

end
