(* ===== verification/Spec2Isabelle.thy ===== *)
theory Spec2Isabelle
  imports BufferWire TimeZoneProps Logging TcpConnectionProps ThreadPool SudokuServerProps ConnectorProps InetAddress
begin

text \<open>
  This is a verification of ccnet, a C++ library for TCP servers and clients in the reactor style (src/base, src/net) with
  a Sudoku server built on it (src/net/sudoku).

  \<^bold>\<open>The program.\<close> A thread runs an \<open>EventLoop\<close>. The loop asks its \<open>EPollPoller\<close> which descriptors are ready and lets the
  \<open>Channel\<close> of each call the callbacks for its events; then it runs the functors other threads have queued. A
  \<open>TimerQueue\<close> turns timers into one more descriptor of the loop, and an eventfd wakes the loop when another thread
  queues a functor or calls \<open>quit\<close>. A \<open>TcpConnection\<close> reads from its socket into a \<open>Buffer\<close>, and keeps in a second one what
  the socket did not take yet. A \<open>Connector\<close> makes connections for clients and tries again after a while. The library
  below has dates, time stamps, time zones, a logger, and blocking queues, a latch and a thread pool over mutexes and
  conditions. The Sudoku server reads puzzles from its connections and solves them in a thread pool.

  \<^bold>\<open>How the model is written.\<close> The theories define the functions of the program in the option monad, one line for a
  statement: \<open>None\<close> is a call that does not return normally, because an assertion fails, memory that does not exist is
  accessed, an \<open>int\<close> overflows, or nothing catches an exception (\<open>Prelude\<close>). Objects that are shared are kept in stores by
  their addresses. The record \<open>reactor\<close> (the channels and the poller of a loop) is extended to \<open>timer_queue\<close>, this one to
  \<open>event_loop\<close>, and this one to a connection or a connector, because they all change the state of the loop they belong
  to. What the kernel, the clock and the C library answer is an input: a field of the state or an argument, about which
  nothing more is assumed than a theorem says. Functions of clients are values, run by an argument of the model. Methods
  that other threads may call take the number of the calling thread, and are split where these can interfere.

  \<^bold>\<open>The theories\<close>, each with the sources it models; the theories named \<open>...Props\<close>, \<open>...Inv\<close> and \<open>...Refine\<close> hold the proofs.

  \<^item> \<open>Prelude\<close>: integers, vectors and the locales \<open>machine\<close>, \<open>live_machine\<close> and \<open>transition_system\<close>, from which the
    invariants of all runs and of all interleavings follow.
  \<^item> \<open>Endian\<close>, \<open>StringPiece\<close>, \<open>Buffer\<close>, \<open>BufferWire\<close>: net/endian.h, base/string_piece.h, net/buffer.h, net/buffer.cc. A buffer is a queue
    of bytes (locale \<open>byte_queue\<close>), integers survive the way between hosts of different byte order, and \<open>readFd\<close> takes exactly what
    \<open>readv\<close> delivers (C1 to C5).
  \<^item> \<open>Dates\<close>, \<open>TimeZone\<close>, \<open>TimeZoneProps\<close>, \<open>Timestamp\<close>: base/date.*, base/time_zone.*, base/timestamp.*. The conversions agree with
    the Gregorian calendar, within bounds beyond which an \<open>int\<close> overflows, and are inverse to each other; the rule of a zone
    is the one in force, and zone files are read as they are documented (C6 to C11, C14).
  \<^item> \<open>LogStream\<close>, \<open>LogStreamProps\<close>, \<open>Logging\<close>: base/log_stream.*, base/logging.*. The stream is never overrun (locale \<open>text_sink\<close>),
    numbers read back, and the text of a log line is given for every macro (C12, C13, C15).
  \<^item> \<open>Channel\<close>, \<open>ChannelProps\<close>: net/channel.*, net/poller.*, net/epoller.*. The kernel's interest list is the one the channels
    describe, assertions fail exactly in the stated cases, and callbacks are dispatched as stated (C16 to C19).
  \<^item> \<open>Atomic\<close>, \<open>TimerQueue\<close>, \<open>TimerQueueInv\<close>, \<open>TimerQueueProps\<close>: base/atomic.h, net/timer.*, net/timer_id.h, net/timer_queue.*. The sets of
    timers stay consistent, exactly the expired timers run, a cancelled timer stays cancelled, and the descriptor is
    armed (C20 to C23).
  \<^item> \<open>EventLoop\<close>, \<open>EventLoopProps\<close>: net/event_loop.*. Functors run once and in order and no wakeup is lost in every
    interleaving of the parts of \<open>queueInLoop\<close>, \<open>quit\<close> and \<open>doPendingFunctors\<close>; \<open>addTimer\<close> has a race (C24 to C27).
  \<^item> \<open>TcpConnection\<close>, \<open>TcpConnectionRefine\<close>, \<open>TcpConnectionInv\<close>, \<open>TcpConnectionProps\<close>: net/tcp_connection.*, base/weak_callback.h. The output
    refines a queue of bytes between program and kernel, \<open>shutdown\<close> waits for it, and the callbacks come in pairs;
    a connection that is shutting down cannot be destroyed (C28 to C31).
  \<^item> \<open>Monitor\<close>, \<open>Queues\<close>, \<open>ThreadPool\<close>: base/mutex.h, base/condition.*, base/blocking_queue.h, base/bounded_blocking_queue.h,
    base/count_down_latch.*, base/thread_pool.*. The critical sections of the methods, run by interleaved threads; the locale
    \<open>queue_monitor\<close> has what a queue with two conditions promises, and is interpreted for both queues and the pool (C32 to C34).
  \<^item> \<open>Sudoku\<close>, \<open>LinkedRings\<close>, \<open>DancingLinks\<close>, \<open>DancingLinksSearch\<close>, \<open>SudokuMatrix\<close>, \<open>SudokuSolution\<close>, \<open>SudokuProps\<close>: net/sudoku/sudoku.h and sudoku.cc.
    Covering and uncovering on the links are inverse (locale \<open>matrix\<close>), the search finds an exact cover if there is one,
    and the exact covers of the matrix of a board are the solutions of the puzzle (C35, C36).
  \<^item> \<open>Connector\<close>, \<open>ConnectorProps\<close>: net/connector.* and the calls of net/sockets_ops.cc it makes. The delays of the retries, and what
    becomes of the sockets (C37, C38).
  \<^item> \<open>InetAddress\<close>: net/inet_address.* and the functions on addresses of net/sockets_ops.cc (C39).
  \<^item> \<open>SudokuServer\<close>, \<open>SudokuServerProps\<close>: net/sudoku/server_threadpool.cc and net/sudoku/batch.cc over the buffer and the solver. The server
    answers the requests of a connection however the bytes arrive (locale \<open>line_reader\<close>), and a client is served (C40).

  \<^bold>\<open>Bounds.\<close> Loops over lists, buffers and digits are recursions that end. The loops of the Sudoku solver along its
  links are given \<open>kMaxNodes\<close> steps, the number of nodes there are, and its search \<open>solve_depth\<close> nested calls; C36 shows that
  more steps change nothing, and C35 that the solver returns. The loops of the Sudoku server and client are partial
  functions; C40 shows that the server's returns. \<open>poll\<close> may block for ever: \<open>loop\<close> is a series of turns, and the
  properties of interleaved threads hold in every reachable state.

  \<^bold>\<open>What goes wrong.\<close> Some theorems show flaws: C27 and C31, \<open>shrink_aborts_when_large\<close>, \<open>unreadable_zone_is_valid\<close>,
  \<open>disableAll_twice_readds\<close>, \<open>connector_stop_start_aborts\<close>, \<open>connector_restart_leaks\<close> and \<open>server_ends_on_partial_request\<close>.

  \<^bold>\<open>What is not modelled.\<close> \<open>Thread\<close>, \<open>EventLoopThread\<close>, \<open>EventLoopThreadPool\<close> and \<open>Socket\<close> wrap calls of the system; \<open>Acceptor\<close>,
  \<open>TcpServer\<close> and \<open>TcpClient\<close> tie the modelled parts together; \<open>Exception\<close>, \<open>Singleton\<close> and the thread-local templates are not used
  by them; the asynchronous logger is not compiled. Memory models weaker than interleaving and the lifetime of objects
  held by \<open>shared_ptr\<close>, apart from the owner a channel is tied to and the functors bound to a connection, are not considered.
\<close>

end
